(* ===== verification/Prelude.thy ===== *)
theory Prelude
  imports Main "HOL-Library.Word" "HOL-Library.Multiset"
begin

text \<open>
  Shared vocabulary of the development: the types of the i386 target (a pointer,
  \<^verbatim>\<open>size_t\<close> and \<^verbatim>\<open>unsigned\<close> are 32-bit words), the ways kernel code can fail to
  return normally, the sequencing combinators the components are written with, and
  generic facts on lists and words.

  A C function that can only finish or panic is a function into \<open>'a res\<close>; one whose loop
  is not bounded by an argument (a walk along links in memory) is a function into
  \<open>'a exec\<close>, where \<open>None\<close> is a run that never ends.
\<close>

unbundle bit_operations_syntax

section \<open>Machine types\<close>

type_synonym u8 = "8 word"
type_synonym u16 = "16 word"
type_synonym u32 = "32 word"
type_synonym u64 = "64 word"
type_synonym ptr = u32

abbreviation NULL :: ptr where "NULL \<equiv> 0"


section \<open>Outcomes\<close>

text \<open>
  \<open>Assert_fail\<close> is a failed \<^verbatim>\<open>ASSERT\<close>, \<open>Kernel_panic\<close> an explicit \<^verbatim>\<open>PANIC\<close>,
  \<open>Not_reached\<close> the \<^verbatim>\<open>NOT_REACHED\<close> macro, \<open>Divide_error\<close> the CPU's \<^verbatim>\<open>#DE\<close> trap and
  \<open>Bad_access\<close> an access to memory outside the object at hand, which C leaves undefined.
\<close>

datatype panic = Assert_fail | Kernel_panic | Not_reached | Divide_error | Bad_access

type_synonym 'a res = "panic + 'a"
type_synonym 'a exec = "'a res option"

definition bindR :: "'a res \<Rightarrow> ('a \<Rightarrow> 'b res) \<Rightarrow> 'b res" where
  "bindR m f = (case m of Inl e \<Rightarrow> Inl e | Inr x \<Rightarrow> f x)"

definition require :: "bool \<Rightarrow> 'a res \<Rightarrow> 'a res" where
  "require b k = (if b then k else Inl Assert_fail)"

definition bindE :: "'a exec \<Rightarrow> ('a \<Rightarrow> 'b exec) \<Rightarrow> 'b exec" where
  "bindE m f = Option.bind m (\<lambda>r. case r of Inl e \<Rightarrow> Some (Inl e) | Inr x \<Rightarrow> f x)"

definition requireE :: "bool \<Rightarrow> 'a exec \<Rightarrow> 'a exec" where
  "requireE b k = (if b then k else Some (Inl Assert_fail))"

abbreviation okE :: "'a \<Rightarrow> 'a exec" where "okE x \<equiv> Some (Inr x)"

named_theorems outcome_simps \<open>evaluation of the sequencing combinators\<close>

lemma bindR_Inl [simp, outcome_simps]: "bindR (Inl e) f = Inl e"
  by (simp add: bindR_def)

lemma bindR_Inr [simp, outcome_simps]: "bindR (Inr x) f = f x"
  by (simp add: bindR_def)

lemma bindR_eq_Inr [simp]: "bindR m f = Inr y \<longleftrightarrow> (\<exists>x. m = Inr x \<and> f x = Inr y)"
  by (cases m) simp_all

lemma bindR_assoc: "bindR (bindR m f) g = bindR m (\<lambda>x. bindR (f x) g)"
  by (cases m) simp_all

lemma require_True [simp, outcome_simps]: "require True k = k"
  by (simp add: require_def)

lemma require_False [simp, outcome_simps]: "require False k = Inl Assert_fail"
  by (simp add: require_def)

lemma require_eq_Inr [simp]: "require b k = Inr x \<longleftrightarrow> b \<and> k = Inr x"
  by (simp add: require_def)

lemma bindE_None [simp, outcome_simps]: "bindE None f = None"
  by (simp add: bindE_def)

lemma bindE_Inl [simp, outcome_simps]: "bindE (Some (Inl e)) f = Some (Inl e)"
  by (simp add: bindE_def)

lemma bindE_Inr [simp, outcome_simps]: "bindE (Some (Inr x)) f = f x"
  by (simp add: bindE_def)

lemma bindE_eq_ok [simp]: "bindE m f = okE y \<longleftrightarrow> (\<exists>x. m = okE x \<and> f x = okE y)"
  by (auto simp: bindE_def Option.bind_eq_Some_conv split: sum.splits) (metis sum.exhaust)?

lemma requireE_True [simp, outcome_simps]: "requireE True k = k"
  by (simp add: requireE_def)

lemma requireE_False [simp, outcome_simps]: "requireE False k = Some (Inl Assert_fail)"
  by (simp add: requireE_def)

lemma requireE_eq_ok [simp]: "requireE b k = okE x \<longleftrightarrow> b \<and> k = okE x"
  by (simp add: requireE_def)

text \<open>The combinators are monotone, so loops over them are admitted as partial functions.\<close>

lemma bindE_mono [partial_function_mono]:
  assumes "mono_option B" and "\<And>y. mono_option (\<lambda>f. C y f)"
  shows "mono_option (\<lambda>f. bindE (B f) (\<lambda>y. C y f))"
  unfolding bindE_def
proof (rule bind_mono [OF assms(1)])
  fix r :: "'c res"
  show "mono_option (\<lambda>f. case r of Inl e \<Rightarrow> Some (Inl e) | Inr x \<Rightarrow> C x f)"
    using assms(2) by (cases r) (auto intro: option.const_mono)
qed

lemma requireE_mono [partial_function_mono]:
  assumes "mono_option k"
  shows "mono_option (\<lambda>f. requireE b (k f))"
  using assms by (cases b) (simp_all add: option.const_mono)

section \<open>Counting loops on words\<close>

text \<open>A loop \<^verbatim>\<open>for (i = ...; i < n; i++)\<close> never wraps its index.\<close>

lemma unat_lt2p: "unat (x :: 'a::len word) < 2 ^ LENGTH('a)"
  by (rule unsigned_less)

lemma unat_succ:
  assumes "(i :: 'a::len word) < n"
  shows "unat (i + 1) = Suc (unat i)"
proof -
  have "unat i + 1 < 2 ^ LENGTH('a)"
    using assms unat_lt2p [of n] unfolding word_less_nat_alt by linarith
  then show ?thesis by (simp add: unat_word_ariths)
qed

lemma count_up: "(i :: 'a::len word) < n \<Longrightarrow> unat n - unat (i + 1) < unat n - unat i"
  by (simp add: unat_succ word_less_nat_alt diff_less_mono2)

lemma unat_pred: "(0 :: 'a::len word) < n \<Longrightarrow> unat (n - 1) = unat n - 1"
  by (simp add: unat_minus_one word_greater_zero_iff)

lemma count_down: "(0 :: 'a::len word) < n \<Longrightarrow> unat (n - 1) < unat n"
  by (simp add: unat_pred unat_gt_0 word_greater_zero_iff)

section \<open>Words as bytes\<close>

text \<open>The processor stores a word with its lowest byte first.\<close>

definition int_bytes :: "u32 \<Rightarrow> u8 list" where
  "int_bytes i = [ucast i, ucast (drop_bit 8 i), ucast (drop_bit 16 i), ucast (drop_bit 24 i)]"

definition bytes_int :: "u8 list \<Rightarrow> u32" where
  "bytes_int bs = foldr (\<lambda>b w. ucast b OR push_bit 8 w) bs 0"

lemma bytes_int_bytes [simp]: "bytes_int (int_bytes w) = w"
proof (rule bit_word_eqI)
  fix n assume "n < LENGTH(32)"
  then consider "n < 8" | "8 \<le> n" "n < 16" | "16 \<le> n" "n < 24" | "24 \<le> n" "n < 32" by force
  then show "bit (bytes_int (int_bytes w)) n = bit w n"
    by cases (simp_all add: bytes_int_def int_bytes_def bit_simps less_diff_conv2)
qed

lemma int_bytes_length [simp]: "length (int_bytes w) = 4"
  by (simp add: int_bytes_def)

lemma encoded_length: "length (concat (map int_bytes vs)) = 4 * length vs"
  by (induction vs) simp_all

lemma encoded_elem: "k < length vs \<Longrightarrow> take 4 (drop (k * 4) (concat (map int_bytes vs))) = int_bytes (vs ! k)"
proof (induction vs arbitrary: k)
  case (Cons v vs)
  then show ?case by (cases k) simp_all
qed simp

lemma int_bytes_int: "length bs = 4 \<Longrightarrow> int_bytes (bytes_int bs) = bs"
proof -
  assume "length bs = 4"
  then obtain a b c d where bs: "bs = [a, b, c, d]" by (auto simp: numeral_eq_Suc length_Suc_conv)
  show ?thesis unfolding bs
    by (auto simp: int_bytes_def bytes_int_def bit_eq_iff bit_simps dest: bit_imp_le_length)
qed

end
