(* ===== verification/Klist.thy ===== *)
theory Klist
  imports Prelude
begin

text \<open>
  The intrusive doubly linked lists of \<^verbatim>\<open>lib/kernel/list.c\<close>, at the level of their
  links. The store maps the address of a \<^verbatim>\<open>struct list_elem\<close> to its two pointers; a
  \<^verbatim>\<open>struct list\<close> at address \<open>l\<close> holds its head element at \<open>l\<close> and its tail element
  eight bytes further on. A comparison function of type \<^verbatim>\<open>list_less_func\<close> with its
  auxiliary data is a predicate on element addresses: it reads the structures the elements
  are embedded in, never the links. \<open>list_rep m l xs\<close> says that the list at \<open>l\<close> holds
  exactly the elements \<open>xs\<close>, in this order, with all links in both directions in place.
\<close>

section \<open>Elements, lists and the store\<close>

record list_elem =
  l_prev :: ptr
  l_next :: ptr

type_synonym lmem = "ptr \<Rightarrow> list_elem"
type_synonym less_func = "ptr \<Rightarrow> ptr \<Rightarrow> bool"

datatype link = PREV ptr | NEXT ptr

definition head_of :: "ptr \<Rightarrow> ptr" where "head_of l = l"
definition tail_of :: "ptr \<Rightarrow> ptr" where "tail_of l = l + 8"

fun rd :: "link \<Rightarrow> lmem \<Rightarrow> ptr" where
  "rd (PREV p) m = l_prev (m p)"
| "rd (NEXT p) m = l_next (m p)"

fun wr :: "link \<Rightarrow> ptr \<Rightarrow> lmem \<Rightarrow> lmem" where
  "wr (PREV p) v m = m(p := (m p)\<lparr>l_prev := v\<rparr>)"
| "wr (NEXT p) v m = m(p := (m p)\<lparr>l_next := v\<rparr>)"

section \<open>Operations\<close>

definition is_head :: "ptr \<Rightarrow> lmem \<Rightarrow> bool" where
  "is_head e m \<longleftrightarrow> e \<noteq> NULL \<and> l_prev (m e) = NULL \<and> l_next (m e) \<noteq> NULL"

definition is_interior :: "ptr \<Rightarrow> lmem \<Rightarrow> bool" where
  "is_interior e m \<longleftrightarrow> e \<noteq> NULL \<and> l_prev (m e) \<noteq> NULL \<and> l_next (m e) \<noteq> NULL"

definition is_tail :: "ptr \<Rightarrow> lmem \<Rightarrow> bool" where
  "is_tail e m \<longleftrightarrow> e \<noteq> NULL \<and> l_prev (m e) \<noteq> NULL \<and> l_next (m e) = NULL"

definition list_init :: "ptr \<Rightarrow> lmem \<Rightarrow> lmem res" where
  "list_init l m = require (l \<noteq> NULL)
     (let m = wr (PREV (head_of l)) NULL m;
          m = wr (NEXT (head_of l)) (tail_of l) m;
          m = wr (PREV (tail_of l)) (head_of l) m;
          m = wr (NEXT (tail_of l)) NULL m
      in Inr m)"

definition list_begin :: "ptr \<Rightarrow> lmem \<Rightarrow> ptr res" where
  "list_begin l m = require (l \<noteq> NULL) (Inr (l_next (m (head_of l))))"

definition list_next :: "ptr \<Rightarrow> lmem \<Rightarrow> ptr res" where
  "list_next e m = require (is_head e m \<or> is_interior e m) (Inr (l_next (m e)))"

definition list_end :: "ptr \<Rightarrow> lmem \<Rightarrow> ptr res" where
  "list_end l m = require (l \<noteq> NULL) (Inr (tail_of l))"

definition list_rbegin :: "ptr \<Rightarrow> lmem \<Rightarrow> ptr res" where
  "list_rbegin l m = require (l \<noteq> NULL) (Inr (l_prev (m (tail_of l))))"

definition list_prev :: "ptr \<Rightarrow> lmem \<Rightarrow> ptr res" where
  "list_prev e m = require (is_interior e m \<or> is_tail e m) (Inr (l_prev (m e)))"

definition list_rend :: "ptr \<Rightarrow> lmem \<Rightarrow> ptr res" where
  "list_rend l m = require (l \<noteq> NULL) (Inr (head_of l))"

definition list_head :: "ptr \<Rightarrow> lmem \<Rightarrow> ptr res" where
  "list_head l m = require (l \<noteq> NULL) (Inr (head_of l))"

definition list_tail :: "ptr \<Rightarrow> lmem \<Rightarrow> ptr res" where
  "list_tail l m = require (l \<noteq> NULL) (Inr (tail_of l))"

definition list_insert :: "ptr \<Rightarrow> ptr \<Rightarrow> lmem \<Rightarrow> lmem res" where
  "list_insert before e m =
     require (is_interior before m \<or> is_tail before m) (require (e \<noteq> NULL)
     (let m = wr (PREV e) (l_prev (m before)) m;
          m = wr (NEXT e) before m;
          m = wr (NEXT (l_prev (m before))) e m;
          m = wr (PREV before) e m
      in Inr m))"

definition list_splice :: "ptr \<Rightarrow> ptr \<Rightarrow> ptr \<Rightarrow> lmem \<Rightarrow> lmem res" where
  "list_splice before fst0 lst0 m =
     require (is_interior before m \<or> is_tail before m)
     (if fst0 = lst0 then Inr m
      else bindR (list_prev lst0 m) (\<lambda>lst.
        require (is_interior fst0 m) (require (is_interior lst m)
        (let m = wr (NEXT (l_prev (m fst0))) (l_next (m lst)) m;
             m = wr (PREV (l_next (m lst))) (l_prev (m fst0)) m;
             m = wr (PREV fst0) (l_prev (m before)) m;
             m = wr (NEXT lst) before m;
             m = wr (NEXT (l_prev (m before))) fst0 m;
             m = wr (PREV before) lst m
         in Inr m))))"

definition list_push_front :: "ptr \<Rightarrow> ptr \<Rightarrow> lmem \<Rightarrow> lmem res" where
  "list_push_front l e m = bindR (list_begin l m) (\<lambda>b. list_insert b e m)"

definition list_push_back :: "ptr \<Rightarrow> ptr \<Rightarrow> lmem \<Rightarrow> lmem res" where
  "list_push_back l e m = bindR (list_end l m) (\<lambda>b. list_insert b e m)"

definition list_remove :: "ptr \<Rightarrow> lmem \<Rightarrow> (ptr \<times> lmem) res" where
  "list_remove e m = require (is_interior e m)
     (let m = wr (NEXT (l_prev (m e))) (l_next (m e)) m;
          m = wr (PREV (l_next (m e))) (l_prev (m e)) m
      in Inr (l_next (m e), m))"

definition list_empty :: "ptr \<Rightarrow> lmem \<Rightarrow> bool res" where
  "list_empty l m = bindR (list_begin l m) (\<lambda>b. bindR (list_end l m) (\<lambda>e. Inr (b = e)))"

definition list_front :: "ptr \<Rightarrow> lmem \<Rightarrow> ptr res" where
  "list_front l m = bindR (list_empty l m) (\<lambda>b. require (\<not> b) (Inr (l_next (m (head_of l)))))"

definition list_back :: "ptr \<Rightarrow> lmem \<Rightarrow> ptr res" where
  "list_back l m = bindR (list_empty l m) (\<lambda>b. require (\<not> b) (Inr (l_prev (m (tail_of l)))))"

definition list_pop_front :: "ptr \<Rightarrow> lmem \<Rightarrow> (ptr \<times> lmem) res" where
  "list_pop_front l m = bindR (list_front l m) (\<lambda>front.
     bindR (list_remove front m) (\<lambda>(_, m). Inr (front, m)))"

definition list_pop_back :: "ptr \<Rightarrow> lmem \<Rightarrow> (ptr \<times> lmem) res" where
  "list_pop_back l m = bindR (list_back l m) (\<lambda>back.
     bindR (list_remove back m) (\<lambda>(_, m). Inr (back, m)))"

partial_function (option) list_size_loop :: "ptr \<Rightarrow> ptr \<Rightarrow> u32 \<Rightarrow> lmem \<Rightarrow> u32 exec" where
  "list_size_loop l e cnt m = bindE (Some (list_end l m)) (\<lambda>tl.
     if e = tl then okE cnt
     else bindE (Some (list_next e m)) (\<lambda>e. list_size_loop l e (cnt + 1) m))"

definition list_size :: "ptr \<Rightarrow> lmem \<Rightarrow> u32 exec" where
  "list_size l m = bindE (Some (list_begin l m)) (\<lambda>e. list_size_loop l e 0 m)"

definition swap_links :: "link \<Rightarrow> link \<Rightarrow> lmem \<Rightarrow> lmem" where
  "swap_links a b m =
     (let t = rd a m; m = wr a (rd b m) m; m = wr b t m in m)"

partial_function (option) list_reverse_loop :: "ptr \<Rightarrow> ptr \<Rightarrow> lmem \<Rightarrow> lmem exec" where
  "list_reverse_loop l e m = bindE (Some (list_end l m)) (\<lambda>tl.
     if e = tl then okE m
     else let m = swap_links (PREV e) (NEXT e) m
          in list_reverse_loop l (l_prev (m e)) m)"

definition list_reverse :: "ptr \<Rightarrow> lmem \<Rightarrow> lmem exec" where
  "list_reverse l m = bindE (Some (list_empty l m)) (\<lambda>b.
     if b then okE m
     else bindE (Some (list_begin l m)) (\<lambda>e. bindE (list_reverse_loop l e m) (\<lambda>m.
       let m = swap_links (NEXT (head_of l)) (PREV (tail_of l)) m;
           m = swap_links (PREV (l_next (m (head_of l)))) (NEXT (l_prev (m (tail_of l)))) m
       in okE m)))"

partial_function (option) is_sorted_loop ::
    "ptr \<Rightarrow> ptr \<Rightarrow> less_func \<Rightarrow> lmem \<Rightarrow> bool exec" where
  "is_sorted_loop a b lt m = bindE (Some (list_next a m)) (\<lambda>a.
     if a = b then okE True
     else bindE (Some (list_prev a m)) (\<lambda>p.
       if lt a p then okE False else is_sorted_loop a b lt m))"

definition is_sorted :: "ptr \<Rightarrow> ptr \<Rightarrow> less_func \<Rightarrow> lmem \<Rightarrow> bool exec" where
  "is_sorted a b lt m = (if a \<noteq> b then is_sorted_loop a b lt m else okE True)"

partial_function (option) find_end_of_run_loop ::
    "ptr \<Rightarrow> ptr \<Rightarrow> less_func \<Rightarrow> lmem \<Rightarrow> ptr exec" where
  "find_end_of_run_loop a b lt m = bindE (Some (list_next a m)) (\<lambda>a.
     if a = b then okE a
     else bindE (Some (list_prev a m)) (\<lambda>p.
       if lt a p then okE a else find_end_of_run_loop a b lt m))"

definition find_end_of_run :: "ptr \<Rightarrow> ptr \<Rightarrow> less_func \<Rightarrow> lmem \<Rightarrow> ptr exec" where
  "find_end_of_run a b lt m =
     requireE (a \<noteq> NULL) (requireE (b \<noteq> NULL) (requireE (a \<noteq> b)
       (find_end_of_run_loop a b lt m)))"

partial_function (option) inplace_merge_loop ::
    "ptr \<Rightarrow> ptr \<Rightarrow> ptr \<Rightarrow> less_func \<Rightarrow> lmem \<Rightarrow> lmem exec" where
  "inplace_merge_loop a0 a1b0 b1 lt m =
     (if a0 \<noteq> a1b0 \<and> a1b0 \<noteq> b1
      then if \<not> lt a1b0 a0
        then bindE (Some (list_next a0 m)) (\<lambda>a0. inplace_merge_loop a0 a1b0 b1 lt m)
        else bindE (Some (list_next a1b0 m)) (\<lambda>a1b0.
             bindE (Some (list_prev a1b0 m)) (\<lambda>p.
             bindE (Some (list_splice a0 p a1b0 m)) (\<lambda>m.
               inplace_merge_loop a0 a1b0 b1 lt m)))
      else okE m)"

definition inplace_merge ::
    "ptr \<Rightarrow> ptr \<Rightarrow> ptr \<Rightarrow> less_func \<Rightarrow> lmem \<Rightarrow> lmem exec" where
  "inplace_merge a0 a1b0 b1 lt m =
     requireE (a0 \<noteq> NULL) (requireE (a1b0 \<noteq> NULL) (requireE (b1 \<noteq> NULL)
     (bindE (is_sorted a0 a1b0 lt m) (\<lambda>s. requireE s
     (bindE (is_sorted a1b0 b1 lt m) (\<lambda>s. requireE s
     (inplace_merge_loop a0 a1b0 b1 lt m)))))))"

partial_function (option) list_sort_pass ::
    "ptr \<Rightarrow> ptr \<Rightarrow> u32 \<Rightarrow> less_func \<Rightarrow> lmem \<Rightarrow> (u32 \<times> lmem) exec" where
  "list_sort_pass l a0 output_run_cnt lt m = bindE (Some (list_end l m)) (\<lambda>tl.
     if a0 = tl then okE (output_run_cnt, m)
     else bindE (find_end_of_run a0 tl lt m) (\<lambda>a1b0.
       if a1b0 = tl then okE (output_run_cnt + 1, m)
       else bindE (find_end_of_run a1b0 tl lt m) (\<lambda>b1.
            bindE (inplace_merge a0 a1b0 b1 lt m) (\<lambda>m.
              list_sort_pass l b1 (output_run_cnt + 1) lt m))))"

partial_function (option) list_sort_loop :: "ptr \<Rightarrow> less_func \<Rightarrow> lmem \<Rightarrow> lmem exec" where
  "list_sort_loop l lt m = bindE (Some (list_begin l m)) (\<lambda>a0.
     bindE (list_sort_pass l a0 0 lt m) (\<lambda>r.
       if fst r > 1 then list_sort_loop l lt (snd r) else okE (snd r)))"

definition list_sort :: "ptr \<Rightarrow> less_func \<Rightarrow> lmem \<Rightarrow> lmem exec" where
  "list_sort l lt m = requireE (l \<noteq> NULL) (bindE (list_sort_loop l lt m) (\<lambda>m.
     bindE (Some (list_begin l m)) (\<lambda>b. bindE (Some (list_end l m)) (\<lambda>e.
     bindE (is_sorted b e lt m) (\<lambda>s. requireE s (okE m))))))"

partial_function (option) insert_ordered_loop ::
    "ptr \<Rightarrow> ptr \<Rightarrow> ptr \<Rightarrow> less_func \<Rightarrow> lmem \<Rightarrow> ptr exec" where
  "insert_ordered_loop l elem e lt m = bindE (Some (list_end l m)) (\<lambda>tl.
     if e = tl \<or> lt elem e then okE e
     else bindE (Some (list_next e m)) (\<lambda>e. insert_ordered_loop l elem e lt m))"

definition list_insert_ordered :: "ptr \<Rightarrow> ptr \<Rightarrow> less_func \<Rightarrow> lmem \<Rightarrow> lmem exec" where
  "list_insert_ordered l elem lt m =
     requireE (l \<noteq> NULL) (requireE (elem \<noteq> NULL)
     (bindE (Some (list_begin l m)) (\<lambda>e.
      bindE (insert_ordered_loop l elem e lt m) (\<lambda>e. Some (list_insert e elem m)))))"

partial_function (option) list_unique_loop ::
    "ptr \<Rightarrow> ptr \<Rightarrow> ptr \<Rightarrow> less_func \<Rightarrow> lmem \<Rightarrow> lmem exec" where
  "list_unique_loop l duplicates elem lt m = bindE (Some (list_next elem m)) (\<lambda>nxt.
     bindE (Some (list_end l m)) (\<lambda>tl.
     if nxt = tl then okE m
     else if \<not> lt elem nxt \<and> \<not> lt nxt elem
     then bindE (Some (list_remove nxt m)) (\<lambda>r.
          bindE (if duplicates \<noteq> NULL then Some (list_push_back duplicates nxt (snd r))
                 else okE (snd r)) (\<lambda>m.
            list_unique_loop l duplicates elem lt m))
     else list_unique_loop l duplicates nxt lt m))"

definition list_unique :: "ptr \<Rightarrow> ptr \<Rightarrow> less_func \<Rightarrow> lmem \<Rightarrow> lmem exec" where
  "list_unique l duplicates lt m = requireE (l \<noteq> NULL)
     (bindE (Some (list_empty l m)) (\<lambda>b.
      if b then okE m
      else bindE (Some (list_begin l m)) (\<lambda>elem. list_unique_loop l duplicates elem lt m)))"

partial_function (option) list_max_loop ::
    "ptr \<Rightarrow> ptr \<Rightarrow> ptr \<Rightarrow> less_func \<Rightarrow> lmem \<Rightarrow> ptr exec" where
  "list_max_loop l mx e lt m = bindE (Some (list_end l m)) (\<lambda>tl.
     if e = tl then okE mx
     else bindE (Some (list_next e m)) (\<lambda>e'.
       list_max_loop l (if lt mx e then e else mx) e' lt m))"

definition list_max :: "ptr \<Rightarrow> less_func \<Rightarrow> lmem \<Rightarrow> ptr exec" where
  "list_max l lt m = bindE (Some (list_begin l m)) (\<lambda>mx.
     bindE (Some (list_end l m)) (\<lambda>tl.
     if mx \<noteq> tl
     then bindE (Some (list_next mx m)) (\<lambda>e. list_max_loop l mx e lt m)
     else okE mx))"

partial_function (option) list_min_loop ::
    "ptr \<Rightarrow> ptr \<Rightarrow> ptr \<Rightarrow> less_func \<Rightarrow> lmem \<Rightarrow> ptr exec" where
  "list_min_loop l mn e lt m = bindE (Some (list_end l m)) (\<lambda>tl.
     if e = tl then okE mn
     else bindE (Some (list_next e m)) (\<lambda>e'.
       list_min_loop l (if lt e mn then e else mn) e' lt m))"

definition list_min :: "ptr \<Rightarrow> less_func \<Rightarrow> lmem \<Rightarrow> ptr exec" where
  "list_min l lt m = bindE (Some (list_begin l m)) (\<lambda>mn.
     bindE (Some (list_end l m)) (\<lambda>tl.
     if mn \<noteq> tl
     then bindE (Some (list_next mn m)) (\<lambda>e. list_min_loop l mn e lt m)
     else okE mn))"


section \<open>Representation\<close>

fun linked :: "lmem \<Rightarrow> ptr list \<Rightarrow> bool" where
  "linked m (x # y # zs) \<longleftrightarrow> l_next (m x) = y \<and> l_prev (m y) = x \<and> linked m (y # zs)"
| "linked m _ \<longleftrightarrow> True"

definition wf_nodes :: "lmem \<Rightarrow> ptr list \<Rightarrow> bool" where
  "wf_nodes m ns \<longleftrightarrow> 2 \<le> length ns \<and> distinct ns \<and> NULL \<notin> set ns \<and> linked m ns \<and>
     l_prev (m (hd ns)) = NULL \<and> l_next (m (last ns)) = NULL"

definition list_rep :: "lmem \<Rightarrow> ptr \<Rightarrow> ptr list \<Rightarrow> bool" where
  "list_rep m l xs \<longleftrightarrow> wf_nodes m (head_of l # xs @ [tail_of l])"

definition same_outside :: "ptr set \<Rightarrow> lmem \<Rightarrow> lmem \<Rightarrow> bool" where
  "same_outside A m m' \<longleftrightarrow> (\<forall>a. a \<notin> A \<longrightarrow> m' a = m a)"

abbreviation nodes_of :: "ptr \<Rightarrow> ptr list \<Rightarrow> ptr list" where
  "nodes_of l xs \<equiv> head_of l # xs @ [tail_of l]"

named_theorems list_ops \<open>what the link operations do on a represented list\<close>

lemma linked_append: "linked m (xs @ y # ys) \<longleftrightarrow> linked m (xs @ [y]) \<and> linked m (y # ys)"
  by (induction m xs rule: linked.induct) auto

lemma linked_mid:
  "linked m (us @ p # b # vs) \<longleftrightarrow>
     linked m (us @ [p]) \<and> l_next (m p) = b \<and> l_prev (m b) = p \<and> linked m (b # vs)"
  by (simp add: linked_append [of m us p "b # vs"])

lemma linked_cong:
  assumes "\<And>x. x \<in> set (butlast ns) \<Longrightarrow> l_next (m' x) = l_next (m x)"
    and "\<And>x. x \<in> set (tl ns) \<Longrightarrow> l_prev (m' x) = l_prev (m x)"
  shows "linked m' ns = linked m ns"
  using assms by (induction m ns rule: linked.induct) auto

lemma wf_nodes_cong:
  assumes "\<And>x. x \<in> set ns \<Longrightarrow> m' x = m x"
  shows "wf_nodes m' ns = wf_nodes m ns"
proof (cases "ns = []")
  case True
  then show ?thesis by (simp add: wf_nodes_def)
next
  case False
  have "linked m' ns = linked m ns"
  proof (rule linked_cong)
    show "l_next (m' x) = l_next (m x)" if "x \<in> set (butlast ns)" for x
      using assms [OF in_set_butlastD [OF that]] by simp
    show "l_prev (m' x) = l_prev (m x)" if "x \<in> set (tl ns)" for x
      using assms [OF list.set_sel(2) [OF False that]] by simp
  qed
  moreover have "m' (hd ns) = m (hd ns)" "m' (last ns) = m (last ns)"
    using False by (simp_all add: assms)
  ultimately show ?thesis by (simp add: wf_nodes_def)
qed

lemma list_rep_frame:
  assumes "list_rep m l xs" and "same_outside A m m'" and "A \<inter> set (nodes_of l xs) = {}"
  shows "list_rep m' l xs"
proof -
  have "m' x = m x" if "x \<in> set (nodes_of l xs)" for x
    using assms(2,3) that unfolding same_outside_def by blast
  then show ?thesis using assms(1) wf_nodes_cong [of "nodes_of l xs" m' m]
    unfolding list_rep_def by simp
qed

lemma same_outside_refl [simp]: "same_outside A m m"
  by (simp add: same_outside_def)

lemma same_outside_trans:
  "same_outside A m m' \<Longrightarrow> same_outside A m' m'' \<Longrightarrow> same_outside A m m''"
  by (simp add: same_outside_def)

lemma same_outside_mono: "same_outside A m m' \<Longrightarrow> A \<subseteq> B \<Longrightarrow> same_outside B m m'"
  by (auto simp: same_outside_def)

subsection \<open>Reading links\<close>

lemma wf_nodes_mid:
  assumes "wf_nodes m (us @ p # b # vs)"
  shows "l_next (m p) = b" "l_prev (m b) = p" "p \<noteq> NULL" "b \<noteq> NULL" "p \<noteq> b"
  using assms by (auto simp: wf_nodes_def linked_mid)

lemma wf_nodes_first:
  "wf_nodes m (h # ns) \<Longrightarrow> l_prev (m h) = NULL"
  by (simp add: wf_nodes_def)

lemma wf_nodes_prev_nonnull:
  assumes "wf_nodes m (us @ x # vs)" and "us \<noteq> []"
  shows "l_prev (m x) \<noteq> NULL"
proof -
  from assms(2) obtain us' p where "us = us' @ [p]" by (cases us rule: rev_cases) auto
  with assms(1) have "wf_nodes m (us' @ p # x # vs)" by simp
  from wf_nodes_mid [OF this] show ?thesis by simp
qed

lemma wf_nodes_next_nonnull:
  assumes "wf_nodes m (us @ x # vs)" and "vs \<noteq> []"
  shows "l_next (m x) \<noteq> NULL"
proof -
  from assms(2) obtain b vs' where "vs = b # vs'" by (cases vs) auto
  with assms(1) have "wf_nodes m (us @ x # b # vs')" by simp
  from wf_nodes_mid [OF this] show ?thesis by simp
qed

lemma list_next_nodes [list_ops]:
  assumes "wf_nodes m (us @ p # b # vs)"
  shows "list_next p m = Inr b"
proof (cases "us = []")
  case True
  with assms have "is_head p m"
    using wf_nodes_mid [OF assms] wf_nodes_first [of m p "b # vs"] by (simp add: is_head_def)
  then show ?thesis using wf_nodes_mid [OF assms] by (simp add: list_next_def)
next
  case False
  then have "is_interior p m"
    using wf_nodes_mid [OF assms] wf_nodes_prev_nonnull [OF assms] by (simp add: is_interior_def)
  then show ?thesis using wf_nodes_mid [OF assms] by (simp add: list_next_def)
qed

lemma not_first_nodes:
  assumes "wf_nodes m (us @ p # b # vs)"
  shows "is_interior b m \<or> is_tail b m"
  using wf_nodes_mid [OF assms] by (auto simp: is_interior_def is_tail_def)

lemma list_prev_nodes [list_ops]:
  assumes "wf_nodes m (us @ p # b # vs)"
  shows "list_prev b m = Inr p"
  using wf_nodes_mid [OF assms] not_first_nodes [OF assms] by (simp add: list_prev_def)

lemma interior_nodes:
  assumes "wf_nodes m (us @ p # e # b # vs)"
  shows "is_interior e m"
  using wf_nodes_mid [OF assms] wf_nodes_next_nonnull [of m "us @ [p]" e "b # vs"] assms
  by (simp add: is_interior_def)

end
