(* ===== verification/Klist_Links.thy ===== *)
theory Klist_Links
  imports Klist
begin

text \<open>
  What the link-changing operations of \<^verbatim>\<open>lib/kernel/list.c\<close> do to a chain of nodes:
  insertion, removal, and the two uses of \<^verbatim>\<open>list_splice\<close> (a block moved between two lists,
  and a block moved to the left inside one list). Each lemma gives the resulting chain, and
  the set of elements outside of which no link has changed.
\<close>

subsection \<open>Changing links\<close>

lemma l_next_wr [simp]:
  "l_next (wr (NEXT p) v m z) = (if z = p then v else l_next (m z))"
  "l_next (wr (PREV p) v m z) = l_next (m z)"
  by simp_all

lemma l_prev_wr [simp]:
  "l_prev (wr (PREV p) v m z) = (if z = p then v else l_prev (m z))"
  "l_prev (wr (NEXT p) v m z) = l_prev (m z)"
  by simp_all

lemma wr_outside: "same_outside A m m' \<Longrightarrow> p \<in> A \<Longrightarrow> same_outside A m (wr (NEXT p) v m')"
  "same_outside A m m' \<Longrightarrow> p \<in> A \<Longrightarrow> same_outside A m (wr (PREV p) v m')"
  by (auto simp: same_outside_def)

declare wr.simps [simp del]

lemma linked_wr_NEXT: "x \<notin> set (butlast ns) \<Longrightarrow> linked (wr (NEXT x) v m) ns = linked m ns"
  by (rule linked_cong) auto

lemma linked_wr_PREV: "x \<notin> set (tl ns) \<Longrightarrow> linked (wr (PREV x) v m) ns = linked m ns"
  by (rule linked_cong) auto

lemma linked_wr_snoc:
  "x \<notin> set us \<Longrightarrow> linked (wr (NEXT x) v m) (us @ [p]) = linked m (us @ [p])"
  "x \<notin> set us \<Longrightarrow> x \<noteq> p \<Longrightarrow> linked (wr (PREV x) v m) (us @ [p]) = linked m (us @ [p])"
  by (rule linked_wr_NEXT, simp) (rule linked_wr_PREV, cases us, auto)

lemma linked_wr_cons:
  "x \<noteq> q \<Longrightarrow> x \<notin> set ws \<Longrightarrow> linked (wr (NEXT x) v m) (q # ws) = linked m (q # ws)"
  "x \<notin> set ws \<Longrightarrow> linked (wr (PREV x) v m) (q # ws) = linked m (q # ws)"
proof -
  show "linked (wr (NEXT x) v m) (q # ws) = linked m (q # ws)" if "x \<noteq> q" "x \<notin> set ws"
    using that in_set_butlastD [of x "q # ws"] by (intro linked_wr_NEXT) auto
  show "linked (wr (PREV x) v m) (q # ws) = linked m (q # ws)" if "x \<notin> set ws"
    using that by (intro linked_wr_PREV) simp
qed

lemma linked_wr_block:
  "x \<notin> set ys \<Longrightarrow> linked (wr (NEXT x) v m) ys = linked m ys"
  "x \<notin> set ys \<Longrightarrow> linked (wr (PREV x) v m) ys = linked m ys"
  by (cases ys; simp add: linked_wr_cons)+

lemma linked_wr_ends:
  assumes "distinct ys" "ys \<noteq> []"
  shows "linked (wr (NEXT (last ys)) v m) ys = linked m ys"
    and "linked (wr (PREV (hd ys)) v m) ys = linked m ys"
proof -
  show "linked (wr (PREV (hd ys)) v m) ys = linked m ys"
    using assms by (cases ys) (simp_all add: linked_wr_cons)
  show "linked (wr (NEXT (last ys)) v m) ys = linked m ys"
    using assms by (cases ys rule: rev_cases) (simp_all add: linked_wr_snoc)
qed

lemmas linked_wr = linked_wr_snoc linked_wr_cons linked_wr_block linked_wr_ends

text \<open>Replacing the middle part of a chain of nodes keeps the chain well formed, as long as
  the outer links of the two ends are left alone.\<close>

lemma wf_nodes_middle:
  assumes wf: "wf_nodes m (us @ p # zs @ b # vs)"
    and lk: "linked m' (us @ p # zs' @ b # vs)"
    and zs': "distinct zs'" "set zs' \<inter> set (us @ p # b # vs) = {}" "NULL \<notin> set zs'"
    and pv: "\<And>x. x \<in> set (us @ [p]) \<Longrightarrow> l_prev (m' x) = l_prev (m x)"
    and nx: "\<And>x. x \<in> set (b # vs) \<Longrightarrow> l_next (m' x) = l_next (m x)"
  shows "wf_nodes m' (us @ p # zs' @ b # vs)"
proof -
  let ?h = "hd (us @ [p])" and ?t = "last (b # vs)"
  have ht: "hd (us @ p # as @ b # vs) = ?h" "last (us @ p # as @ b # vs) = ?t" for as
    by (cases us; simp) simp
  have "?h \<in> set (us @ [p])" "?t \<in> set (b # vs)" by (rule hd_in_set, simp) (rule last_in_set, simp)
  then have "l_prev (m' ?h) = l_prev (m ?h)" "l_next (m' ?t) = l_next (m ?t)"
    by (simp_all only: pv nx)
  then have "l_prev (m' ?h) = NULL" "l_next (m' ?t) = NULL"
    using wf by (simp_all only: wf_nodes_def ht)
  moreover have "distinct (us @ p # zs' @ b # vs)" "NULL \<notin> set (us @ p # zs' @ b # vs)"
    using wf zs' by (auto simp: wf_nodes_def)
  ultimately show ?thesis using lk by (simp add: wf_nodes_def ht)
qed

lemma list_insert_links:
  assumes wf: "wf_nodes m (us @ p # b # vs)" and e: "e \<notin> set (us @ p # b # vs)" "e \<noteq> NULL"
  shows "list_insert b e m = Inr (wr (PREV b) e (wr (NEXT p) e (wr (NEXT e) b (wr (PREV e) p m))))"
  using wf_nodes_mid [OF wf] e not_first_nodes [OF wf] by (auto simp: list_insert_def Let_def)

lemma list_remove_links:
  assumes wf: "wf_nodes m (us @ p # e # b # vs)"
  shows "list_remove e m = Inr (b, wr (PREV b) p (wr (NEXT p) b m))"
proof -
  have wf2: "wf_nodes m ((us @ [p]) @ e # b # vs)" using wf by simp
  show ?thesis using wf_nodes_mid [OF wf] wf_nodes_mid [OF wf2] wf interior_nodes [OF wf]
    by (auto simp: list_remove_def Let_def wf_nodes_def)
qed

lemma list_insert_nodes:
  assumes wf: "wf_nodes m (us @ p # b # vs)"
    and e: "e \<notin> set (us @ p # b # vs)" "e \<noteq> NULL"
  shows "\<exists>m'. list_insert b e m = Inr m' \<and> wf_nodes m' (us @ p # e # b # vs) \<and>
    same_outside {e, p, b} m m'"
proof -
  let ?m' = "wr (PREV b) e (wr (NEXT p) e (wr (NEXT e) b (wr (PREV e) p m)))"
  note mid = wf_nodes_mid [OF wf]
  have d: "distinct (us @ p # b # vs)" and lk: "linked m (us @ p # b # vs)"
    using wf by (auto simp: wf_nodes_def)
  have eq: "list_insert b e m = Inr ?m'"
    by (rule list_insert_links [OF wf e])
  have ne: "b \<noteq> p" "b \<notin> set us" "e \<noteq> p" "e \<notin> set us" "p \<notin> set us" "p \<noteq> b" "p \<notin> set vs"
    "e \<noteq> b" "e \<notin> set vs" "b \<notin> set vs" using d e by auto
  have "linked ?m' (us @ [p])" "linked ?m' (b # vs)"
    using lk by (simp_all add: linked_mid linked_wr ne)
  then have "linked ?m' (us @ p # e # b # vs)"
    using d e by (simp add: linked_append [of ?m' us p "e # b # vs"])
  then have "wf_nodes ?m' (us @ p # e # b # vs)"
    using wf e(2) ne by (intro wf_nodes_middle [of m us p "[]" b vs ?m' "[e]", simplified]) auto
  then show ?thesis using eq by (auto intro!: wr_outside)
qed

lemma list_remove_nodes:
  assumes wf: "wf_nodes m (us @ p # e # b # vs)"
  shows "\<exists>m'. list_remove e m = Inr (b, m') \<and> wf_nodes m' (us @ p # b # vs) \<and>
    same_outside {p, b} m m'"
proof -
  let ?m' = "wr (PREV b) p (wr (NEXT p) b m)"
  have wf2: "wf_nodes m ((us @ [p]) @ e # b # vs)" using wf by simp
  note mid = wf_nodes_mid [OF wf] wf_nodes_mid [OF wf2]
  have d: "distinct (us @ p # e # b # vs)" and lk: "linked m (us @ p # e # b # vs)"
    using wf by (auto simp: wf_nodes_def)
  have eq: "list_remove e m = Inr (b, ?m')"
    by (rule list_remove_links [OF wf])
  have ne: "b \<noteq> p" "b \<notin> set us" "p \<notin> set us" "p \<noteq> b" "p \<notin> set vs" "b \<notin> set vs"
    using d by auto
  have "linked ?m' (us @ [p])" "linked ?m' (b # vs)"
    using lk by (simp_all add: linked_mid linked_wr ne)
  then have "linked ?m' (us @ p # b # vs)" by (simp add: linked_mid ne)
  then have "wf_nodes ?m' (us @ p # b # vs)"
    using wf ne by (intro wf_nodes_middle [of m us p "[e]" b vs ?m' "[]", simplified]) auto
  then show ?thesis using eq by (auto intro!: wr_outside)
qed

lemma list_insert_remove_nodes:
  assumes wf: "wf_nodes m (us @ p # b # vs)" and e: "e \<notin> set (us @ p # b # vs)" "e \<noteq> NULL"
  shows "\<exists>m' m''. list_insert b e m = Inr m' \<and> wf_nodes m' (us @ p # e # b # vs) \<and>
    list_remove e m' = Inr (b, m'') \<and> wf_nodes m'' (us @ p # b # vs) \<and> same_outside {e} m m''"
proof -
  let ?m' = "wr (PREV b) e (wr (NEXT p) e (wr (NEXT e) b (wr (PREV e) p m)))"
  let ?m'' = "wr (PREV b) p (wr (NEXT p) b ?m')"
  have wf': "wf_nodes ?m' (us @ p # e # b # vs)"
    using list_insert_nodes [OF wf e] list_insert_links [OF wf e] by auto
  note rm = list_remove_links [OF wf']
  have wf'': "wf_nodes ?m'' (us @ p # b # vs)" using list_remove_nodes [OF wf'] rm by auto
  have "?m'' z = m z" if "z \<noteq> e" for z
    using wf_nodes_mid [OF wf] that by (intro list_elem.equality) simp_all
  then have "same_outside {e} m ?m''" by (simp add: same_outside_def)
  then show ?thesis using list_insert_links [OF wf e] wf' rm wf'' by blast
qed

lemma linked_join:
  assumes "xs \<noteq> []" "ys \<noteq> []"
  shows "linked m (xs @ ys) \<longleftrightarrow>
    linked m xs \<and> l_next (m (last xs)) = hd ys \<and> l_prev (m (hd ys)) = last xs \<and> linked m ys"
proof -
  obtain us p where "xs = us @ [p]" using assms(1) by (cases xs rule: rev_cases) auto
  moreover obtain b vs where "ys = b # vs" using assms(2) by (cases ys) auto
  ultimately show ?thesis by (simp add: linked_mid)
qed

lemma linked_block:
  assumes "ys \<noteq> []"
  shows "linked m (us @ p # ys @ q # ws) \<longleftrightarrow>
    linked m (us @ [p]) \<and> l_next (m p) = hd ys \<and> l_prev (m (hd ys)) = p \<and> linked m ys \<and>
    l_next (m (last ys)) = q \<and> l_prev (m q) = last ys \<and> linked m (q # ws)"
  using assms linked_join [of "us @ [p]" "ys @ q # ws" m] linked_join [of ys "q # ws" m] by auto

lemma interior_block:
  assumes "wf_nodes m (us @ p # ys @ q # ws)" and "y \<in> set ys"
  shows "is_interior y m"
proof -
  obtain as bs where ys: "ys = as @ y # bs" using assms(2) by (auto simp: in_set_conv_decomp)
  then have wf: "wf_nodes m ((us @ p # as) @ y # bs @ q # ws)" using assms(1) by simp
  moreover have "y \<noteq> NULL" using wf by (auto simp: wf_nodes_def)
  ultimately show ?thesis
    using wf_nodes_prev_nonnull [OF wf] wf_nodes_next_nonnull [OF wf] by (simp add: is_interior_def)
qed

text \<open>Moving a block \<open>ys\<close> from one list in front of an element \<open>b\<close> of another.\<close>

lemma list_splice_nodes:
  assumes wf1: "wf_nodes m (us @ p # b # vs)"
    and wf2: "wf_nodes m (us' @ p' # ys @ q # ws)"
    and ys: "ys \<noteq> []"
    and disj: "set (us @ p # b # vs) \<inter> set (us' @ p' # ys @ q # ws) = {}"
  shows "\<exists>m'. list_splice b (hd ys) q m = Inr m' \<and>
    wf_nodes m' (us @ p # ys @ b # vs) \<and> wf_nodes m' (us' @ p' # q # ws) \<and>
    same_outside {p, b, p', q, hd ys, last ys} m m'"
proof -
  define f where "f = hd ys"
  define l where "l = last ys"
  let ?m' = "wr (PREV b) l (wr (NEXT p) f (wr (NEXT l) b (wr (PREV f) p
    (wr (PREV q) p' (wr (NEXT p') q m)))))"
  have inl: "f \<in> set ys" "l \<in> set ys" using ys by (simp_all add: f_def l_def)
  have d1: "distinct (us @ p # b # vs)" and lk1: "linked m (us @ p # b # vs)"
    and d2: "distinct (us' @ p' # ys @ q # ws)" and lk2: "linked m (us' @ p' # ys @ q # ws)"
    using wf1 wf2 by (auto simp: wf_nodes_def)
  note mid1 = wf_nodes_mid [OF wf1]
  note blk = lk2 [unfolded linked_block [OF ys], folded f_def l_def]
  have ne: "f \<noteq> q" "l \<noteq> q" "p' \<noteq> f" "p' \<noteq> l" "p' \<noteq> q"
    "p \<noteq> p'" "p \<noteq> q" "p \<noteq> f" "p \<noteq> l" "b \<noteq> p'" "b \<noteq> q" "b \<noteq> f" "b \<noteq> l"
    "p \<noteq> b" using d1 d2 inl disj by auto
  have il: "is_interior l m" "is_interior f m"
    using interior_block [OF wf2] inl by auto
  have pl: "list_prev q m = Inr l"
    using blk il by (auto simp: list_prev_def is_interior_def is_tail_def wf2 
        dest: wf_nodes_mid)
  have eq: "list_splice b f q m = Inr ?m'"
    using not_first_nodes [OF wf1] ne pl il blk mid1 by (simp add: list_splice_def Let_def)
  have out: "p \<notin> set ys" "b \<notin> set ys" "q \<notin> set ys" "p' \<notin> set ys" "distinct ys"
    "p \<notin> set us" "b \<notin> set us" "p' \<notin> set us" "q \<notin> set us" "f \<notin> set us" "l \<notin> set us"
    "p \<notin> set vs" "b \<notin> set vs" "p' \<notin> set vs" "q \<notin> set vs" "f \<notin> set vs" "l \<notin> set vs"
    "p \<notin> set us'" "b \<notin> set us'" "p' \<notin> set us'" "q \<notin> set us'" "f \<notin> set us'" "l \<notin> set us'"
    "p \<notin> set ws" "b \<notin> set ws" "p' \<notin> set ws" "q \<notin> set ws" "f \<notin> set ws" "l \<notin> set ws"
    using d1 d2 disj inl by auto
  have dl: "linked ?m' ys"
    using blk out ne by (simp add: linked_wr l_def [symmetric] f_def [symmetric]
      linked_wr_ends [OF out(5) ys, folded l_def f_def])
  have "linked ?m' (us @ [p])" "linked ?m' (b # vs)"
    using lk1 by (simp_all add: linked_mid linked_wr ne ne [symmetric] out)
  then have "linked ?m' (us @ p # ys @ b # vs)"
    using dl ne out inl by (simp add: linked_block [OF ys] f_def [symmetric] l_def [symmetric])
  then have 1: "wf_nodes ?m' (us @ p # ys @ b # vs)"
  proof (rule wf_nodes_middle [of m us p "[]" b vs, rotated])
    show "distinct ys" "NULL \<notin> set ys" using wf2 by (auto simp: wf_nodes_def)
    show "set ys \<inter> set (us @ p # b # vs) = {}" using disj by auto
  qed (use wf1 ne out in auto)
  have "linked ?m' (us' @ [p'])" "linked ?m' (q # ws)"
    using blk by (simp_all add: linked_mid linked_wr ne ne [symmetric] out)
  then have "linked ?m' (us' @ p' # q # ws)"
    using ne by (simp add: linked_mid)
  then have 2: "wf_nodes ?m' (us' @ p' # q # ws)"
    using wf2 ne out
    by (intro wf_nodes_middle [of m us' p' ys q ws ?m' "[]", simplified]) auto
  show ?thesis using eq 1 2 unfolding f_def l_def
    by (intro exI conjI) (auto intro!: wr_outside simp: f_def l_def)
qed

text \<open>Moving a block \<open>ys\<close> to the left within its own list.\<close>

lemma list_splice_left_nodes:
  assumes wf: "wf_nodes m (us @ p # vs @ ys @ q # ws)"
    and ne: "vs \<noteq> []" "ys \<noteq> []"
  shows "\<exists>m'. list_splice (hd vs) (hd ys) q m = Inr m' \<and>
    wf_nodes m' (us @ p # ys @ vs @ q # ws) \<and>
    same_outside {p, hd vs, last vs, q, hd ys, last ys} m m'"
proof -
  define b where "b = hd vs"
  define p' where "p' = last vs"
  define f where "f = hd ys"
  define l where "l = last ys"
  let ?m' = "wr (PREV b) l (wr (NEXT p) f (wr (NEXT l) b (wr (PREV f) p
    (wr (PREV q) p' (wr (NEXT p') q m)))))"
  have inl: "f \<in> set ys" "l \<in> set ys" "b \<in> set vs" "p' \<in> set vs"
    using ne by (simp_all add: f_def l_def b_def p'_def)
  have d: "distinct (us @ p # vs @ ys @ q # ws)" and lk: "linked m (us @ p # vs @ ys @ q # ws)"
    using wf by (auto simp: wf_nodes_def)
  have blk1: "linked m (us @ [p])" "l_next (m p) = b" "l_prev (m b) = p" "linked m vs"
      "l_next (m p') = f" "l_prev (m f) = p'"
      "linked m ys" "l_next (m l) = q" "l_prev (m q) = l" "linked m (q # ws)"
    using lk linked_block [of "vs @ ys" m us p q ws] linked_join [of vs ys m] ne
    by (simp_all add: f_def l_def b_def p'_def)
  have ne': "f \<noteq> q" "l \<noteq> q" "p' \<noteq> f" "p' \<noteq> l" "p' \<noteq> q" "b \<noteq> f" "b \<noteq> l" "b \<noteq> q"
    "p \<noteq> p'" "p \<noteq> q" "p \<noteq> f" "p \<noteq> l" "p \<noteq> b"
    using d inl by auto
  have il: "is_interior l m" "is_interior f m" "is_interior b m"
    using interior_block [of m us p "vs @ ys" q ws] wf inl by auto
  have pl: "list_prev q m = Inr l"
    using list_prev_nodes [of m "us @ p # vs @ butlast ys" l q ws] wf ne
    by (cases ys rule: rev_cases) (simp_all add: l_def)
  have eq: "list_splice b f q m = Inr ?m'"
    using ne' pl il blk1 by (simp add: list_splice_def Let_def)
  have out: "p \<notin> set ys" "b \<notin> set ys" "q \<notin> set ys" "p' \<notin> set ys" "distinct ys"
    "p \<notin> set vs" "f \<notin> set vs" "q \<notin> set vs" "l \<notin> set vs" "distinct vs"
    "p \<notin> set us" "b \<notin> set us" "p' \<notin> set us" "q \<notin> set us" "f \<notin> set us" "l \<notin> set us"
    "p \<notin> set ws" "b \<notin> set ws" "p' \<notin> set ws" "q \<notin> set ws" "f \<notin> set ws" "l \<notin> set ws"
    using d inl by auto
  note ends = linked_wr_ends [OF out(5) ne(2), folded l_def f_def]
    linked_wr_ends [OF out(10) ne(1), folded b_def p'_def]
  have "linked ?m' ys" "linked ?m' vs" "linked ?m' (us @ [p])" "linked ?m' (q # ws)"
    using blk1 by (simp_all add: linked_wr ends ne' ne' [symmetric] out)
  then have "linked ?m' (us @ p # (ys @ vs) @ q # ws)"
    using ne linked_block [of "ys @ vs" ?m' us p q ws] linked_join [of ys vs ?m']
    by (simp add: f_def [symmetric] l_def [symmetric] b_def [symmetric] p'_def [symmetric]
      ne' ne' [symmetric])
  then have "wf_nodes ?m' (us @ p # (ys @ vs) @ q # ws)"
  proof (rule wf_nodes_middle [of m us p "vs @ ys" q ws, rotated])
    show "distinct (ys @ vs)" "NULL \<notin> set (ys @ vs)" "set (ys @ vs) \<inter> set (us @ p # q # ws) = {}"
      using wf by (auto simp: wf_nodes_def)
  qed (use wf ne' out in auto)
  then show ?thesis using eq unfolding f_def l_def b_def p'_def
    by (intro exI conjI) (auto intro!: wr_outside simp: f_def l_def b_def p'_def)
qed

end
