(* ===== verification/Weak_Order.thy ===== *)
theory Weak_Order
  imports Prelude
begin

text \<open>
  The contract of a comparison function. \<^verbatim>\<open>list_less_func\<close> and \<^verbatim>\<open>hash_less_func\<close> must be
  strict weak orders; the locale \<open>strict_weak_order\<close> states it, and holds what the sorting
  routine relies on: the reference merge, runs, and one pass of natural merge sort, with
  their sortedness, stability and progress.
\<close>

section \<open>Reference routines on sequences\<close>

fun merge_by :: "('a \<Rightarrow> 'a \<Rightarrow> bool) \<Rightarrow> 'a list \<Rightarrow> 'a list \<Rightarrow> 'a list" where
  "merge_by lt (a # as) (b # bs) =
     (if \<not> lt b a then a # merge_by lt as (b # bs) else b # merge_by lt (a # as) bs)"
| "merge_by lt [] bs = bs"
| "merge_by lt as [] = as"

fun chain_by :: "('a \<Rightarrow> 'a \<Rightarrow> bool) \<Rightarrow> 'a list \<Rightarrow> bool" where
  "chain_by lt (x # y # zs) \<longleftrightarrow> \<not> lt y x \<and> chain_by lt (y # zs)"
| "chain_by lt _ \<longleftrightarrow> True"

fun run_by :: "('a \<Rightarrow> 'a \<Rightarrow> bool) \<Rightarrow> 'a \<Rightarrow> 'a list \<Rightarrow> 'a list \<times> 'a list" where
  "run_by lt a [] = ([a], [])"
| "run_by lt a (b # bs) =
     (if lt b a then ([a], b # bs) else let (r, s) = run_by lt b bs in (a # r, s))"

fun descents :: "('a \<Rightarrow> 'a \<Rightarrow> bool) \<Rightarrow> 'a list \<Rightarrow> nat" where
  "descents lt (x # y # zs) = (if lt y x then 1 else 0) + descents lt (y # zs)"
| "descents lt _ = 0"

definition equiv_by :: "('a \<Rightarrow> 'a \<Rightarrow> bool) \<Rightarrow> 'a \<Rightarrow> 'a \<Rightarrow> bool" where
  "equiv_by lt x y \<longleftrightarrow> \<not> lt x y \<and> \<not> lt y x"

abbreviation sorted_by :: "('a \<Rightarrow> 'a \<Rightarrow> bool) \<Rightarrow> 'a list \<Rightarrow> bool" where
  "sorted_by lt \<equiv> sorted_wrt (\<lambda>x y. \<not> lt y x)"

lemma run_by_append: "run_by lt a xs = (r, s) \<Longrightarrow> a # xs = r @ s"
  by (induction lt a xs arbitrary: r s rule: run_by.induct) (auto split: if_splits prod.splits)

lemma run_by_length: "run_by lt a xs = (r, s) \<Longrightarrow> length s \<le> length xs"
  by (induction lt a xs arbitrary: r s rule: run_by.induct)
    (fastforce split: if_splits prod.splits)+

lemma run_by_hd: "run_by lt a xs = (r, s) \<Longrightarrow> \<exists>r'. r = a # r'"
  by (cases xs) (auto split: if_splits prod.splits)

lemma run_by_chain: "run_by lt a xs = (r, s) \<Longrightarrow> chain_by lt r"
proof (induction lt a xs arbitrary: r s rule: run_by.induct)
  case (2 lt a b bs)
  show ?case
  proof (cases "lt b a")
    case True
    then show ?thesis using 2(2) by auto
  next
    case False
    obtain r1 s1 where r1: "run_by lt b bs = (r1, s1)" by fastforce
    then obtain r2 where "r1 = b # r2" using run_by_hd [OF r1] by blast
    then show ?thesis using 2 False r1 by auto
  qed
qed simp

lemma run_by_stop: "run_by lt a xs = (r, y # s) \<Longrightarrow> lt y (last r)"
proof (induction lt a xs arbitrary: r rule: run_by.induct)
  case (2 lt a b bs)
  show ?case
  proof (cases "lt b a")
    case False
    obtain r1 s1 where r1: "run_by lt b bs = (r1, s1)" by fastforce
    then obtain r2 where "r1 = b # r2" using run_by_hd [OF r1] by blast
    then show ?thesis using 2 False r1 by auto
  qed (use 2 in auto)
qed simp

function sort_pass_by :: "('a \<Rightarrow> 'a \<Rightarrow> bool) \<Rightarrow> 'a list \<Rightarrow> nat \<times> 'a list" where
  "sort_pass_by lt [] = (0, [])"
| "sort_pass_by lt (a # as) =
     (case run_by lt a as of
        (r, []) \<Rightarrow> (1, r)
      | (r, b # bs) \<Rightarrow> (case run_by lt b bs of (s, rest) \<Rightarrow>
          (case sort_pass_by lt rest of (n, zs) \<Rightarrow> (n + 1, merge_by lt r s @ zs))))"
  by pat_completeness auto
termination
  by (relation "measure (length \<circ> snd)") (auto dest!: run_by_length [OF sym])

declare sort_pass_by.simps(2) [simp del]

lemma sort_pass_by_cases:
  assumes "sort_pass_by lt (a # as) = (n, ys)"
  obtains (last_run) "run_by lt a as = (a # as, [])" "n = 1" "ys = a # as"
  | (two_runs) r b bs s rest k zs where "run_by lt a as = (r, b # bs)" "run_by lt b bs = (s, rest)"
      "sort_pass_by lt rest = (k, zs)" "n = k + 1" "ys = merge_by lt r s @ zs"
      "a # as = r @ s @ rest"
proof -
  obtain r t where r: "run_by lt a as = (r, t)" by fastforce
  note ar = run_by_append [OF r]
  show thesis
  proof (cases t)
    case Nil
    moreover have "n = 1" "ys = r" using assms Nil r by (simp_all add: sort_pass_by.simps)
    ultimately show thesis using last_run r ar by simp
  next
    case (Cons b bs)
    obtain s rest where s: "run_by lt b bs = (s, rest)" by fastforce
    obtain k zs where k: "sort_pass_by lt rest = (k, zs)" by fastforce
    have "n = k + 1" "ys = merge_by lt r s @ zs"
      using assms Cons r s k by (simp_all add: sort_pass_by.simps)
    moreover have "a # as = r @ s @ rest" using ar Cons run_by_append [OF s] by simp
    ultimately show thesis using two_runs r s k Cons by blast
  qed
qed

lemma sort_pass_by_induct [case_names Nil last_run two_runs, consumes 1]:
  assumes "sort_pass_by lt xs = (n, ys)"
    and "P [] 0 []"
    and "\<And>a as. run_by lt a as = (a # as, []) \<Longrightarrow> P (a # as) 1 (a # as)"
    and "\<And>a as r b bs s rest k zs. run_by lt a as = (r, b # bs) \<Longrightarrow>
      run_by lt b bs = (s, rest) \<Longrightarrow> sort_pass_by lt rest = (k, zs) \<Longrightarrow> P rest k zs \<Longrightarrow>
      P (r @ s @ rest) (k + 1) (merge_by lt r s @ zs)"
  shows "P xs n ys"
  using assms(1)
proof (induction xs arbitrary: n ys rule: length_induct)
  case (1 xs)
  show ?case
  proof (cases xs)
    case Nil
    then show ?thesis using 1(2) assms(2) by simp
  next
    case (Cons a as)
    from 1(2) [unfolded Cons] show ?thesis
    proof (cases rule: sort_pass_by_cases)
      case last_run
      then show ?thesis using assms(3) Cons by simp
    next
      case (two_runs r b bs s rest k zs)
      have "length rest < length xs"
        using two_runs(6) Cons run_by_hd [OF two_runs(2)] by auto
      then have "P rest k zs" using 1(1) two_runs(3) by blast
      then show ?thesis using assms(4) [OF two_runs(1-3)] two_runs Cons by simp
    qed
  qed
qed

lemma set_merge_by [simp]: "set (merge_by lt xs ys) = set xs \<union> set ys"
  by (induction lt xs ys rule: merge_by.induct) auto

lemma mset_merge_by [simp]: "mset (merge_by lt xs ys) = mset xs + mset ys"
  by (induction lt xs ys rule: merge_by.induct) auto

lemma merge_by_Nil2 [simp]: "merge_by lt xs [] = xs"
  by (cases xs) simp_all

lemma mset_sort_pass_by: "sort_pass_by lt xs = (n, ys) \<Longrightarrow> mset ys = mset xs"
  by (induction rule: sort_pass_by_induct) simp_all

lemma length_sort_pass_by: "sort_pass_by lt xs = (n, ys) \<Longrightarrow> n \<le> length xs"
proof (induction rule: sort_pass_by_induct)
  case (two_runs a as r b bs s rest k zs)
  then show ?case using run_by_hd [of lt a as] by auto
qed simp_all

lemma sort_pass_by_0: "sort_pass_by lt xs = (n, ys) \<Longrightarrow> n = 0 \<longleftrightarrow> xs = []"
proof (induction rule: sort_pass_by_induct)
  case (two_runs a as r b bs s rest k zs)
  then show ?case using run_by_hd [of lt a as] by auto
qed simp_all

lemma descents_append:
  assumes "xs \<noteq> []" "ys \<noteq> []"
  shows "descents lt (xs @ ys) =
    descents lt xs + (if lt (hd ys) (last xs) then 1 else 0) + descents lt ys"
proof -
  obtain y ys' where "ys = y # ys'" using assms(2) by (cases ys) auto
  then show ?thesis using assms(1) by (induction lt xs rule: descents.induct) auto
qed

lemma descents_chain: "chain_by lt xs \<longleftrightarrow> descents lt xs = 0"
  by (induction lt xs rule: chain_by.induct) auto

section \<open>The contract\<close>

locale strict_weak_order =
  fixes lt :: "'a \<Rightarrow> 'a \<Rightarrow> bool"
  assumes asym: "lt x y \<Longrightarrow> \<not> lt y x"
    and split: "lt x z \<Longrightarrow> lt x y \<or> lt y z"
begin

lemma irrefl: "\<not> lt x x"
  using asym by blast

lemma trans: "lt x y \<Longrightarrow> lt y z \<Longrightarrow> lt x z"
  using asym split by blast

lemma le_trans: "\<not> lt y x \<Longrightarrow> \<not> lt z y \<Longrightarrow> \<not> lt z x"
  using split by blast

lemma equiv_refl: "equiv_by lt x x"
  by (simp add: equiv_by_def irrefl)

lemma equiv_sym: "equiv_by lt x y \<Longrightarrow> equiv_by lt y x"
  by (simp add: equiv_by_def)

lemma equiv_trans: "equiv_by lt x y \<Longrightarrow> equiv_by lt y z \<Longrightarrow> equiv_by lt x z"
  unfolding equiv_by_def using le_trans by blast

lemma sorted_by_chain: "sorted_by lt xs \<longleftrightarrow> chain_by lt xs"
proof (induction xs)
  case (Cons x xs)
  show ?case
  proof (cases xs)
    case Nil
    then show ?thesis by simp
  next
    case (Cons y ys)
    moreover have "\<forall>z\<in>set ys. \<not> lt z x" if "\<forall>z\<in>set ys. \<not> lt z y" "\<not> lt y x"
      using that le_trans by blast
    ultimately show ?thesis using Cons.IH by auto
  qed
qed simp

lemma sorted_merge: "sorted_by lt xs \<Longrightarrow> sorted_by lt ys \<Longrightarrow> sorted_by lt (merge_by lt xs ys)"
proof (induction "length xs + length ys" arbitrary: xs ys)
  case (Suc k)
  show ?case
  proof (cases xs; cases ys)
    fix a as b bs
    assume xs: "xs = a # as" and ys: "ys = b # bs"
    have A: "\<forall>x\<in>set as. \<not> lt x a" and B: "\<forall>x\<in>set bs. \<not> lt x b"
      using Suc(3,4) xs ys by simp_all
    show ?thesis
    proof (cases "lt b a")
      case True
      then have "sorted_by lt (merge_by lt xs bs)" using Suc xs ys by simp
      moreover have "\<not> lt x b" if "x \<in> set xs \<union> set bs" for x
        using that A B asym [OF True] le_trans [OF asym [OF True], of x] unfolding xs by auto
      ultimately show ?thesis using True xs ys by auto
    next
      case False
      then have "sorted_by lt (merge_by lt as ys)" using Suc xs ys by simp
      moreover have "\<not> lt x a" if "x \<in> set as \<union> set ys" for x
        using that False A B le_trans [OF False, of x] unfolding ys by auto
      ultimately show ?thesis using False xs ys by auto
    qed
  qed (use Suc in simp_all)
qed simp

lemma filter_merge:
  "sorted_by lt xs \<Longrightarrow>
    filter (equiv_by lt z) (merge_by lt xs ys) = filter (equiv_by lt z) xs @ filter (equiv_by lt z) ys"
proof (induction "length xs + length ys" arbitrary: xs ys)
  case (Suc k)
  show ?case
  proof (cases xs; cases ys)
    fix a as b bs
    assume xs: "xs = a # as" and ys: "ys = b # bs"
    show ?thesis
    proof (cases "lt b a")
      case True
      have "filter (equiv_by lt z) (merge_by lt xs bs) =
          filter (equiv_by lt z) xs @ filter (equiv_by lt z) bs"
        using Suc xs ys by simp
      moreover have "filter (equiv_by lt z) xs = []" if "equiv_by lt z b"
      proof -
        have "\<forall>x\<in>set as. \<not> lt x a" using Suc(3) xs by simp
        then have "lt b x" if "x \<in> set xs" for x
          using that True split [OF True, of x] unfolding xs by auto
        then have "\<not> equiv_by lt z x" if "x \<in> set xs" for x
          using split [of b x z] that \<open>equiv_by lt z b\<close> unfolding equiv_by_def by auto
        then show ?thesis by (simp add: filter_empty_conv)
      qed
      ultimately show ?thesis using True xs ys by auto
    next
      case False
      then have "filter (equiv_by lt z) (merge_by lt as ys) =
          filter (equiv_by lt z) as @ filter (equiv_by lt z) ys"
        using Suc xs ys by simp
      then show ?thesis using False xs ys by auto
    qed
  qed simp_all
qed simp

lemma pass_progress:
  assumes "sort_pass_by lt xs = (n, ys)"
  shows "2 * (n - 1) \<le> descents lt xs"
  using assms
proof (induction rule: sort_pass_by_induct)
  case (two_runs a as r b bs s rest k zs)
  obtain r' s' where ne: "r = a # r'" "s = b # s'"
    using run_by_hd [OF two_runs(1)] run_by_hd [OF two_runs(2)] by blast
  show ?case
  proof (cases rest)
    case Nil
    then show ?thesis using two_runs(3) by simp
  next
    case (Cons c cs)
    then have "lt c (last s)" "lt b (last r)"
      using run_by_stop [of lt b bs s c cs] run_by_stop [of lt a as r b bs] two_runs(1,2)
      by simp_all
    then have "descents lt (r @ s @ rest) \<ge> 2 + descents lt rest"
      using ne Cons descents_append [of r "s @ rest" lt] descents_append [of s rest lt] by simp
    then show ?thesis using two_runs(4) by simp
  qed
qed simp_all

lemma pass_descents:
  assumes "sort_pass_by lt xs = (n, ys)"
  shows "descents lt ys \<le> n - 1"
  using assms
proof (induction rule: sort_pass_by_induct)
  case (last_run a as)
  then show ?case using run_by_chain [of lt a as] by (simp add: descents_chain)
next
  case (two_runs a as r b bs s rest k zs)
  have "sorted_by lt (merge_by lt r s)"
    using run_by_chain [OF two_runs(1)] run_by_chain [OF two_runs(2)]
    by (intro sorted_merge) (simp_all only: sorted_by_chain)
  then have *: "descents lt (merge_by lt r s) = 0" by (simp add: sorted_by_chain descents_chain)
  have ne: "merge_by lt r s \<noteq> []" using run_by_hd [OF two_runs(1)]
    by (metis Un_empty_left Un_iff list.set_intros(1) empty_iff set_empty set_merge_by)
  show ?case
  proof (cases "zs = []")
    case True
    then show ?thesis using * by simp
  next
    case False
    then have "k \<noteq> 0"
      using sort_pass_by_0 [OF two_runs(3)] mset_sort_pass_by [OF two_runs(3)] by auto
    then show ?thesis using two_runs(4) * descents_append [OF ne False, of lt] by auto
  qed
qed simp

lemma pass_sorted: "sort_pass_by lt xs = (n, ys) \<Longrightarrow> n \<le> 1 \<Longrightarrow> sorted_by lt ys"
  using pass_descents [of xs n ys] by (simp add: sorted_by_chain descents_chain)

lemma pass_stable:
  "sort_pass_by lt xs = (n, ys) \<Longrightarrow> filter (equiv_by lt z) ys = filter (equiv_by lt z) xs"
proof (induction rule: sort_pass_by_induct)
  case (two_runs a as r b bs s rest k zs)
  then show ?case using run_by_chain [OF two_runs(1)] by (simp add: filter_merge sorted_by_chain)
qed simp_all

lemma pass_measure:
  assumes "sort_pass_by lt xs = (n, ys)" "n > 1"
  shows "descents lt ys < descents lt xs"
  using pass_descents [OF assms(1)] pass_progress [OF assms(1)] assms(2) by linarith

end

end
