(* ===== verification/Klist_Ops.thy ===== *)
theory Klist_Ops
  imports Klist_Links Weak_Order
begin

text \<open>
  The list operations of \<^verbatim>\<open>lib/kernel/list.c\<close> refine operations on sequences: each theorem
  runs the code on a store that represents a sequence \<open>xs\<close>, shows that it returns (no
  assertion fails, no loop runs forever) and gives the sequence represented afterwards,
  together with the part of the store that is left alone.
\<close>

section \<open>Cursor operations on a represented list\<close>

abbreviation list_first :: "ptr \<Rightarrow> ptr list \<Rightarrow> ptr" where
  "list_first l xs \<equiv> hd (xs @ [tail_of l])"

lemma list_rep_facts:
  assumes "list_rep m l xs"
  shows "l \<noteq> NULL" "tail_of l \<noteq> NULL" "head_of l \<noteq> tail_of l" "distinct xs" "NULL \<notin> set xs"
    "head_of l \<notin> set xs" "tail_of l \<notin> set xs"
  using assms by (auto simp: list_rep_def wf_nodes_def head_of_def)

lemma list_rep_elem:
  assumes "list_rep m l (xs @ x # ys)"
  shows "x \<noteq> tail_of l" "x \<noteq> head_of l" "x \<noteq> NULL" "x \<notin> set xs" "x \<notin> set ys"
  using list_rep_facts [OF assms] by auto

lemma list_end_rep [list_ops]: "list_rep m l xs \<Longrightarrow> list_end l m = Inr (tail_of l)"
  by (simp add: list_end_def list_rep_facts)

lemma list_begin_rep [list_ops]:
  assumes "list_rep m l xs"
  shows "list_begin l m = Inr (list_first l xs)"
proof (cases xs)
  case Nil
  then have "wf_nodes m ([] @ head_of l # tail_of l # [])" using assms by (simp add: list_rep_def)
  from wf_nodes_mid [OF this] show ?thesis
    using list_rep_facts(1) [OF assms] Nil by (simp add: list_begin_def)
next
  case (Cons x ys)
  then have "wf_nodes m ([] @ head_of l # x # ys @ [tail_of l])"
    using assms by (simp add: list_rep_def)
  from wf_nodes_mid [OF this] show ?thesis
    using list_rep_facts(1) [OF assms] Cons by (simp add: list_begin_def)
qed

lemma list_next_rep [list_ops]:
  assumes "list_rep m l (xs @ x # ys)"
  shows "list_next x m = Inr (list_first l ys)"
proof -
  obtain b bs where b: "ys @ [tail_of l] = b # bs" by (cases "ys @ [tail_of l]") auto
  then have "nodes_of l (xs @ x # ys) = (head_of l # xs) @ x # b # bs" by simp
  then show ?thesis
    using assms list_next_nodes [of m "head_of l # xs" x b bs] b by (simp add: list_rep_def)
qed

lemma list_prev_rep [list_ops]:
  assumes "list_rep m l (xs @ x # y # ys)"
  shows "list_prev y m = Inr x"
  using assms list_prev_nodes [of m "head_of l # xs" x y "ys @ [tail_of l]"]
  by (simp add: list_rep_def)

lemma list_empty_rep [list_ops]:
  assumes "list_rep m l xs"
  shows "list_empty l m = Inr (xs = [])"
  using list_rep_facts(7) [OF assms]
  by (cases xs) (auto simp: list_empty_def list_begin_rep [OF assms] list_end_rep [OF assms])

lemma list_insert_rep [list_ops]:
  assumes rep: "list_rep m l (xs @ ys)" and e: "e \<noteq> NULL" "e \<notin> set (nodes_of l (xs @ ys))"
  shows "\<exists>m'. list_insert (list_first l ys) e m = Inr m' \<and> list_rep m' l (xs @ e # ys) \<and>
    same_outside (insert e (set (nodes_of l (xs @ ys)))) m m'"
proof -
  obtain b bs where b: "ys @ [tail_of l] = b # bs" by (cases "ys @ [tail_of l]") auto
  obtain us p where p: "head_of l # xs = us @ [p]" by (cases "head_of l # xs" rule: rev_cases) auto
  have ns: "nodes_of l (xs @ zs @ ys) = us @ p # zs @ b # bs" for zs
    using b p by (metis append.assoc append_Cons append_Nil)
  have wf: "wf_nodes m (us @ p # b # bs)" using rep ns [of "[]"] by (simp add: list_rep_def)
  have "e \<notin> set (us @ p # b # bs)" using e(2) unfolding ns [of "[]", unfolded append_Nil] .
  from list_insert_nodes [OF wf this e(1)] obtain m' where
    m': "list_insert b e m = Inr m'" "wf_nodes m' (us @ p # e # b # bs)" "same_outside {e, p, b} m m'"
    by blast
  have "{e, p, b} \<subseteq> insert e (set (nodes_of l (xs @ ys)))" unfolding ns [of "[]", unfolded append_Nil] by auto
  from same_outside_mono [OF m'(3) this]
  have "same_outside (insert e (set (nodes_of l (xs @ ys)))) m m'" .
  moreover have "list_rep m' l (xs @ e # ys)" using m'(2) ns [of "[e]"] by (simp add: list_rep_def)
  moreover have "list_first l ys = b" by (simp add: b)
  ultimately show ?thesis using m'(1) by blast
qed

lemma list_remove_rep [list_ops]:
  assumes rep: "list_rep m l (xs @ x # ys)"
  shows "\<exists>m'. list_remove x m = Inr (list_first l ys, m') \<and> list_rep m' l (xs @ ys) \<and>
    same_outside (set (nodes_of l (xs @ ys))) m m'"
proof -
  obtain b bs where b: "ys @ [tail_of l] = b # bs" by (cases "ys @ [tail_of l]") auto
  obtain us p where p: "head_of l # xs = us @ [p]" by (cases "head_of l # xs" rule: rev_cases) auto
  have ns: "nodes_of l (xs @ zs @ ys) = us @ p # zs @ b # bs" for zs
    using b p by (metis append.assoc append_Cons append_Nil)
  have wf: "wf_nodes m (us @ p # x # b # bs)" using rep ns [of "[x]"] by (simp add: list_rep_def)
  from list_remove_nodes [OF wf] obtain m' where
    m': "list_remove x m = Inr (b, m')" "wf_nodes m' (us @ p # b # bs)" "same_outside {p, b} m m'"
    by blast
  have "{p, b} \<subseteq> set (nodes_of l (xs @ ys))" unfolding ns [of "[]", unfolded append_Nil] by auto
  from same_outside_mono [OF m'(3) this]
  have "same_outside (set (nodes_of l (xs @ ys))) m m'" .
  moreover have "list_rep m' l (xs @ ys)" using m'(2) ns [of "[]"] by (simp add: list_rep_def)
  moreover have "list_first l ys = b" by (simp add: b)
  ultimately show ?thesis using m'(1) by blast
qed

lemma list_insert_remove_rep:
  assumes rep: "list_rep m l (xs @ ys)" and e: "e \<noteq> NULL" "e \<notin> set (nodes_of l (xs @ ys))"
  shows "\<exists>m' m''. list_insert (list_first l ys) e m = Inr m' \<and> list_rep m' l (xs @ e # ys) \<and>
    list_remove e m' = Inr (list_first l ys, m'') \<and> list_rep m'' l (xs @ ys) \<and> same_outside {e} m m''"
proof -
  obtain b bs where b: "ys @ [tail_of l] = b # bs" by (cases "ys @ [tail_of l]") auto
  obtain us p where p: "head_of l # xs = us @ [p]" by (cases "head_of l # xs" rule: rev_cases) auto
  have ns: "nodes_of l (xs @ zs @ ys) = us @ p # zs @ b # bs" for zs
    using b p by (metis append.assoc append_Cons append_Nil)
  have wf: "wf_nodes m (us @ p # b # bs)" using rep ns [of "[]"] by (simp add: list_rep_def)
  have en: "e \<notin> set (us @ p # b # bs)" using e(2) unfolding ns [of "[]", unfolded append_Nil] .
  have reps: "list_rep m0 l (xs @ zs @ ys) = wf_nodes m0 (us @ p # zs @ b # bs)" for m0 zs
    by (simp only: list_rep_def ns)
  show ?thesis
    using list_insert_remove_nodes [OF wf en e(1)] reps [of _ "[]"] reps [of _ "[e]"] b by simp
qed

section \<open>Insertion and removal at the ends\<close>

lemma list_init_rep:
  assumes "l \<noteq> NULL" "tail_of l \<noteq> NULL"
  shows "\<exists>m'. list_init l m = Inr m' \<and> list_rep m' l [] \<and>
    same_outside {head_of l, tail_of l} m m'"
proof -
  have "head_of l \<noteq> tail_of l" by (simp add: head_of_def tail_of_def)
  then show ?thesis using assms
    by (auto simp: list_init_def list_rep_def wf_nodes_def Let_def head_of_def intro!: wr_outside)
qed

lemma list_push_front_rep:
  assumes "list_rep m l xs" "e \<noteq> NULL" "e \<notin> set (nodes_of l xs)"
  shows "\<exists>m'. list_push_front l e m = Inr m' \<and> list_rep m' l (e # xs) \<and>
    same_outside (insert e (set (nodes_of l xs))) m m'"
  using list_insert_rep [of m l "[]" xs e] list_begin_rep [of m l xs] assms
  by (simp add: list_push_front_def)

lemma list_push_back_rep:
  assumes "list_rep m l xs" "e \<noteq> NULL" "e \<notin> set (nodes_of l xs)"
  shows "\<exists>m'. list_push_back l e m = Inr m' \<and> list_rep m' l (xs @ [e]) \<and>
    same_outside (insert e (set (nodes_of l xs))) m m'"
  using list_insert_rep [of m l xs "[]" e] list_end_rep [of m l xs] assms
  by (simp add: list_push_back_def)

lemma list_front_rep: "list_rep m l (x # xs) \<Longrightarrow> list_front l m = Inr x"
  using list_begin_rep [of m l "x # xs"] list_rep_facts(1)
  by (simp add: list_front_def list_empty_rep list_begin_def)

lemma list_back_rep:
  assumes "list_rep m l (xs @ [x])"
  shows "list_back l m = Inr x"
proof -
  have "wf_nodes m ((head_of l # xs) @ x # tail_of l # [])" using assms by (simp add: list_rep_def)
  from wf_nodes_mid(2) [OF this] show ?thesis
    by (simp add: list_back_def list_empty_rep [OF assms])
qed

lemma list_pop_front_rep:
  assumes "list_rep m l (x # xs)"
  shows "\<exists>m'. list_pop_front l m = Inr (x, m') \<and> list_rep m' l xs \<and>
    same_outside (set (nodes_of l xs)) m m'"
  using list_remove_rep [of m l "[]" x xs] list_front_rep [OF assms] assms
  by (auto simp: list_pop_front_def)

lemma list_pop_back_rep:
  assumes "list_rep m l (xs @ [x])"
  shows "\<exists>m'. list_pop_back l m = Inr (x, m') \<and> list_rep m' l xs \<and>
    same_outside (set (nodes_of l xs)) m m'"
  using list_remove_rep [of m l xs x "[]"] list_back_rep [OF assms] assms
  by (auto simp: list_pop_back_def)

lemma list_pop_empty:
  assumes "list_rep m l []"
  shows "list_pop_front l m = Inl Assert_fail" "list_pop_back l m = Inl Assert_fail"
  by (simp_all add: list_pop_front_def list_pop_back_def list_front_def list_back_def
      list_empty_rep [OF assms])

section \<open>Walks\<close>

lemma list_size_loop_rep:
  assumes "list_rep m l (xs @ ys)"
  shows "list_size_loop l (list_first l ys) cnt m = okE (cnt + of_nat (length ys))"
  using assms
proof (induction ys arbitrary: xs cnt)
  case Nil
  then show ?case by (subst list_size_loop.simps) (simp add: list_end_rep)
next
  case (Cons y ys)
  have rep: "list_rep m l ((xs @ [y]) @ ys)" using Cons(2) by simp
  show ?case
    using Cons(1) [OF rep, of "cnt + 1"] list_rep_elem(1) [OF Cons(2)]
    by (subst list_size_loop.simps)
      (simp add: list_end_rep [OF Cons(2)] list_next_rep [OF Cons(2)] ac_simps)
qed

lemma list_size_rep: "list_rep m l xs \<Longrightarrow> list_size l m = okE (of_nat (length xs))"
  using list_size_loop_rep [of m l "[]" xs 0] by (simp add: list_size_def list_begin_rep)

lemma list_length_bound:
  assumes "list_rep m l xs"
  shows "length xs < 2 ^ 32"
proof -
  have "card (set xs) \<le> card (UNIV - {NULL})"
    using list_rep_facts(5) [OF assms] by (intro card_mono) auto
  moreover have "card (UNIV - {NULL}) = 2 ^ 32 - 1"
    by (simp add: card_Diff_singleton card_word)
  ultimately show ?thesis using distinct_card [OF list_rep_facts(4) [OF assms]] by simp
qed

end
