(* ===== verification/Klist_Algs.thy ===== *)
theory Klist_Algs
  imports Klist_Ops
begin

text \<open>
  The algorithms of \<^verbatim>\<open>lib/kernel/list.c\<close> that walk a whole list: reversal, ordered insertion,
  removal of duplicates, and the maximum and minimum.
\<close>

section \<open>Reversal\<close>

definition swap_in :: "ptr set \<Rightarrow> lmem \<Rightarrow> lmem" where
  "swap_in A m = (\<lambda>x. if x \<in> A then \<lparr>l_prev = l_next (m x), l_next = l_prev (m x)\<rparr> else m x)"

lemma swap_in_links [simp]:
  "l_prev (swap_in A m x) = (if x \<in> A then l_next (m x) else l_prev (m x))"
  "l_next (swap_in A m x) = (if x \<in> A then l_prev (m x) else l_next (m x))"
  by (simp_all add: swap_in_def)

lemma swap_links_elem:
  "x \<notin> A \<Longrightarrow> swap_links (PREV x) (NEXT x) (swap_in A m) = swap_in (insert x A) m"
  by (rule ext) (auto simp: swap_links_def swap_in_def wr.simps)

lemma linked_swap_in: "set xs \<subseteq> A \<Longrightarrow> linked (swap_in A m) (rev xs) = linked m xs"
proof (induction m xs rule: linked.induct)
  case (1 m x y zs)
  then show ?case using linked_mid [of "swap_in A m" "rev zs" y x "[]"] by auto
qed simp_all

lemma list_reverse_loop_rep:
  assumes "list_rep m l (xs @ ys)"
  shows "list_reverse_loop l (list_first l ys) (swap_in (set xs) m) =
    okE (swap_in (set (xs @ ys)) m)"
  using assms
proof (induction ys arbitrary: xs)
  case Nil
  then show ?case using list_rep_facts(1)
    by (subst list_reverse_loop.simps) (simp add: list_end_def)
next
  case (Cons y ys)
  have rep: "list_rep m l ((xs @ [y]) @ ys)" using Cons(2) by simp
  have nx: "l_next (m y) = list_first l ys"
    using list_next_rep [OF Cons(2)] by (simp add: list_next_def)
  show ?case
    using Cons(1) [OF rep] list_rep_elem [OF Cons(2)] list_rep_facts(1) [OF rep] nx
    by (subst list_reverse_loop.simps) (simp add: list_end_def swap_links_elem Let_def)
qed

lemma list_reverse_rep:
  assumes rep: "list_rep m l xs"
  shows "\<exists>m'. list_reverse l m = okE m' \<and> list_rep m' l (rev xs) \<and>
    same_outside (set (nodes_of l xs)) m m'"
proof (cases "xs = []")
  case True
  then show ?thesis using rep by (simp add: list_reverse_def list_empty_rep)
next
  case False
  define a where "a = hd xs"
  define z where "z = last xs"
  let ?h = "head_of l" and ?t = "tail_of l" and ?a = a and ?z = z
  let ?m1 = "swap_in (set xs) m"
  let ?m' = "wr (NEXT ?a) ?t (wr (PREV ?z) ?h (wr (PREV ?t) ?a (wr (NEXT ?h) ?z ?m1)))"
  note facts = list_rep_facts [OF rep]
  have az: "?a \<in> set xs" "?z \<in> set xs" using False by (simp_all add: a_def z_def)
  have lk: "linked m ([] @ ?h # xs @ ?t # [])" using rep by (simp add: list_rep_def wf_nodes_def)
  note blk = lk [unfolded linked_block [OF False], folded a_def z_def]
  have ne: "?a \<noteq> ?h" "?a \<noteq> ?t" "?z \<noteq> ?h" "?z \<noteq> ?t" "?h \<noteq> ?t" using facts az by auto
  have "list_reverse_loop l (list_first l xs) m = okE ?m1"
    using list_reverse_loop_rep [of m l "[]" xs] rep by (simp add: swap_in_def)
  then have eq: "list_reverse l m = okE ?m'"
    using False rep blk facts az ne
    by (simp add: list_reverse_def list_empty_rep [OF rep] list_begin_rep [OF rep] swap_links_def Let_def)
  have rv: "rev xs \<noteq> []" "hd (rev xs) = ?z" "last (rev xs) = ?a" "distinct (rev xs)"
    using False facts by (simp_all add: hd_rev last_rev a_def z_def)
  have "linked ?m1 (rev xs)" using blk by (simp add: linked_swap_in)
  then have "linked ?m' (rev xs)"
    using facts by (simp add: linked_wr linked_wr_ends [OF rv(4,1), unfolded rv])
  then have "linked ?m' ([] @ ?h # rev xs @ ?t # [])"
    unfolding linked_block [OF rv(1)] rv(2,3) by (intro conjI) (simp_all add: ne ne [symmetric])
  then have "wf_nodes ?m' ([] @ ?h # rev xs @ ?t # [])"
  proof (rule wf_nodes_middle [of m "[]" ?h xs ?t "[]", rotated])
    show "set (rev xs) \<inter> set ([] @ [?h, ?t]) = {}" using facts by simp
    show "l_prev (?m' x) = l_prev (m x)" if "x \<in> set ([] @ [?h])" for x
      using that facts by (simp add: ne ne [symmetric])
    show "l_next (?m' x) = l_next (m x)" if "x \<in> set [?t]" for x
      using that facts by (simp add: ne ne [symmetric])
  qed (use rep facts in \<open>simp_all add: list_rep_def\<close>)
  then have "list_rep ?m' l (rev xs)" by (simp add: list_rep_def)
  moreover have "same_outside (set (nodes_of l xs)) m ?m1"
    by (simp add: same_outside_def swap_in_def)
  then have "same_outside (set (nodes_of l xs)) m ?m'"
    using az by (intro wr_outside) auto
  ultimately show ?thesis using eq by blast
qed

section \<open>Ordered insertion\<close>

lemma insert_ordered_loop_rep:
  assumes "list_rep m l (xs @ ys)"
  shows "insert_ordered_loop l e (list_first l ys) lt m =
    okE (list_first l (dropWhile (\<lambda>y. \<not> lt e y) ys))"
  using assms
proof (induction ys arbitrary: xs)
  case Nil
  then show ?case by (subst insert_ordered_loop.simps) (simp add: list_end_rep)
next
  case (Cons y ys)
  have rep: "list_rep m l ((xs @ [y]) @ ys)" using Cons(2) by simp
  show ?case
    using Cons(1) [OF rep] list_rep_elem(1) [OF Cons(2)]
    by (subst insert_ordered_loop.simps)
      (simp add: list_end_rep [OF Cons(2)] list_next_rep [OF Cons(2)])
qed

lemma list_insert_ordered_rep:
  assumes "list_rep m l xs" "e \<noteq> NULL" "e \<notin> set (nodes_of l xs)"
  shows "\<exists>m'. list_insert_ordered l e lt m = okE m' \<and>
    list_rep m' l (takeWhile (\<lambda>y. \<not> lt e y) xs @ e # dropWhile (\<lambda>y. \<not> lt e y) xs) \<and>
    same_outside (insert e (set (nodes_of l xs))) m m'"
  using assms list_insert_rep [of m l "takeWhile (\<lambda>y. \<not> lt e y) xs"
      "dropWhile (\<lambda>y. \<not> lt e y) xs" e]
    insert_ordered_loop_rep [of m l "[]" xs e lt] list_rep_facts(1) [OF assms(1)]
  by (simp add: list_insert_ordered_def list_begin_rep)

section \<open>Maximum and minimum\<close>

lemma list_max_loop_rep:
  assumes "list_rep m l (xs @ ys)"
  shows "list_max_loop l mx (list_first l ys) lt m =
    okE (foldl (\<lambda>mx e. if lt mx e then e else mx) mx ys)"
  using assms
proof (induction ys arbitrary: xs mx)
  case Nil
  then show ?case by (subst list_max_loop.simps) (simp add: list_end_rep)
next
  case (Cons y ys)
  have rep: "list_rep m l ((xs @ [y]) @ ys)" using Cons(2) by simp
  show ?case
    using Cons(1) [OF rep] list_rep_elem(1) [OF Cons(2)]
    by (subst list_max_loop.simps)
      (simp add: list_end_rep [OF Cons(2)] list_next_rep [OF Cons(2)])
qed

lemma list_min_loop_rep:
  assumes "list_rep m l (xs @ ys)"
  shows "list_min_loop l mn (list_first l ys) lt m =
    okE (foldl (\<lambda>mn e. if lt e mn then e else mn) mn ys)"
  using assms
proof (induction ys arbitrary: xs mn)
  case Nil
  then show ?case by (subst list_min_loop.simps) (simp add: list_end_rep)
next
  case (Cons y ys)
  have rep: "list_rep m l ((xs @ [y]) @ ys)" using Cons(2) by simp
  show ?case
    using Cons(1) [OF rep] list_rep_elem(1) [OF Cons(2)]
    by (subst list_min_loop.simps)
      (simp add: list_end_rep [OF Cons(2)] list_next_rep [OF Cons(2)])
qed

lemma list_max_rep:
  assumes "list_rep m l xs"
  shows "list_max l lt m = okE (case xs of [] \<Rightarrow> tail_of l
    | x # ys \<Rightarrow> foldl (\<lambda>mx e. if lt mx e then e else mx) x ys)"
proof (cases xs)
  case (Cons x ys)
  then have rep: "list_rep m l ([] @ x # ys)" "list_rep m l ([x] @ ys)" using assms by simp_all
  show ?thesis using Cons list_max_loop_rep [OF rep(2), of x lt] list_rep_elem(1) [OF rep(1)]
    by (simp add: list_max_def list_begin_rep [OF assms] list_end_rep [OF assms]
        list_next_rep [OF rep(1)])
qed (simp add: list_max_def list_begin_rep [OF assms] list_end_rep [OF assms])

lemma list_min_rep:
  assumes "list_rep m l xs"
  shows "list_min l lt m = okE (case xs of [] \<Rightarrow> tail_of l
    | x # ys \<Rightarrow> foldl (\<lambda>mn e. if lt e mn then e else mn) x ys)"
proof (cases xs)
  case (Cons x ys)
  then have rep: "list_rep m l ([] @ x # ys)" "list_rep m l ([x] @ ys)" using assms by simp_all
  show ?thesis using Cons list_min_loop_rep [OF rep(2), of x lt] list_rep_elem(1) [OF rep(1)]
    by (simp add: list_min_def list_begin_rep [OF assms] list_end_rep [OF assms]
        list_next_rep [OF rep(1)])
qed (simp add: list_min_def list_begin_rep [OF assms] list_end_rep [OF assms])

end
