(* ===== verification/Klist_Sort.thy ===== *)
theory Klist_Sort
  imports Klist_Algs
begin

text \<open>
  \<^verbatim>\<open>list_sort\<close> of \<^verbatim>\<open>lib/kernel/list.c\<close>: the natural merge sort on links refines the reference
  pass of \<open>Weak_Order\<close>, ends, and leaves a sorted, stable permutation. Also \<^verbatim>\<open>list_unique\<close>.
\<close>

section \<open>Runs\<close>

text \<open>
  A cursor lemma works on a segment of a represented list: \<open>pre\<close> before, \<open>post\<close> behind, and
  the sentinel of the segment is the first node behind it.
\<close>

lemma find_end_of_run_loop_rep:
  assumes "list_rep m l (pre @ a # ys)"
  shows "find_end_of_run_loop a (tail_of l) lt m = okE (list_first l (snd (run_by lt a ys)))"
  using assms
proof (induction ys arbitrary: pre a)
  case Nil
  then show ?case by (subst find_end_of_run_loop.simps) (simp add: list_next_rep)
next
  case (Cons y ys)
  have rep: "list_rep m l ((pre @ [a]) @ y # ys)" using Cons(2) by simp
  show ?case
    using Cons(1) [OF rep] list_rep_elem(1) [OF rep]
    by (subst find_end_of_run_loop.simps)
      (simp add: list_next_rep [OF Cons(2)] list_prev_rep [OF Cons(2)] split: prod.split)
qed

lemma find_end_of_run_rep:
  assumes "list_rep m l (pre @ a # ys)"
  shows "find_end_of_run a (tail_of l) lt m = okE (list_first l (snd (run_by lt a ys)))"
  using find_end_of_run_loop_rep [OF assms] list_rep_elem [OF assms] list_rep_facts [OF assms]
  by (simp add: find_end_of_run_def)

lemma is_sorted_loop_rep:
  assumes "list_rep m l (pre @ a # ys @ post)"
  shows "is_sorted_loop a (list_first l post) lt m = okE (chain_by lt (a # ys))"
  using assms
proof (induction ys arbitrary: pre a)
  case Nil
  then show ?case by (subst is_sorted_loop.simps) (simp add: list_next_rep)
next
  case (Cons y ys)
  have rep: "list_rep m l ((pre @ [a]) @ y # ys @ post)" using Cons(2) by simp
  have rep2: "list_rep m l (pre @ a # y # ys @ post)" using Cons(2) by simp
  have "y \<noteq> list_first l post" using list_rep_elem [OF rep] by (cases post) auto
  then show ?case
    using Cons(1) [OF rep]
    by (subst is_sorted_loop.simps)
      (simp add: list_next_rep [OF rep2] list_prev_rep [OF rep2])
qed

lemma is_sorted_rep:
  assumes "list_rep m l (pre @ xs @ post)"
  shows "is_sorted (list_first l (xs @ post)) (list_first l post) lt m = okE (chain_by lt xs)"
proof (cases xs)
  case (Cons x ys)
  have rep: "list_rep m l (pre @ x # ys @ post)" using assms Cons by simp
  have "x \<noteq> list_first l post" using list_rep_elem [OF rep] by (cases post) auto
  then show ?thesis using is_sorted_loop_rep [OF rep, of lt] Cons by (simp add: is_sorted_def)
qed (simp add: is_sorted_def)

section \<open>Merging two adjacent runs\<close>

lemma list_splice_rep:
  assumes rep: "list_rep m l (pre @ (v # vs) @ y # post)"
  shows "\<exists>m'. list_splice v y (list_first l post) m = Inr m' \<and>
    list_rep m' l (pre @ y # (v # vs) @ post) \<and>
    same_outside (set (nodes_of l (pre @ (v # vs) @ y # post))) m m'"
proof -
  obtain b bs where b: "post @ [tail_of l] = b # bs" by (cases "post @ [tail_of l]") auto
  obtain us p where p: "head_of l # pre = us @ [p]" by (cases "head_of l # pre" rule: rev_cases) auto
  have ns: "nodes_of l (pre @ zs @ post) = us @ p # zs @ b # bs" for zs
    using b p by (metis append.assoc append_Cons append_Nil)
  have wf: "wf_nodes m (us @ p # (v # vs) @ [y] @ b # bs)"
    using rep ns [of "(v # vs) @ [y]"] by (simp add: list_rep_def)
  obtain m' where m': "list_splice v y b m = Inr m'" "wf_nodes m' (us @ p # [y] @ (v # vs) @ b # bs)"
    "same_outside {p, v, last (v # vs), b, y, y} m m'"
    using list_splice_left_nodes [OF wf] by fastforce
  have sub: "{p, v, last (v # vs), b, y, y} \<subseteq> set (us @ p # ((v # vs) @ [y]) @ b # bs)" by auto
  have "list_rep m' l (pre @ y # (v # vs) @ post)"
    using m'(2) ns [of "y # v # vs"] by (simp add: list_rep_def)
  moreover have "same_outside (set (nodes_of l (pre @ ((v # vs) @ [y]) @ post))) m m'"
    unfolding ns by (rule same_outside_mono [OF m'(3) sub])
  moreover have "list_first l post = b" by (simp add: b)
  ultimately show ?thesis using m'(1) by auto
qed

lemma list_prev_first:
  assumes "list_rep m l (xs @ x # ys)"
  shows "list_prev (list_first l ys) m = Inr x"
proof -
  obtain b bs where b: "ys @ [tail_of l] = b # bs" by (cases "ys @ [tail_of l]") auto
  then show ?thesis
    using assms list_prev_nodes [of m "head_of l # xs" x b bs] by (simp add: list_rep_def)
qed

lemma inplace_merge_loop_rep:
  assumes "list_rep m l (pre @ as @ bs @ post)"
  shows "\<exists>m'. inplace_merge_loop (list_first l (as @ bs @ post)) (list_first l (bs @ post))
      (list_first l post) lt m = okE m' \<and>
    list_rep m' l (pre @ merge_by lt as bs @ post) \<and>
    same_outside (set (nodes_of l (pre @ as @ bs @ post))) m m'"
  using assms
proof (induction "length as + length bs" arbitrary: pre as bs m rule: less_induct)
  case less
  show ?case
  proof (cases "as = [] \<or> bs = []")
    case True
    then show ?thesis using less(2) by (subst inplace_merge_loop.simps) auto
  next
    case False
    then obtain a as' b bs' where ab: "as = a # as'" "bs = b # bs'" by (auto simp: neq_Nil_conv)
    have repa: "list_rep m l (pre @ a # as' @ b # bs' @ post)" using less(2) ab by simp
    have repb: "list_rep m l ((pre @ a # as') @ b # bs' @ post)" using less(2) ab by simp
    have ne: "a \<noteq> b" "b \<noteq> list_first l post"
      using list_rep_elem [OF repa] list_rep_elem [OF repb] by (auto simp: hd_append)
    show ?thesis
    proof (cases "lt b a")
      case False
      have rep: "list_rep m l ((pre @ [a]) @ as' @ bs @ post)" using less(2) ab by simp
      show ?thesis using less(1) [OF _ rep] False ne ab
        by (subst inplace_merge_loop.simps) (simp add: list_next_rep [OF repa])
    next
      case True
      obtain m1 where m1: "list_splice a b (list_first l (bs' @ post)) m = Inr m1"
          "list_rep m1 l (pre @ b # (a # as') @ bs' @ post)"
          "same_outside (set (nodes_of l (pre @ as @ bs @ post))) m m1"
        using list_splice_rep [of m l pre a as' b "bs' @ post"] repa ab by auto
      have rep1: "list_rep m1 l ((pre @ [b]) @ as @ bs' @ post)" using m1(2) ab by simp
      obtain m' where m': "inplace_merge_loop a (list_first l (bs' @ post)) (list_first l post) lt m1
          = okE m'" "list_rep m' l ((pre @ [b]) @ merge_by lt as bs' @ post)"
          "same_outside (set (nodes_of l ((pre @ [b]) @ as @ bs' @ post))) m1 m'"
        using less(1) [OF _ rep1] ab by auto
      have "set (nodes_of l ((pre @ [b]) @ as @ bs' @ post)) = set (nodes_of l (pre @ as @ bs @ post))"
        using ab by auto
      then have "same_outside (set (nodes_of l (pre @ as @ bs @ post))) m m'"
        using same_outside_trans [OF m1(3)] m'(3) by simp
      then show ?thesis using m1(1) m'(1,2) True ne ab
        by (subst inplace_merge_loop.simps)
          (simp add: list_next_rep [OF repb] list_prev_first [OF repb, simplified])
    qed
  qed
qed

lemma inplace_merge_rep:
  assumes rep: "list_rep m l (pre @ as @ bs @ post)" and "chain_by lt as" "chain_by lt bs"
  shows "\<exists>m'. inplace_merge (list_first l (as @ bs @ post)) (list_first l (bs @ post))
      (list_first l post) lt m = okE m' \<and>
    list_rep m' l (pre @ merge_by lt as bs @ post) \<and>
    same_outside (set (nodes_of l (pre @ as @ bs @ post))) m m'"
proof -
  have nz: "list_first l ys \<noteq> NULL" if "set ys \<subseteq> set (pre @ as @ bs @ post)" for ys
    using list_rep_facts(2,5) [OF rep] that by (cases ys) auto
  have "list_first l (as @ bs @ post) \<noteq> NULL" "list_first l (bs @ post) \<noteq> NULL"
      "list_first l post \<noteq> NULL"
    by (rule nz, force)+
  moreover have "is_sorted (list_first l (as @ bs @ post)) (list_first l (bs @ post)) lt m = okE True"
    using is_sorted_rep [of m l pre as "bs @ post" lt] assms by simp
  moreover have "is_sorted (list_first l (bs @ post)) (list_first l post) lt m = okE True"
    using is_sorted_rep [of m l "pre @ as" bs post lt] assms by simp
  ultimately show ?thesis
    using inplace_merge_loop_rep [OF rep, of lt]
    by (simp add: inplace_merge_def)
qed

section \<open>Passes\<close>

lemma list_sort_pass_rep:
  assumes "sort_pass_by lt xs = (n, ys)" "list_rep m l (pre @ xs)"
  shows "\<exists>m'. list_sort_pass l (list_first l xs) cnt lt m = okE (cnt + of_nat n, m') \<and>
    list_rep m' l (pre @ ys) \<and> same_outside (set (nodes_of l (pre @ xs))) m m'"
  using assms
proof (induction xs n ys arbitrary: pre m cnt rule: sort_pass_by_induct)
  case Nil
  then show ?case by (subst list_sort_pass.simps) (simp add: list_end_rep)
next
  case (last_run a as)
  then show ?case using find_end_of_run_rep [OF last_run(2), of lt] list_rep_elem(1) [OF last_run(2)]
    by (subst list_sort_pass.simps) (simp add: list_end_rep [OF last_run(2)])
next
  case (two_runs a as r b bs s rest k zs)
  note a = run_by_append [OF two_runs(1)] and b = run_by_append [OF two_runs(2)]
  obtain r' s' where hd: "r = a # r'" "s = b # s'"
    using run_by_hd [OF two_runs(1)] run_by_hd [OF two_runs(2)] by blast
  let ?A = "set (nodes_of l (pre @ r @ s @ rest))"
  have rep1: "list_rep m l (pre @ a # as)" and rep2: "list_rep m l ((pre @ r) @ b # bs)"
    using two_runs(5) a b by simp_all
  obtain m1 where m1: "inplace_merge a b (list_first l rest) lt m = okE m1"
      "list_rep m1 l (pre @ merge_by lt r s @ rest)" "same_outside ?A m m1"
    using inplace_merge_rep [OF two_runs(5) run_by_chain [OF two_runs(1)] run_by_chain [OF two_runs(2)]]
      hd by auto
  obtain m' where m': "list_sort_pass l (list_first l rest) (cnt + 1) lt m1
      = okE (cnt + 1 + of_nat k, m')" "list_rep m' l ((pre @ merge_by lt r s) @ zs)"
      "same_outside (set (nodes_of l ((pre @ merge_by lt r s) @ rest))) m1 m'"
    using two_runs(4) [of m1 "pre @ merge_by lt r s" "cnt + 1"] m1(2) by auto
  have "same_outside ?A m m'"
    using same_outside_trans [OF m1(3), of m'] m'(3) by (simp add: Un_ac insert_commute)
  moreover have "list_sort_pass l a cnt lt m = okE (cnt + of_nat (k + 1), m')"
    using find_end_of_run_rep [OF rep1, of lt] find_end_of_run_rep [OF rep2, of lt] m1(1) m'(1)
      list_rep_elem(1) [OF rep1] list_rep_elem(1) [OF rep2] two_runs(1,2)
    by (subst list_sort_pass.simps) (simp add: list_end_rep [OF rep1] ac_simps)
  ultimately show ?case using m'(2) hd by simp
qed

section \<open>Sorting\<close>

lemma of_nat_gt_1: "n < 2 ^ 32 \<Longrightarrow> (1 :: u32) < of_nat n \<longleftrightarrow> 1 < n"
  by (simp add: word_less_nat_alt unat_of_nat)

locale list_order = strict_weak_order lt for lt :: less_func
begin

lemma sort_loop_rep:
  assumes "list_rep m l xs"
  shows "\<exists>m' ys. list_sort_loop l lt m = okE m' \<and> list_rep m' l ys \<and> mset ys = mset xs \<and>
    sorted_by lt ys \<and> (\<forall>z. filter (equiv_by lt z) ys = filter (equiv_by lt z) xs) \<and>
    same_outside (set (nodes_of l xs)) m m'"
  using assms
proof (induction "descents lt xs" arbitrary: m xs rule: less_induct)
  case less
  let ?A = "set (nodes_of l xs)"
  obtain n ys where p: "sort_pass_by lt xs = (n, ys)" by fastforce
  obtain m1 where m1: "list_sort_pass l (list_first l xs) 0 lt m = okE (of_nat n, m1)"
      "list_rep m1 l ys" "same_outside ?A m m1"
    using list_sort_pass_rep [OF p, of m l "[]" 0] less(2) by auto
  have n: "n < 2 ^ 32"
    using length_sort_pass_by [OF p] list_length_bound [OF less(2)] by linarith
  note step = list_sort_loop.simps [of l lt m] list_begin_rep [OF less(2)] m1(1) of_nat_gt_1 [OF n]
  show ?case
  proof (cases "1 < n")
    case False
    then have "list_sort_loop l lt m = okE m1" using step by simp
    moreover have "sorted_by lt ys" using False pass_sorted [OF p] by simp
    ultimately show ?thesis using m1 mset_sort_pass_by [OF p] pass_stable [OF p] by blast
  next
    case True
    have "set (nodes_of l ys) = ?A" using mset_eq_setD [OF mset_sort_pass_by [OF p]] by simp
    then obtain m' zs where m': "list_sort_loop l lt m1 = okE m'" "list_rep m' l zs"
        "mset zs = mset ys" "sorted_by lt zs"
        "\<forall>z. filter (equiv_by lt z) zs = filter (equiv_by lt z) ys" "same_outside ?A m1 m'"
      using less(1) [OF pass_measure [OF p True] m1(2)] by auto
    have "list_sort_loop l lt m = okE m'" using step True m'(1) by simp
    moreover have "mset zs = mset xs" using m'(3) mset_sort_pass_by [OF p] by simp
    moreover have "\<forall>z. filter (equiv_by lt z) zs = filter (equiv_by lt z) xs"
      using m'(5) pass_stable [OF p] by simp
    ultimately show ?thesis using m'(2,4) same_outside_trans [OF m1(3) m'(6)] by blast
  qed
qed

lemma sort_rep:
  assumes rep: "list_rep m l xs"
  shows "\<exists>m' ys. list_sort l lt m = okE m' \<and> list_rep m' l ys \<and> mset ys = mset xs \<and>
    sorted_by lt ys \<and> (\<forall>z. filter (equiv_by lt z) ys = filter (equiv_by lt z) xs) \<and>
    same_outside (set (nodes_of l xs)) m m'"
proof -
  obtain m' ys where m': "list_sort_loop l lt m = okE m'" "list_rep m' l ys" "mset ys = mset xs"
      "sorted_by lt ys" "\<forall>z. filter (equiv_by lt z) ys = filter (equiv_by lt z) xs"
      "same_outside (set (nodes_of l xs)) m m'"
    using sort_loop_rep [OF rep] by blast
  have "is_sorted (list_first l ys) (tail_of l) lt m' = okE True"
    using is_sorted_rep [of m' l "[]" ys "[]" lt] m'(2,4) by (simp add: sorted_by_chain)
  then have "list_sort l lt m = okE m'"
    using m'(1) list_begin_rep [OF m'(2)] list_end_rep [OF m'(2)] list_rep_facts(1) [OF rep]
    by (simp add: list_sort_def)
  then show ?thesis using m' by blast
qed

lemma insert_ordered_sorted:
  assumes "sorted_by lt xs"
  shows "sorted_by lt (takeWhile (\<lambda>y. \<not> lt e y) xs @ e # dropWhile (\<lambda>y. \<not> lt e y) xs)"
  using assms
proof (induction xs)
  case (Cons x xs)
  have x: "\<forall>y\<in>set xs. \<not> lt y x" using Cons(2) by simp
  show ?case
  proof (cases "lt e x")
    case True
    then show ?thesis using Cons(2) asym [OF True] le_trans [OF asym [OF True]] x by auto
  next
    case False
    have "set (takeWhile (\<lambda>y. \<not> lt e y) xs @ e # dropWhile (\<lambda>y. \<not> lt e y) xs) = insert e (set xs)"
      by (metis Un_insert_right list.simps(15) set_append takeWhile_dropWhile_id)
    then show ?thesis using Cons False x by simp
  qed
qed simp

lemma dropWhile_greater:
  assumes "sorted_by lt xs"
  shows "\<forall>v \<in> set (dropWhile (\<lambda>y. \<not> lt e y) xs). lt e v"
  using assms
proof (induction xs)
  case (Cons x xs)
  then have x: "\<forall>y \<in> set xs. \<not> lt y x" by simp
  show ?case
  proof (cases "lt e x")
    case True
    have "lt e y" if "y \<in> set xs" for y using split [OF True, of y] x that by simp
    then have "\<forall>y\<in>set (x # xs). lt e y" using True by simp
    moreover have "dropWhile (\<lambda>y. \<not> lt e y) (x # xs) = x # xs" using True by simp
    ultimately show ?thesis by (simp only:)
  next
    case False
    have "dropWhile (\<lambda>y. \<not> lt e y) (x # xs) = dropWhile (\<lambda>y. \<not> lt e y) xs" using False by simp
    moreover have "sorted_by lt xs" using Cons(2) by simp
    note Cons(1) [OF this]
    ultimately show ?thesis by (simp only: ball_simps)
  qed
qed simp

lemma max_by_correct:
  "foldl (\<lambda>mx e. if lt mx e then e else mx) x xs \<in> insert x (set xs) \<and>
   (\<forall>y\<in>insert x (set xs). \<not> lt (foldl (\<lambda>mx e. if lt mx e then e else mx) x xs) y)"
proof (induction xs arbitrary: x)
  case (Cons e xs)
  let ?r = "foldl (\<lambda>mx e. if lt mx e then e else mx)"
  show ?case
  proof (cases "lt x e")
    case True
    then show ?thesis using Cons [of e] trans [of "?r e xs" x e] by auto
  next
    case False
    then show ?thesis using Cons [of x] split [of "?r x xs" e x] by auto
  qed
qed (simp add: irrefl)

lemma min_by_correct:
  "foldl (\<lambda>mn e. if lt e mn then e else mn) x xs \<in> insert x (set xs) \<and>
   (\<forall>y\<in>insert x (set xs). \<not> lt y (foldl (\<lambda>mn e. if lt e mn then e else mn) x xs))"
proof (induction xs arbitrary: x)
  case (Cons e xs)
  let ?r = "foldl (\<lambda>mn e. if lt e mn then e else mn)"
  show ?case
  proof (cases "lt e x")
    case True
    then show ?thesis using Cons [of e] trans [of e x "?r e xs"] by auto
  next
    case False
    then show ?thesis using Cons [of x] split [of e "?r x xs" x] by auto
  qed
qed (simp add: irrefl)

end

section \<open>Removing duplicates\<close>

text \<open>The elements kept and the ones dropped, in order: an element is dropped when it is
  equivalent to the last one kept.\<close>

fun unique_by :: "('a \<Rightarrow> 'a \<Rightarrow> bool) \<Rightarrow> 'a \<Rightarrow> 'a list \<Rightarrow> 'a list \<times> 'a list" where
  "unique_by lt x [] = ([x], [])"
| "unique_by lt x (y # ys) =
     (if equiv_by lt x y then let (ks, ds) = unique_by lt x ys in (ks, y # ds)
      else let (ks, ds) = unique_by lt y ys in (x # ks, ds))"

lemma list_unique_loop_rep:
  assumes "list_rep m l (xs @ x # ys)" "list_rep m d zs"
    and "set (nodes_of l (xs @ x # ys)) \<inter> set (nodes_of d zs) = {}" "d \<noteq> NULL"
  shows "\<exists>m'. list_unique_loop l d x lt m = okE m' \<and>
    list_rep m' l (xs @ fst (unique_by lt x ys)) \<and>
    list_rep m' d (zs @ snd (unique_by lt x ys)) \<and>
    same_outside (set (nodes_of l (xs @ x # ys)) \<union> set (nodes_of d zs)) m m'"
  using assms
proof (induction ys arbitrary: m xs x zs)
  case Nil
  then show ?case using list_next_rep [OF Nil(1)] list_end_rep [OF Nil(1)]
    by (subst list_unique_loop.simps) simp
next
  case (Cons y ys)
  let ?A = "set (nodes_of l (xs @ x # y # ys)) \<union> set (nodes_of d zs)"
  have repy: "list_rep m l ((xs @ [x]) @ y # ys)" using Cons(2) by simp
  note steps = list_next_rep [OF Cons(2)] list_end_rep [OF Cons(2)] list_rep_elem [OF repy]
  show ?case
  proof (cases "equiv_by lt x y")
    case False
    have d: "set (nodes_of l ((xs @ [x]) @ y # ys)) \<inter> set (nodes_of d zs) = {}" using Cons(4) by simp
    obtain m' where "list_unique_loop l d y lt m = okE m'"
      "list_rep m' l ((xs @ [x]) @ fst (unique_by lt y ys))"
      "list_rep m' d (zs @ snd (unique_by lt y ys))"
      "same_outside (set (nodes_of l ((xs @ [x]) @ y # ys)) \<union> set (nodes_of d zs)) m m'"
      using Cons(1) [OF repy Cons(3) d Cons(5)] by blast
    moreover have "\<not> (\<not> lt x y \<and> \<not> lt y x)" using False by (simp add: equiv_by_def)
    then have "list_unique_loop l d x lt m = list_unique_loop l d y lt m"
      using steps by (subst list_unique_loop.simps) (simp only: append_Cons list.sel bindE_Inr if_False)
    ultimately show ?thesis using False by (simp add: split_beta)
  next
    case True
    have sub: "set (nodes_of l (xs @ x # ys)) \<subseteq> set (nodes_of l (xs @ x # y # ys))"
        "y \<in> set (nodes_of l (xs @ x # y # ys))" by auto
    obtain m1 where m1: "list_remove y m = Inr (list_first l ys, m1)"
        "list_rep m1 l (xs @ x # ys)" "same_outside (set (nodes_of l (xs @ x # ys))) m m1"
      using list_remove_rep [OF repy] by auto
    have repd: "list_rep m1 d zs"
      using Cons(4) sub by (intro list_rep_frame [OF Cons(3) m1(3)]) blast
    have y: "y \<noteq> NULL" "y \<notin> set (nodes_of d zs)" using steps(5) Cons(4) sub by (simp, blast)
    obtain m2 where m2: "list_push_back d y m1 = Inr m2" "list_rep m2 d (zs @ [y])"
        "same_outside (insert y (set (nodes_of d zs))) m1 m2"
      using list_push_back_rep [OF repd y] by blast
    have dj: "insert y (set (nodes_of d zs)) \<inter> set (nodes_of l (xs @ x # ys)) = {}"
      using Cons(4) sub steps(3-7) by (simp, blast)
    have repl: "list_rep m2 l (xs @ x # ys)" by (rule list_rep_frame [OF m1(2) m2(3) dj])
    have dj2: "set (nodes_of l (xs @ x # ys)) \<inter> set (nodes_of d (zs @ [y])) = {}"
      using dj by auto
    obtain m' where m': "list_unique_loop l d x lt m2 = okE m'"
        "list_rep m' l (xs @ fst (unique_by lt x ys))"
        "list_rep m' d ((zs @ [y]) @ snd (unique_by lt x ys))"
        "same_outside (set (nodes_of l (xs @ x # ys)) \<union> set (nodes_of d (zs @ [y]))) m2 m'"
      using Cons(1) [OF repl m2(2) dj2 Cons(5)] by blast
    have "same_outside ?A m m'"
      using m1(3) m2(3) m'(4) unfolding same_outside_def by simp
    moreover have "list_unique_loop l d x lt m = okE m'"
      using True steps m1(1) m2(1) m'(1) Cons(5)
      by (subst list_unique_loop.simps) (simp add: equiv_by_def)
    ultimately show ?thesis using True m'(2,3) by (auto split: prod.splits)
  qed
qed

lemma list_unique_rep:
  assumes "list_rep m l (x # ys)" "list_rep m d zs" "d \<noteq> NULL"
    and "set (nodes_of l (x # ys)) \<inter> set (nodes_of d zs) = {}"
  shows "\<exists>m'. list_unique l d lt m = okE m' \<and> list_rep m' l (fst (unique_by lt x ys)) \<and>
    list_rep m' d (zs @ snd (unique_by lt x ys)) \<and>
    same_outside (set (nodes_of l (x # ys)) \<union> set (nodes_of d zs)) m m'"
  using list_unique_loop_rep [of m l "[]" x ys d zs lt] assms list_rep_facts(1) [OF assms(1)]
  by (simp add: list_unique_def list_begin_rep list_empty_rep)

lemma unique_by_mset: "mset (fst (unique_by lt x ys)) + mset (snd (unique_by lt x ys)) = mset (x # ys)"
  by (induction lt x ys rule: unique_by.induct) (auto split: prod.splits)

lemma unique_by_hd: "\<exists>ks. fst (unique_by lt x ys) = x # ks"
  by (induction lt x ys rule: unique_by.induct) (auto split: prod.splits)

lemma unique_by_adjacent:
  "\<forall>i. Suc i < length (fst (unique_by lt x ys)) \<longrightarrow>
    \<not> equiv_by lt (fst (unique_by lt x ys) ! i) (fst (unique_by lt x ys) ! Suc i)"
proof (induction lt x ys rule: unique_by.induct)
  case (2 lt x y ys)
  obtain ks where "fst (unique_by lt y ys) = y # ks" using unique_by_hd [of lt y ys] by auto
  then show ?case using 2 by (auto simp: nth_Cons split: prod.splits nat.splits)
qed simp

end
