(* ===== verification/Klist_Props.thy ===== *)
theory Klist_Props
  imports Klist_Sort
begin

text \<open>
  The statements that make the list component correct, each with an instance on a small store.
\<close>

section \<open>Correctness of the list operations\<close>

text \<open>A store with one list at \<open>0x10\<close> of three elements.\<close>

definition demo_links :: lmem where
  "demo_links = (\<lambda>_. \<lparr>l_prev = 0, l_next = 0\<rparr>)
    (0x10 := \<lparr>l_prev = 0, l_next = 0x300\<rparr>,
     0x300 := \<lparr>l_prev = 0x10, l_next = 0x100\<rparr>,
     0x100 := \<lparr>l_prev = 0x300, l_next = 0x200\<rparr>,
     0x200 := \<lparr>l_prev = 0x100, l_next = 0x18\<rparr>,
     0x18 := \<lparr>l_prev = 0x200, l_next = 0\<rparr>,
     0x20 := \<lparr>l_prev = 0, l_next = 0x28\<rparr>,
     0x28 := \<lparr>l_prev = 0x20, l_next = 0\<rparr>)"

lemma demo_rep: "list_rep demo_links 0x10 [0x300, 0x100, 0x200]" "list_rep demo_links 0x20 []"
  by (simp_all add: list_rep_def wf_nodes_def demo_links_def head_of_def tail_of_def)

lemma demo_order: "strict_weak_order (\<lambda>a b :: ptr. a < b)"
  by unfold_locales auto

text \<open>C21. For a comparison function that is a strict weak order, \<^verbatim>\<open>list_sort\<close> on a well-formed
  list returns (every assertion it makes holds and its loops end) and leaves the list with
  the same elements in sorted order, elements that compare equal in their old order, and no
  link outside the list changed.\<close>

theorem list_sort_correct:
  assumes "strict_weak_order lt" and "list_rep m l xs"
  shows "\<exists>m' ys. list_sort l lt m = okE m' \<and> list_rep m' l ys \<and> mset ys = mset xs \<and>
    sorted_by lt ys \<and> (\<forall>z. filter (equiv_by lt z) ys = filter (equiv_by lt z) xs) \<and>
    same_outside (set (nodes_of l xs)) m m'"
  using list_order.sort_rep [OF list_order.intro [OF assms(1)] assms(2)] .

theorem list_sort_witness:
  "\<exists>m' ys. list_sort 0x10 (\<lambda>a b. a < b) demo_links = okE m' \<and> list_rep m' 0x10 ys \<and>
    mset ys = mset [0x300, 0x100, 0x200] \<and> sorted_by (\<lambda>a b. a < b) ys"
  using list_sort_correct [OF demo_order demo_rep(1)] by blast

text \<open>C25. \<^verbatim>\<open>list_reverse\<close> on a well-formed list returns and leaves the list with its elements in
  reverse order, both directions of links included, and no link outside the list changed.\<close>

theorem list_reverse_correct:
  assumes "list_rep m l xs"
  shows "\<exists>m'. list_reverse l m = okE m' \<and> list_rep m' l (rev xs) \<and>
    same_outside (set (nodes_of l xs)) m m'"
  by (rule list_reverse_rep [OF assms])

theorem list_reverse_witness:
  "\<exists>m'. list_reverse 0x10 demo_links = okE m' \<and> list_rep m' 0x10 [0x200, 0x100, 0x300]"
  using list_reverse_correct [OF demo_rep(1)] by auto

text \<open>C26. \<^verbatim>\<open>list_insert_ordered\<close> into a sorted list returns and leaves a sorted list that holds
  the new element and the old ones, the new one behind all that compare equal to it.\<close>

theorem list_insert_ordered_correct:
  assumes "strict_weak_order lt" and "list_rep m l xs" and "sorted_by lt xs"
    and "e \<noteq> NULL" and "e \<notin> set (nodes_of l xs)"
  shows "\<exists>m' us vs. list_insert_ordered l e lt m = okE m' \<and> xs = us @ vs \<and>
    list_rep m' l (us @ e # vs) \<and> sorted_by lt (us @ e # vs) \<and> (\<forall>v \<in> set vs. lt e v)"
proof -
  let ?us = "takeWhile (\<lambda>y. \<not> lt e y) xs" and ?vs = "dropWhile (\<lambda>y. \<not> lt e y) xs"
  have ord: "list_order lt" by (rule list_order.intro [OF assms(1)])
  have "\<forall>v \<in> set ?vs. lt e v" by (rule list_order.dropWhile_greater [OF ord assms(3)])
  moreover have "sorted_by lt (?us @ e # ?vs)"
    by (rule list_order.insert_ordered_sorted [OF ord assms(3)])
  ultimately show ?thesis
    using list_insert_ordered_rep [OF assms(2,4,5), of lt] by (metis takeWhile_dropWhile_id)
qed

theorem list_insert_ordered_witness:
  "\<exists>m' us vs. list_insert_ordered 0x20 0x400 (\<lambda>a b. a < b) demo_links = okE m' \<and> [] = us @ vs \<and>
    list_rep m' 0x20 (us @ 0x400 # vs)"
  using list_insert_ordered_correct [OF demo_order demo_rep(2), of "0x400"]
  by (force simp: head_of_def tail_of_def)

text \<open>\<^verbatim>\<open>list_unique\<close> with a list for the duplicates returns; no two neighbours that are left
  compare equal, and the elements left and the ones appended to the duplicates, in order, are
  together the elements there were.\<close>

theorem list_unique_correct:
  assumes "list_rep m l (x # xs)" and "list_rep m d zs" and "d \<noteq> NULL"
    and "set (nodes_of l (x # xs)) \<inter> set (nodes_of d zs) = {}"
  shows "\<exists>m' ks ds. list_unique l d lt m = okE m' \<and> list_rep m' l ks \<and> list_rep m' d (zs @ ds) \<and>
    mset ks + mset ds = mset (x # xs) \<and> (\<forall>i. Suc i < length ks \<longrightarrow> \<not> equiv_by lt (ks ! i) (ks ! Suc i))"
  using list_unique_rep [OF assms, of lt] unique_by_mset [of lt x xs] unique_by_adjacent [of lt x xs]
  by blast

theorem list_unique_witness:
  "\<exists>m' ks ds. list_unique 0x10 0x20 (\<lambda>a b. a < b) demo_links = okE m' \<and> list_rep m' 0x10 ks \<and>
    list_rep m' 0x20 ([] @ ds) \<and> mset ks + mset ds = mset [0x300, 0x100, 0x200]"
proof -
  have "set (nodes_of 0x10 [0x300, 0x100, 0x200]) \<inter> set (nodes_of 0x20 []) = {}"
    by (simp add: head_of_def tail_of_def)
  from list_unique_correct [OF demo_rep(1,2) _ this, of "\<lambda>a b. a < b"] show ?thesis by auto
qed

text \<open>C27. \<^verbatim>\<open>list_remove\<close> undoes \<^verbatim>\<open>list_insert\<close>: inserting an element before a node of a
  well-formed list and removing it again succeeds, returns that node, and restores every
  link of the store except the two of the element itself.\<close>

theorem list_insert_remove:
  assumes "list_rep m l (xs @ ys)" and "e \<noteq> NULL" and "e \<notin> set (nodes_of l (xs @ ys))"
  shows "\<exists>m' m''. list_insert (list_first l ys) e m = Inr m' \<and> list_rep m' l (xs @ e # ys) \<and>
    list_remove e m' = Inr (list_first l ys, m'') \<and> list_rep m'' l (xs @ ys) \<and> same_outside {e} m m''"
  by (rule list_insert_remove_rep [OF assms])

theorem list_insert_remove_witness:
  "\<exists>m' m''. list_insert 0x18 0x400 demo_links = Inr m' \<and> list_remove 0x400 m' = Inr (0x18, m'') \<and>
    same_outside {0x400} demo_links m''"
  using list_insert_remove [of demo_links "0x10" "[0x300, 0x100, 0x200]" "[]" "0x400"] demo_rep(1)
  by (force simp: head_of_def tail_of_def)

end
