(* ===== verification/Kbitmap.thy ===== *)
theory Kbitmap
  imports Prelude
begin

text \<open>
  The bitmaps of \<^verbatim>\<open>lib/kernel/bitmap.c\<close>: an array of 32-bit elements (\<^verbatim>\<open>unsigned long\<close> on the
  i386) that simulates an array of bits. \<open>bm_bits b\<close> is the sequence of bits a bitmap stands
  for; the operations refine the corresponding operations on that sequence.

  The storage of a bitmap comes from the allocator. The blocks \<^verbatim>\<open>malloc\<close> returned, with their
  arbitrary contents, are arguments of \<open>bitmap_create\<close>; an access past the last element of the
  array is \<open>Bad_access\<close>.
\<close>

section \<open>Data\<close>

record bitmap =
  bit_cnt :: u32
  bits :: "u32 list"

definition BITMAP_ERROR :: u32 where "BITMAP_ERROR = 0xFFFFFFFF"

definition ELEM_BITS :: u32 where "ELEM_BITS = 4 * 8"

definition DIV_ROUND_UP :: "u32 \<Rightarrow> u32 \<Rightarrow> u32" where
  "DIV_ROUND_UP x step = (x + step - 1) div step"

definition elem_idx :: "u32 \<Rightarrow> u32" where
  "elem_idx bit_idx = bit_idx div ELEM_BITS"

definition bit_mask :: "u32 \<Rightarrow> u32" where
  "bit_mask bit_idx = push_bit (unat (bit_idx mod ELEM_BITS)) 1"

definition elem_cnt :: "u32 \<Rightarrow> u32" where
  "elem_cnt bc = DIV_ROUND_UP bc ELEM_BITS"

definition byte_cnt :: "u32 \<Rightarrow> u32" where
  "byte_cnt bc = 4 * elem_cnt bc"

definition last_mask :: "bitmap \<Rightarrow> u32" where
  "last_mask b = (let last_bits = bit_cnt b mod ELEM_BITS
     in if last_bits \<noteq> 0 then push_bit (unat last_bits) 1 - 1 else - 1)"

definition bitmap_buf_size :: "u32 \<Rightarrow> u32" where
  "bitmap_buf_size bc = 8 + byte_cnt bc"

definition bitmap_size :: "bitmap \<Rightarrow> u32" where
  "bitmap_size b = bit_cnt b"

section \<open>Single bits\<close>

text \<open>Each of the three updates is one read-modify-write instruction on the element.\<close>

definition update_elem :: "bitmap \<Rightarrow> u32 \<Rightarrow> (u32 \<Rightarrow> u32) \<Rightarrow> bitmap res" where
  "update_elem b idx f =
     (if unat idx < length (bits b)
      then Inr (b\<lparr>bits := (bits b)[unat idx := f (bits b ! unat idx)]\<rparr>)
      else Inl Bad_access)"

definition bitmap_mark :: "bitmap \<Rightarrow> u32 \<Rightarrow> bitmap res" where
  "bitmap_mark b bit_idx =
     (let idx = elem_idx bit_idx; mask = bit_mask bit_idx
      in update_elem b idx (\<lambda>e. e OR mask))"

definition bitmap_reset :: "bitmap \<Rightarrow> u32 \<Rightarrow> bitmap res" where
  "bitmap_reset b bit_idx =
     (let idx = elem_idx bit_idx; mask = bit_mask bit_idx
      in update_elem b idx (\<lambda>e. e AND NOT mask))"

definition bitmap_flip :: "bitmap \<Rightarrow> u32 \<Rightarrow> bitmap res" where
  "bitmap_flip b bit_idx =
     (let idx = elem_idx bit_idx; mask = bit_mask bit_idx
      in update_elem b idx (\<lambda>e. e XOR mask))"

definition bitmap_set :: "bitmap \<Rightarrow> u32 \<Rightarrow> bool \<Rightarrow> bitmap res" where
  "bitmap_set b idx value = require (idx < bit_cnt b)
     (if value then bitmap_mark b idx else bitmap_reset b idx)"

definition bitmap_test :: "bitmap \<Rightarrow> u32 \<Rightarrow> bool res" where
  "bitmap_test b idx = require (idx < bit_cnt b)
     (if unat (elem_idx idx) < length (bits b)
      then Inr (bits b ! unat (elem_idx idx) AND bit_mask idx \<noteq> 0)
      else Inl Bad_access)"

section \<open>Groups of bits\<close>

function bitmap_set_multiple_loop :: "bitmap \<Rightarrow> u32 \<Rightarrow> u32 \<Rightarrow> bool \<Rightarrow> u32 \<Rightarrow> bitmap res" where
  "bitmap_set_multiple_loop b start cnt value i =
     (if i < cnt
      then bindR (bitmap_set b (start + i) value) (\<lambda>b.
             bitmap_set_multiple_loop b start cnt value (i + 1))
      else Inr b)"
  by pat_completeness auto
termination
  by (relation "measure (\<lambda>(b, start, cnt, value, i). unat cnt - unat i)") (auto simp: count_up)

definition bitmap_set_multiple :: "bitmap \<Rightarrow> u32 \<Rightarrow> u32 \<Rightarrow> bool \<Rightarrow> bitmap res" where
  "bitmap_set_multiple b start cnt value =
     require (start \<le> bit_cnt b) (require (start + cnt \<le> bit_cnt b)
       (bitmap_set_multiple_loop b start cnt value 0))"

definition bitmap_set_all :: "bitmap \<Rightarrow> bool \<Rightarrow> bitmap res" where
  "bitmap_set_all b value = bitmap_set_multiple b 0 (bitmap_size b) value"

function bitmap_count_loop :: "bitmap \<Rightarrow> u32 \<Rightarrow> u32 \<Rightarrow> bool \<Rightarrow> u32 \<Rightarrow> u32 \<Rightarrow> u32 res" where
  "bitmap_count_loop b start cnt value value_cnt i =
     (if i < cnt
      then bindR (bitmap_test b (start + i)) (\<lambda>t.
             bitmap_count_loop b start cnt value
               (if t = value then value_cnt + 1 else value_cnt) (i + 1))
      else Inr value_cnt)"
  by pat_completeness auto
termination
  by (relation "measure (\<lambda>(b, start, cnt, value, value_cnt, i). unat cnt - unat i)")
    (auto simp: count_up)

definition bitmap_count :: "bitmap \<Rightarrow> u32 \<Rightarrow> u32 \<Rightarrow> bool \<Rightarrow> u32 res" where
  "bitmap_count b start cnt value =
     require (start \<le> bit_cnt b) (require (start + cnt \<le> bit_cnt b)
       (bitmap_count_loop b start cnt value 0 0))"

function bitmap_contains_loop :: "bitmap \<Rightarrow> u32 \<Rightarrow> u32 \<Rightarrow> bool \<Rightarrow> u32 \<Rightarrow> bool res" where
  "bitmap_contains_loop b start cnt value i =
     (if i < cnt
      then bindR (bitmap_test b (start + i)) (\<lambda>t.
             if t = value then Inr True
             else bitmap_contains_loop b start cnt value (i + 1))
      else Inr False)"
  by pat_completeness auto
termination
  by (relation "measure (\<lambda>(b, start, cnt, value, i). unat cnt - unat i)") (auto simp: count_up)

definition bitmap_contains :: "bitmap \<Rightarrow> u32 \<Rightarrow> u32 \<Rightarrow> bool \<Rightarrow> bool res" where
  "bitmap_contains b start cnt value =
     require (start \<le> bit_cnt b) (require (start + cnt \<le> bit_cnt b)
       (bitmap_contains_loop b start cnt value 0))"

definition bitmap_any :: "bitmap \<Rightarrow> u32 \<Rightarrow> u32 \<Rightarrow> bool res" where
  "bitmap_any b start cnt = bitmap_contains b start cnt True"

definition bitmap_none :: "bitmap \<Rightarrow> u32 \<Rightarrow> u32 \<Rightarrow> bool res" where
  "bitmap_none b start cnt = bindR (bitmap_contains b start cnt True) (\<lambda>c. Inr (\<not> c))"

definition bitmap_all :: "bitmap \<Rightarrow> u32 \<Rightarrow> u32 \<Rightarrow> bool res" where
  "bitmap_all b start cnt = bindR (bitmap_contains b start cnt False) (\<lambda>c. Inr (\<not> c))"

section \<open>Searching\<close>

partial_function (option) bitmap_scan_loop ::
    "bitmap \<Rightarrow> u32 \<Rightarrow> bool \<Rightarrow> u32 \<Rightarrow> u32 \<Rightarrow> u32 exec" where
  "bitmap_scan_loop b cnt value lst i =
     (if i \<le> lst
      then bindE (Some (bitmap_contains b i cnt (\<not> value))) (\<lambda>c.
             if \<not> c then okE i else bitmap_scan_loop b cnt value lst (i + 1))
      else okE BITMAP_ERROR)"

definition bitmap_scan :: "bitmap \<Rightarrow> u32 \<Rightarrow> u32 \<Rightarrow> bool \<Rightarrow> u32 exec" where
  "bitmap_scan b start cnt value = requireE (start \<le> bit_cnt b)
     (if cnt \<le> bit_cnt b
      then bitmap_scan_loop b cnt value (bit_cnt b - cnt) start
      else okE BITMAP_ERROR)"

definition bitmap_scan_and_flip ::
    "bitmap \<Rightarrow> u32 \<Rightarrow> u32 \<Rightarrow> bool \<Rightarrow> (u32 \<times> bitmap) exec" where
  "bitmap_scan_and_flip b start cnt value = bindE (bitmap_scan b start cnt value) (\<lambda>idx.
     bindE (if idx \<noteq> BITMAP_ERROR then Some (bitmap_set_multiple b idx cnt (\<not> value)) else okE b)
       (\<lambda>b. okE (idx, b)))"

section \<open>Creation\<close>

definition bitmap_create :: "bool \<Rightarrow> u32 list option \<Rightarrow> u32 \<Rightarrow> bitmap option res" where
  "bitmap_create struct_ok block bc =
     (if struct_ok
      then case block of
          Some raw \<Rightarrow> bindR (bitmap_set_all \<lparr>bit_cnt = bc, bits = raw\<rparr> False) (\<lambda>b. Inr (Some b))
        | None \<Rightarrow> if bc = 0
            then bindR (bitmap_set_all \<lparr>bit_cnt = bc, bits = []\<rparr> False) (\<lambda>b. Inr (Some b))
            else Inr None
      else Inr None)"

definition bitmap_create_in_buf :: "u32 \<Rightarrow> u32 list \<Rightarrow> u32 \<Rightarrow> bitmap res" where
  "bitmap_create_in_buf bc block block_size =
     require (bitmap_buf_size bc \<le> block_size)
       (bitmap_set_all \<lparr>bit_cnt = bc, bits = drop 2 block\<rparr> False)"

section \<open>The sequence of bits\<close>

definition bit_at :: "bitmap \<Rightarrow> nat \<Rightarrow> bool" where
  "bit_at b i = bit (bits b ! (i div 32)) (i mod 32)"

definition bm_bits :: "bitmap \<Rightarrow> bool list" where
  "bm_bits b = map (bit_at b) [0..<unat (bit_cnt b)]"

definition bm_wf :: "bitmap \<Rightarrow> bool" where
  "bm_wf b \<longleftrightarrow> unat (bit_cnt b) \<le> 32 * length (bits b)"

lemma length_bm_bits [simp]: "length (bm_bits b) = unat (bit_cnt b)"
  by (simp add: bm_bits_def)

lemma nth_bm_bits: "i < unat (bit_cnt b) \<Longrightarrow> bm_bits b ! i = bit_at b i"
  by (simp add: bm_bits_def)

lemma unat_elem_idx: "unat (elem_idx i) = unat i div 32"
  by (simp add: elem_idx_def ELEM_BITS_def unat_div)

lemma bit_mask_bit: "bit (bit_mask i) k \<longleftrightarrow> k = unat i mod 32"
proof -
  have "unat (i mod ELEM_BITS) = unat i mod 32" by (simp add: ELEM_BITS_def unat_mod)
  moreover have "unat i mod 32 < 32" by simp
  ultimately show ?thesis
    by (auto simp: bit_mask_def bit_exp_iff)
qed

lemma and_bit_mask: "(e AND bit_mask i \<noteq> 0) = bit e (unat i mod 32)"
proof -
  have "bit (e AND bit_mask i) k = (k = unat i mod 32 \<and> bit e k)" for k
    by (auto simp: bit_and_iff bit_mask_bit)
  then show ?thesis by (metis bit_0_eq bit_eqI bot_apply bot_bool_def)
qed

lemma elem_in_range:
  assumes "bm_wf b" "idx < bit_cnt b"
  shows "unat idx div 32 < length (bits b)"
  using assms by (simp add: bm_wf_def unat_elem_idx word_less_nat_alt)

lemma bitmap_test_bits:
  assumes "bm_wf b" "idx < bit_cnt b"
  shows "bitmap_test b idx = Inr (bm_bits b ! unat idx)"
  using assms elem_in_range [OF assms] by (simp add: bitmap_test_def and_bit_mask nth_bm_bits word_less_nat_alt
      bit_at_def unat_elem_idx)

lemma update_elem_bits:
  assumes wf: "bm_wf b" and idx: "idx < bit_cnt b"
    and f: "\<And>e k. k < 32 \<Longrightarrow> bit (f e) k = (if k = unat idx mod 32 then v (bit e k) else bit e k)"
  shows "\<exists>b'. update_elem b (elem_idx idx) f = Inr b' \<and> bm_wf b' \<and> bit_cnt b' = bit_cnt b \<and>
    bm_bits b' = (bm_bits b)[unat idx := v (bm_bits b ! unat idx)]"
proof -
  let ?n = "unat idx div 32"
  let ?b = "b\<lparr>bits := (bits b)[?n := f (bits b ! ?n)]\<rparr>"
  have n: "?n < length (bits b)" by (rule elem_in_range [OF wf idx])
  have "bit_at ?b i = (if i = unat idx then v (bit_at b i) else bit_at b i)" for i
  proof (cases "i div 32 = ?n")
    case True
    moreover have "i mod 32 = unat idx mod 32 \<longleftrightarrow> i = unat idx"
      using True by (metis div_mult_mod_eq)
    ultimately show ?thesis using n f [of "i mod 32"] by (auto simp: bit_at_def)
  next
    case False
    then show ?thesis by (auto simp: bit_at_def)
  qed
  then have "bm_bits ?b = (bm_bits b)[unat idx := v (bm_bits b ! unat idx)]"
    using idx by (intro nth_equalityI) (simp_all add: nth_bm_bits nth_list_update word_less_nat_alt)
  moreover have "update_elem b (elem_idx idx) f = Inr ?b"
    using n by (simp add: update_elem_def unat_elem_idx)
  ultimately show ?thesis using wf by (auto simp: bm_wf_def)
qed

lemma bitmap_set_bits:
  assumes "bm_wf b" "idx < bit_cnt b"
  shows "\<exists>b'. bitmap_set b idx v = Inr b' \<and> bm_wf b' \<and> bit_cnt b' = bit_cnt b \<and>
    bm_bits b' = (bm_bits b)[unat idx := v]"
proof (cases v)
  case True
  then show ?thesis
    using update_elem_bits [OF assms, of "\<lambda>e. e OR bit_mask idx" "\<lambda>_. True"] assms(2)
    by (simp add: bitmap_set_def bitmap_mark_def Let_def bit_or_iff bit_mask_bit)
next
  case False
  then show ?thesis
    using update_elem_bits [OF assms, of "\<lambda>e. e AND NOT (bit_mask idx)" "\<lambda>_. False"] assms(2)
    by (simp add: bitmap_set_def bitmap_reset_def Let_def bit_and_iff bit_not_iff bit_mask_bit)
qed

lemma bitmap_flip_bits:
  assumes "bm_wf b" "idx < bit_cnt b"
  shows "\<exists>b'. bitmap_flip b idx = Inr b' \<and> bm_wf b' \<and> bit_cnt b' = bit_cnt b \<and>
    bm_bits b' = (bm_bits b)[unat idx := \<not> bm_bits b ! unat idx]"
  using update_elem_bits [OF assms, of "\<lambda>e. e XOR bit_mask idx" Not] assms(2)
  by (auto simp: bitmap_flip_def Let_def bit_xor_iff bit_mask_bit)

section \<open>Groups of bits, on the sequence\<close>

definition bm_range :: "bitmap \<Rightarrow> u32 \<Rightarrow> u32 \<Rightarrow> bool" where
  "bm_range b start cnt \<longleftrightarrow> unat start + unat cnt \<le> unat (bit_cnt b)"

lemma unat_add_range: "unat (a :: u32) + unat c \<le> unat (n :: u32) \<Longrightarrow> unat (a + c) = unat a + unat c"
  using unat_lt2p [of n] by (simp add: unat_word_ariths)

lemma bm_range_checks:
  assumes "bm_range b start cnt"
  shows "start \<le> bit_cnt b" "start + cnt \<le> bit_cnt b"
  using assms unat_add_range [of start cnt "bit_cnt b"]
  by (simp_all add: bm_range_def word_le_nat_alt)

lemma bm_range_index:
  assumes "bm_range b start cnt" "i < cnt"
  shows "unat (start + i) = unat start + unat i" "start + i < bit_cnt b"
proof -
  have "unat start + unat i < unat (bit_cnt b)"
    using assms by (simp add: bm_range_def word_less_nat_alt)
  then show "unat (start + i) = unat start + unat i" "start + i < bit_cnt b"
    using unat_add_range [of start i "bit_cnt b"] by (simp_all add: word_less_nat_alt)
qed

declare bitmap_set_multiple_loop.simps [simp del] bitmap_contains_loop.simps [simp del]
  bitmap_count_loop.simps [simp del]

lemma bitmap_set_multiple_loop_bits:
  assumes "bm_wf b" "bm_range b start cnt"
  shows "\<exists>b'. bitmap_set_multiple_loop b start cnt v i = Inr b' \<and> bm_wf b' \<and>
    bit_cnt b' = bit_cnt b \<and> (\<forall>j < unat (bit_cnt b). bm_bits b' ! j =
      (if unat start + unat i \<le> j \<and> j < unat start + unat cnt then v else bm_bits b ! j))"
  using assms
proof (induction b start cnt v i rule: bitmap_set_multiple_loop.induct)
  case (1 b start cnt v i)
  show ?case
  proof (cases "i < cnt")
    case False
    then have "unat cnt \<le> unat i" by (simp add: word_less_nat_alt)
    then show ?thesis using 1(2) False by (subst bitmap_set_multiple_loop.simps) auto
  next
    case True
    note ix = bm_range_index [OF 1(3) True]
    obtain b1 where b1: "bitmap_set b (start + i) v = Inr b1" "bm_wf b1" "bit_cnt b1 = bit_cnt b"
        "bm_bits b1 = (bm_bits b)[unat start + unat i := v]"
      using bitmap_set_bits [OF 1(2) ix(2)] ix(1) by auto
    have "bm_range b1 start cnt" using 1(3) b1(3) by (simp add: bm_range_def)
    then obtain b' where b': "bitmap_set_multiple_loop b1 start cnt v (i + 1) = Inr b'" "bm_wf b'"
        "bit_cnt b' = bit_cnt b" "\<forall>j < unat (bit_cnt b). bm_bits b' ! j =
          (if unat start + unat (i + 1) \<le> j \<and> j < unat start + unat cnt then v else bm_bits b1 ! j)"
      using 1(1) [OF True b1(2)] b1(3) by auto
    have "unat (i + 1) = Suc (unat i)" "unat i < unat cnt"
      using True unat_succ [OF True] by (simp_all add: word_less_nat_alt)
    then have "\<forall>j < unat (bit_cnt b). bm_bits b' ! j =
        (if unat start + unat i \<le> j \<and> j < unat start + unat cnt then v else bm_bits b ! j)"
      using b'(4) b1(4) by (auto simp: nth_list_update)
    moreover have "bitmap_set_multiple_loop b start cnt v i = Inr b'"
      using True b1(1) b'(1) by (subst bitmap_set_multiple_loop.simps) simp
    ultimately show ?thesis using b'(2,3) by blast
  qed
qed

definition fill :: "nat \<Rightarrow> nat \<Rightarrow> 'a \<Rightarrow> 'a list \<Rightarrow> 'a list" where
  "fill s n v xs = take s xs @ replicate n v @ drop (s + n) xs"

lemma length_fill: "s + n \<le> length xs \<Longrightarrow> length (fill s n v xs) = length xs"
  by (simp add: fill_def)

lemma nth_fill:
  assumes "s + n \<le> length xs" "j < length xs"
  shows "fill s n v xs ! j = (if s \<le> j \<and> j < s + n then v else xs ! j)"
  using assms by (auto simp: fill_def nth_append min_def)

lemma bitmap_set_multiple_bits:
  assumes "bm_wf b" "bm_range b start cnt"
  shows "\<exists>b'. bitmap_set_multiple b start cnt v = Inr b' \<and> bm_wf b' \<and> bit_cnt b' = bit_cnt b \<and>
    bm_bits b' = fill (unat start) (unat cnt) v (bm_bits b)"
proof -
  obtain b' where b': "bitmap_set_multiple_loop b start cnt v 0 = Inr b'" "bm_wf b'"
      "bit_cnt b' = bit_cnt b" "\<forall>j < unat (bit_cnt b). bm_bits b' ! j =
        (if unat start \<le> j \<and> j < unat start + unat cnt then v else bm_bits b ! j)"
    using bitmap_set_multiple_loop_bits [OF assms, of v 0] by auto
  have "unat start + unat cnt \<le> length (bm_bits b)" using assms(2) by (simp add: bm_range_def)
  then have "bm_bits b' = fill (unat start) (unat cnt) v (bm_bits b)"
    using b'(3,4) by (intro nth_equalityI) (simp_all add: length_fill nth_fill)
  then show ?thesis using b' bm_range_checks [OF assms(2)] by (simp add: bitmap_set_multiple_def)
qed

lemma bitmap_set_all_bits:
  assumes "bm_wf b"
  shows "\<exists>b'. bitmap_set_all b v = Inr b' \<and> bm_wf b' \<and> bit_cnt b' = bit_cnt b \<and>
    bm_bits b' = replicate (unat (bit_cnt b)) v"
  using bitmap_set_multiple_bits [OF assms, of 0 "bit_cnt b" v]
  by (simp add: bitmap_set_all_def bitmap_size_def bm_range_def fill_def)

lemma bitmap_contains_loop_bits:
  assumes "bm_wf b" "bm_range b start cnt"
  shows "bitmap_contains_loop b start cnt v i =
    Inr (\<exists>j. unat start + unat i \<le> j \<and> j < unat start + unat cnt \<and> bm_bits b ! j = v)"
  using assms
proof (induction b start cnt v i rule: bitmap_contains_loop.induct)
  case (1 b start cnt v i)
  show ?case
  proof (cases "i < cnt")
    case False
    then have "unat cnt \<le> unat i" by (simp add: word_less_nat_alt)
    then show ?thesis using False by (subst bitmap_contains_loop.simps) auto
  next
    case True
    note ix = bm_range_index [OF 1(3) True]
    have t: "bitmap_test b (start + i) = Inr (bm_bits b ! (unat start + unat i))"
      using bitmap_test_bits [OF 1(2) ix(2)] ix(1) by simp
    have i: "unat (i + 1) = Suc (unat i)" "unat i < unat cnt"
      using True unat_succ [OF True] by (simp_all add: word_less_nat_alt)
    show ?thesis
    proof (cases "bm_bits b ! (unat start + unat i) = v")
      case hit: True
      then have "\<exists>j. unat start + unat i \<le> j \<and> j < unat start + unat cnt \<and> bm_bits b ! j = v"
        using i(2) by (intro exI [of _ "unat start + unat i"]) simp
      moreover have "bitmap_contains_loop b start cnt v i = Inr True"
        using True t hit by (subst bitmap_contains_loop.simps) simp
      ultimately show ?thesis by simp
    next
      case miss: False
      have "(\<exists>j. unat start + unat (i + 1) \<le> j \<and> j < unat start + unat cnt \<and> bm_bits b ! j = v) =
          (\<exists>j. unat start + unat i \<le> j \<and> j < unat start + unat cnt \<and> bm_bits b ! j = v)"
        using miss i(1) by (metis add_Suc_right le_neq_implies_less Suc_leI Suc_leD)
      moreover have "bitmap_contains_loop b start cnt v i = bitmap_contains_loop b start cnt v (i + 1)"
        using True t miss by (subst bitmap_contains_loop.simps) simp
      ultimately show ?thesis using 1(1) [OF True miss 1(2,3)] by simp
    qed
  qed
qed

lemma bitmap_contains_bits:
  assumes "bm_wf b" "bm_range b start cnt"
  shows "bitmap_contains b start cnt v =
    Inr (\<exists>j. unat start \<le> j \<and> j < unat start + unat cnt \<and> bm_bits b ! j = v)"
  using bitmap_contains_loop_bits [OF assms, of v 0] bm_range_checks [OF assms(2)]
  by (simp add: bitmap_contains_def)

text \<open>The first group of \<open>cnt\<close> equal bits at or after \<open>start\<close>.\<close>

definition group_at :: "bitmap \<Rightarrow> nat \<Rightarrow> bool \<Rightarrow> nat \<Rightarrow> bool" where
  "group_at b cnt v i \<longleftrightarrow> (\<forall>j. i \<le> j \<and> j < i + cnt \<longrightarrow> bm_bits b ! j = v)"

lemma bitmap_contains_group:
  assumes "bm_wf b" "bm_range b i cnt"
  shows "bitmap_contains b i cnt (\<not> v) = Inr (\<not> group_at b (unat cnt) v (unat i))"
  using bitmap_contains_bits [OF assms, of "\<not> v"] by (auto simp: group_at_def)

lemma bitmap_scan_loop_bits:
  assumes wf: "bm_wf b" and lst: "unat lst + unat cnt = unat (bit_cnt b)"
    and ok: "0 < unat cnt"
  shows "\<exists>r. bitmap_scan_loop b cnt v lst i = okE r \<and>
    (if r = BITMAP_ERROR then \<forall>k. unat i \<le> k \<and> k \<le> unat lst \<longrightarrow> \<not> group_at b (unat cnt) v k
     else unat i \<le> unat r \<and> unat r \<le> unat lst \<and> group_at b (unat cnt) v (unat r) \<and>
       (\<forall>k. unat i \<le> k \<and> k < unat r \<longrightarrow> \<not> group_at b (unat cnt) v k))"
proof (induction "Suc (unat lst) - unat i" arbitrary: i)
  case 0
  then have "\<not> i \<le> lst" by (simp add: word_le_nat_alt)
  then show ?case using 0 by (subst bitmap_scan_loop.simps) auto
next
  case (Suc n)
  then have le: "unat i \<le> unat lst" by simp
  have max: "unat lst < 2 ^ 32 - 1" using lst ok unat_lt2p [of "bit_cnt b"] by simp
  have c: "bitmap_contains b i cnt (\<not> v) = Inr (\<not> group_at b (unat cnt) v (unat i))"
    using le lst by (intro bitmap_contains_group [OF wf]) (simp add: bm_range_def)
  show ?case
  proof (cases "group_at b (unat cnt) v (unat i)")
    case True
    have "unat i \<noteq> unat BITMAP_ERROR" using le max by (simp add: BITMAP_ERROR_def)
    then have "i \<noteq> BITMAP_ERROR" by auto
    moreover have "bitmap_scan_loop b cnt v lst i = okE i"
      using le c True by (subst bitmap_scan_loop.simps) (simp add: word_le_nat_alt)
    ultimately show ?thesis using True le by auto
  next
    case False
    have i1: "unat (i + 1) = Suc (unat i)"
      using le max by (simp add: unat_word_ariths)
    then have "n = Suc (unat lst) - unat (i + 1)" using Suc(2) by simp
    note IH = Suc(1) [OF this, unfolded i1]
    have "bitmap_scan_loop b cnt v lst i = bitmap_scan_loop b cnt v lst (i + 1)"
      using le c False by (subst bitmap_scan_loop.simps) (simp add: word_le_nat_alt)
    moreover have "\<not> group_at b (unat cnt) v k" if "unat i \<le> k" "k < Suc (unat i)" for k
      using False that by (metis le_antisym less_Suc_eq_le)
    ultimately show ?thesis using IH by (metis Suc_leD not_less_eq_eq not_le)
  qed
qed

lemma bitmap_scan_bits:
  assumes wf: "bm_wf b" and start: "start \<le> bit_cnt b" and cnt: "0 < cnt"
  shows "\<exists>r. bitmap_scan b start cnt v = okE r \<and>
    (if r = BITMAP_ERROR
     then \<forall>k. unat start \<le> k \<and> k + unat cnt \<le> unat (bit_cnt b) \<longrightarrow> \<not> group_at b (unat cnt) v k
     else unat start \<le> unat r \<and> bm_range b r cnt \<and> group_at b (unat cnt) v (unat r) \<and>
       (\<forall>k. unat start \<le> k \<and> k < unat r \<longrightarrow> \<not> group_at b (unat cnt) v k))"
proof (cases "cnt \<le> bit_cnt b")
  case False
  then have "unat (bit_cnt b) < unat cnt" by (simp add: word_le_nat_alt)
  then show ?thesis using start False by (auto simp: bitmap_scan_def)
next
  case True
  then have l: "unat (bit_cnt b - cnt) + unat cnt = unat (bit_cnt b)"
    by (simp add: unat_sub word_le_nat_alt)
  have "0 < unat cnt" using cnt by (simp add: word_less_nat_alt)
  from bitmap_scan_loop_bits [OF wf l this, of v start] show ?thesis
    using start True l by (auto simp: bitmap_scan_def bm_range_def split: if_splits)
qed

lemma bitmap_scan_and_flip_bits:
  assumes wf: "bm_wf b" and start: "start \<le> bit_cnt b" and cnt: "0 < cnt"
  shows "\<exists>r b'. bitmap_scan_and_flip b start cnt v = okE (r, b') \<and> bm_wf b' \<and>
    bit_cnt b' = bit_cnt b \<and>
    (if r = BITMAP_ERROR
     then b' = b \<and>
       (\<forall>k. unat start \<le> k \<and> k + unat cnt \<le> unat (bit_cnt b) \<longrightarrow> \<not> group_at b (unat cnt) v k)
     else unat start \<le> unat r \<and> bm_range b r cnt \<and> group_at b (unat cnt) v (unat r) \<and>
       (\<forall>k. unat start \<le> k \<and> k < unat r \<longrightarrow> \<not> group_at b (unat cnt) v k) \<and>
       bm_bits b' = fill (unat r) (unat cnt) (\<not> v) (bm_bits b))"
proof -
  obtain r where r: "bitmap_scan b start cnt v = okE r"
    "if r = BITMAP_ERROR
     then \<forall>k. unat start \<le> k \<and> k + unat cnt \<le> unat (bit_cnt b) \<longrightarrow> \<not> group_at b (unat cnt) v k
     else unat start \<le> unat r \<and> bm_range b r cnt \<and> group_at b (unat cnt) v (unat r) \<and>
       (\<forall>k. unat start \<le> k \<and> k < unat r \<longrightarrow> \<not> group_at b (unat cnt) v k)"
    using bitmap_scan_bits [OF assms, of v] by blast
  show ?thesis
  proof (cases "r = BITMAP_ERROR")
    case True
    then show ?thesis using r wf by (simp add: bitmap_scan_and_flip_def)
  next
    case False
    then obtain b' where "bitmap_set_multiple b r cnt (\<not> v) = Inr b'" "bm_wf b'"
        "bit_cnt b' = bit_cnt b" "bm_bits b' = fill (unat r) (unat cnt) (\<not> v) (bm_bits b)"
      using bitmap_set_multiple_bits [OF wf, of r cnt "\<not> v"] r(2) by auto
    then show ?thesis using False r by (simp add: bitmap_scan_and_flip_def)
  qed
qed

text \<open>An empty group is found at once, wherever the search starts.\<close>

lemma bitmap_scan_zero:
  assumes "start \<le> bit_cnt b"
  shows "bitmap_scan_and_flip b start 0 v = okE (start, b)"
proof -
  have c: "bitmap_contains b start 0 (\<not> v) = Inr False"
    using assms by (simp add: bitmap_contains_def bitmap_contains_loop.simps)
  have "bitmap_scan b start 0 v = okE start"
    using assms c by (simp add: bitmap_scan_def bitmap_scan_loop.simps)
  moreover have "bitmap_set_multiple b start 0 (\<not> v) = Inr b"
    using assms by (simp add: bitmap_set_multiple_def bitmap_set_multiple_loop.simps)
  ultimately show ?thesis by (simp add: bitmap_scan_and_flip_def)
qed

lemma bitmap_count_loop_bits:
  assumes "bm_wf b" "bm_range b start cnt" "i \<le> cnt"
  shows "bitmap_count_loop b start cnt v c i =
    Inr (c + of_nat (card {j. unat start + unat i \<le> j \<and> j < unat start + unat cnt \<and> bm_bits b ! j = v}))"
  using assms
proof (induction b start cnt v c i rule: bitmap_count_loop.induct)
  case (1 b start cnt v c i)
  let ?S = "\<lambda>k. {j. unat start + k \<le> j \<and> j < unat start + unat cnt \<and> bm_bits b ! j = v}"
  show ?case
  proof (cases "i < cnt")
    case False
    then have "?S (unat i) = {}" by (auto simp: word_less_nat_alt)
    then show ?thesis using False by (subst bitmap_count_loop.simps) (simp only: card.empty if_False, simp)
  next
    case True
    note ix = bm_range_index [OF 1(3) True]
    have t: "bitmap_test b (start + i) = Inr (bm_bits b ! (unat start + unat i))"
      using bitmap_test_bits [OF 1(2) ix(2)] ix(1) by simp
    have i: "unat (i + 1) = Suc (unat i)" "unat i < unat cnt"
      using True unat_succ [OF True] by (simp_all add: word_less_nat_alt)
    have "?S (unat i) = (if bm_bits b ! (unat start + unat i) = v
        then insert (unat start + unat i) (?S (Suc (unat i))) else ?S (Suc (unat i)))"
      using i(2) by (auto simp: Suc_le_eq le_less)
    moreover have "finite (?S (Suc (unat i)))" by simp
    ultimately have "card (?S (unat i)) =
        (if bm_bits b ! (unat start + unat i) = v then 1 else 0) + card (?S (Suc (unat i)))"
      by simp
    moreover have "i + 1 \<le> cnt" using i by (simp add: word_le_nat_alt)
    ultimately show ?thesis
      using 1(1) [OF True, of "bm_bits b ! (unat start + unat i)"] 1(2,3) True t i(1)
      by (subst bitmap_count_loop.simps) (auto simp: ac_simps)
  qed
qed

lemma bitmap_count_bits:
  assumes "bm_wf b" "bm_range b start cnt"
  shows "bitmap_count b start cnt v =
    Inr (of_nat (card {j. unat start \<le> j \<and> j < unat start + unat cnt \<and> bm_bits b ! j = v}))"
  using bitmap_count_loop_bits [OF assms, of 0 v 0] bm_range_checks [OF assms(2)]
  by (simp add: bitmap_count_def)

lemma bitmap_create_bits:
  assumes "unat bc \<le> 32 * length raw"
  shows "\<exists>b. bitmap_create True (Some raw) bc = Inr (Some b) \<and> bm_wf b \<and> bit_cnt b = bc \<and>
    bm_bits b = replicate (unat bc) False"
  using bitmap_set_all_bits [of "\<lparr>bit_cnt = bc, bits = raw\<rparr>" False] assms
  by (auto simp: bitmap_create_def bm_wf_def)

end
