(* ===== verification/Khash.thy ===== *)
theory Khash
  imports Weak_Order
begin

text \<open>
  The chained hash tables of \<^verbatim>\<open>lib/kernel/hash.c\<close>. A bucket is an intrusive list; here it is
  the sequence of elements that list represents, with \<^verbatim>\<open>list_push_front\<close>, \<^verbatim>\<open>list_remove\<close> and the
  walks replaced by the operations they refine (theories \<open>Klist_Ops\<close> and \<open>Klist_Algs\<close>).
  Elements are compared as pointers by \<open>=\<close> and as values by the table's comparison function.
  The table's hash function \<open>hf\<close> and comparison function \<open>lt\<close> are arguments; \<open>mem\<close> says
  whether the \<^verbatim>\<open>malloc\<close> call of the operation succeeded.
\<close>

section \<open>Data\<close>

record 'e hash =
  elem_cnt :: u32
  bucket_cnt :: u32
  buckets :: "'e list list"

type_synonym 'e hash_hash_func = "'e \<Rightarrow> u32"
type_synonym 'e hash_less_func = "'e \<Rightarrow> 'e \<Rightarrow> bool"

section \<open>Search\<close>

definition bucket_idx :: "'e hash_hash_func \<Rightarrow> 'e hash \<Rightarrow> 'e \<Rightarrow> u32" where
  "bucket_idx hf h e = hf e AND (bucket_cnt h - 1)"

definition bucket_at :: "'e hash \<Rightarrow> u32 \<Rightarrow> 'e list res" where
  "bucket_at h i = (if unat i < length (buckets h) then Inr (buckets h ! unat i) else Inl Bad_access)"

definition set_bucket :: "'e hash \<Rightarrow> u32 \<Rightarrow> 'e list \<Rightarrow> 'e hash" where
  "set_bucket h i xs = h\<lparr>buckets := (buckets h)[unat i := xs]\<rparr>"

fun find_elem :: "'e hash_less_func \<Rightarrow> 'e list \<Rightarrow> 'e \<Rightarrow> 'e option" where
  "find_elem lt [] e = None"
| "find_elem lt (hi # bucket) e =
     (if \<not> lt hi e \<and> \<not> lt e hi then Some hi else find_elem lt bucket e)"

definition hash_find :: "'e hash_hash_func \<Rightarrow> 'e hash_less_func \<Rightarrow> 'e hash \<Rightarrow> 'e \<Rightarrow> 'e option res" where
  "hash_find hf lt h e = bindR (bucket_at h (bucket_idx hf h e)) (\<lambda>b. Inr (find_elem lt b e))"

section \<open>Bucket counts\<close>

definition turn_off_least_1bit :: "u32 \<Rightarrow> u32" where
  "turn_off_least_1bit x = x AND (x - 1)"

definition is_power_of_2 :: "u32 \<Rightarrow> bool" where
  "is_power_of_2 x \<longleftrightarrow> x \<noteq> 0 \<and> turn_off_least_1bit x = 0"

partial_function (option) round_down_pow2 :: "u32 \<Rightarrow> u32 option" where
  "round_down_pow2 n = (if \<not> is_power_of_2 n then round_down_pow2 (turn_off_least_1bit n) else Some n)"

definition ideal_bucket_cnt :: "u32 \<Rightarrow> u32 option" where
  "ideal_bucket_cnt cnt =
     (let n = cnt div 2; n = (if n < 4 then 4 else n) in round_down_pow2 n)"

section \<open>Insertion and removal\<close>

definition insert_elem :: "'e hash \<Rightarrow> u32 \<Rightarrow> 'e \<Rightarrow> 'e hash res" where
  "insert_elem h i e = bindR (bucket_at h i) (\<lambda>b.
     Inr (set_bucket (h\<lparr>elem_cnt := elem_cnt h + 1\<rparr>) i (e # b)))"

text \<open>\<^verbatim>\<open>list_remove\<close> unlinks the element from the bucket that holds it.\<close>

definition remove_elem :: "'e hash \<Rightarrow> 'e \<Rightarrow> 'e hash" where
  "remove_elem h e = h\<lparr>elem_cnt := elem_cnt h - 1, buckets := map (remove1 e) (buckets h)\<rparr>"

fun move_elems :: "'e hash_hash_func \<Rightarrow> 'e list \<Rightarrow> 'e hash \<Rightarrow> 'e hash res" where
  "move_elems hf [] h = Inr h"
| "move_elems hf (e # es) h = (let i = bucket_idx hf h e in
     bindR (bucket_at h i) (\<lambda>b. move_elems hf es (set_bucket h i (e # b))))"

fun move_buckets :: "'e hash_hash_func \<Rightarrow> 'e list list \<Rightarrow> 'e hash \<Rightarrow> 'e hash res" where
  "move_buckets hf [] h = Inr h"
| "move_buckets hf (b # bs) h = bindR (move_elems hf b h) (\<lambda>h. move_buckets hf bs h)"

definition rehash :: "bool \<Rightarrow> 'e hash_hash_func \<Rightarrow> 'e hash \<Rightarrow> 'e hash exec" where
  "rehash mem hf h =
     (let old_buckets = buckets h; old_bucket_cnt = bucket_cnt h in
      Option.bind (ideal_bucket_cnt (elem_cnt h)) (\<lambda>new_bucket_cnt.
      if new_bucket_cnt = old_bucket_cnt then okE h
      else if \<not> mem then okE h
      else Some (move_buckets hf old_buckets
        (h\<lparr>buckets := replicate (unat new_bucket_cnt) [], bucket_cnt := new_bucket_cnt\<rparr>))))"

definition hash_insert ::
    "bool \<Rightarrow> 'e hash_hash_func \<Rightarrow> 'e hash_less_func \<Rightarrow> 'e hash \<Rightarrow> 'e \<Rightarrow> ('e option \<times> 'e hash) exec" where
  "hash_insert mem hf lt h new = (let bucket = bucket_idx hf h new in
     bindE (Some (bucket_at h bucket)) (\<lambda>b. let old = find_elem lt b new in
     bindE (if old = None then Some (insert_elem h bucket new) else okE h) (\<lambda>h.
     bindE (rehash mem hf h) (\<lambda>h. okE (old, h)))))"

definition hash_replace ::
    "bool \<Rightarrow> 'e hash_hash_func \<Rightarrow> 'e hash_less_func \<Rightarrow> 'e hash \<Rightarrow> 'e \<Rightarrow> ('e option \<times> 'e hash) exec" where
  "hash_replace mem hf lt h new = (let bucket = bucket_idx hf h new in
     bindE (Some (bucket_at h bucket)) (\<lambda>b. let old = find_elem lt b new;
       h = (case old of Some o' \<Rightarrow> remove_elem h o' | None \<Rightarrow> h) in
     bindE (Some (insert_elem h bucket new)) (\<lambda>h.
     bindE (rehash mem hf h) (\<lambda>h. okE (old, h)))))"

definition hash_delete ::
    "bool \<Rightarrow> 'e hash_hash_func \<Rightarrow> 'e hash_less_func \<Rightarrow> 'e hash \<Rightarrow> 'e \<Rightarrow> ('e option \<times> 'e hash) exec" where
  "hash_delete mem hf lt h e =
     bindE (Some (bucket_at h (bucket_idx hf h e))) (\<lambda>b.
     case find_elem lt b e of
       Some found \<Rightarrow> bindE (rehash mem hf (remove_elem h found)) (\<lambda>h. okE (Some found, h))
     | None \<Rightarrow> okE (None, h))"

section \<open>Whole-table operations\<close>

text \<open>A \<^verbatim>\<open>hash_action_func\<close> transforms the state \<open>s\<close> of its caller.\<close>

definition hash_clear :: "('e \<Rightarrow> 's \<Rightarrow> 's) option \<Rightarrow> 'e hash \<Rightarrow> 's \<Rightarrow> 's \<times> 'e hash" where
  "hash_clear destructor h s =
     ((case destructor of None \<Rightarrow> s | Some d \<Rightarrow> fold (\<lambda>bucket. fold d bucket) (buckets h) s),
      h\<lparr>elem_cnt := 0, buckets := map (\<lambda>_. []) (buckets h)\<rparr>)"

definition hash_init :: "bool \<Rightarrow> 'e hash option" where
  "hash_init mem = (if mem
     then Some (snd (hash_clear None \<lparr>elem_cnt = 0, bucket_cnt = 4, buckets = replicate 4 []\<rparr> ()))
     else None)"

definition hash_destroy :: "('e \<Rightarrow> 's \<Rightarrow> 's) option \<Rightarrow> 'e hash \<Rightarrow> 's \<Rightarrow> 's" where
  "hash_destroy destructor h s =
     (if destructor \<noteq> None then fst (hash_clear destructor h s) else s)"

definition hash_apply :: "('e \<Rightarrow> 's \<Rightarrow> 's) \<Rightarrow> 'e hash \<Rightarrow> 's \<Rightarrow> 's" where
  "hash_apply action h s = fold (\<lambda>bucket. fold action bucket) (buckets h) s"

definition hash_size :: "'e hash \<Rightarrow> u32" where
  "hash_size h = elem_cnt h"

definition hash_empty :: "'e hash \<Rightarrow> bool" where
  "hash_empty h \<longleftrightarrow> elem_cnt h = 0"

text \<open>
  An iterator stands at a node of a bucket: node 0 is the list head, node \<open>k\<close> the \<open>k\<close>-th
  element, and the node behind the last element is the tail. \<open>it_node = None\<close> is the null
  element pointer.
\<close>

record hash_iterator =
  it_bucket :: nat
  it_node :: "nat option"

definition hash_first :: "hash_iterator" where
  "hash_first = \<lparr>it_bucket = 0, it_node = Some 0\<rparr>"

function hash_next_loop :: "'e hash \<Rightarrow> nat \<Rightarrow> nat \<Rightarrow> hash_iterator" where
  "hash_next_loop h b k =
     (if b < length (buckets h) \<and> k = length (buckets h ! b) + 1
      then if b + 1 \<ge> length (buckets h)
        then \<lparr>it_bucket = b + 1, it_node = None\<rparr>
        else hash_next_loop h (b + 1) 1
      else \<lparr>it_bucket = b, it_node = Some k\<rparr>)"
  by pat_completeness auto
termination by (relation "measure (\<lambda>(h, b, k). length (buckets h) - b)") auto

definition hash_next :: "'e hash \<Rightarrow> hash_iterator \<Rightarrow> hash_iterator res" where
  "hash_next h i = (case it_node i of
      None \<Rightarrow> Inl Bad_access
    | Some k \<Rightarrow> require (it_bucket i < length (buckets h) \<and> k \<le> length (buckets h ! it_bucket i))
        (Inr (hash_next_loop h (it_bucket i) (k + 1))))"

definition hash_cur :: "'e hash \<Rightarrow> hash_iterator \<Rightarrow> 'e option" where
  "hash_cur h i = (case it_node i of None \<Rightarrow> None
     | Some k \<Rightarrow> if 1 \<le> k \<and> k \<le> length (buckets h ! it_bucket i)
                then Some (buckets h ! it_bucket i ! (k - 1)) else None)"

section \<open>Hash functions\<close>

definition FNV_32_PRIME :: u32 where "FNV_32_PRIME = 16777619"
definition FNV_32_BASIS :: u32 where "FNV_32_BASIS = 2166136261"

fun hash_bytes_loop :: "nat \<Rightarrow> u8 list \<Rightarrow> u32 \<Rightarrow> u32 res" where
  "hash_bytes_loop 0 buf hash = Inr hash"
| "hash_bytes_loop (Suc n) [] hash = Inl Bad_access"
| "hash_bytes_loop (Suc n) (c # buf) hash =
     hash_bytes_loop n buf ((hash * FNV_32_PRIME) XOR ucast c)"

definition hash_bytes :: "u8 list \<Rightarrow> u32 \<Rightarrow> u32 res" where
  "hash_bytes buf n = hash_bytes_loop (unat n) buf FNV_32_BASIS"

fun hash_string_loop :: "u8 list \<Rightarrow> u32 \<Rightarrow> u32 res" where
  "hash_string_loop [] hash = Inl Bad_access"
| "hash_string_loop (c # s) hash =
     (if c \<noteq> 0 then hash_string_loop s ((hash * FNV_32_PRIME) XOR ucast c) else Inr hash)"

definition hash_string :: "u8 list \<Rightarrow> u32 res" where
  "hash_string s = hash_string_loop s FNV_32_BASIS"

definition hash_int :: "u32 \<Rightarrow> u32 res" where
  "hash_int i = hash_bytes (int_bytes i) 4"

section \<open>Bucket counts are powers of two\<close>

lemma turn_off_less: "x \<noteq> 0 \<Longrightarrow> turn_off_least_1bit x < x"
proof -
  assume "x \<noteq> 0"
  then have "x - 1 < x" by (simp add: word_less_nat_alt unat_minus_one unat_gt_0)
  moreover have "x AND (x - 1) \<le> x - 1" by (rule word_and_le1)
  ultimately show ?thesis unfolding turn_off_least_1bit_def by (rule le_less_trans [rotated])
qed

lemma round_down_pow2_returns:
  "n \<noteq> 0 \<Longrightarrow> \<exists>k. round_down_pow2 n = Some k \<and> is_power_of_2 k \<and> k \<le> n"
proof (induction "unat n" arbitrary: n rule: less_induct)
  case less
  show ?case
  proof (cases "is_power_of_2 n")
    case True
    then show ?thesis by (subst round_down_pow2.simps) simp
  next
    case False
    then have ne: "turn_off_least_1bit n \<noteq> 0" using less(2) by (simp add: is_power_of_2_def)
    have lt: "turn_off_least_1bit n < n" by (rule turn_off_less [OF less(2)])
    then obtain k where "round_down_pow2 (turn_off_least_1bit n) = Some k" "is_power_of_2 k"
        "k \<le> turn_off_least_1bit n"
      using less(1) [OF _ ne] by (auto simp: word_less_nat_alt)
    then show ?thesis using False lt by (subst round_down_pow2.simps) auto
  qed
qed

lemma ideal_bucket_cnt_returns: "\<exists>k. ideal_bucket_cnt c = Some k \<and> is_power_of_2 k"
proof -
  let ?n = "if c div 2 < 4 then 4 else c div 2"
  have "?n \<noteq> 0" by auto
  then show ?thesis using round_down_pow2_returns [of ?n] by (auto simp: ideal_bucket_cnt_def Let_def)
qed

section \<open>Well-formed tables\<close>

definition hash_elems :: "'e hash \<Rightarrow> 'e list" where
  "hash_elems h = concat (buckets h)"

definition hash_placed :: "'e hash_hash_func \<Rightarrow> 'e hash \<Rightarrow> bool" where
  "hash_placed hf h \<longleftrightarrow> is_power_of_2 (bucket_cnt h) \<and> length (buckets h) = unat (bucket_cnt h) \<and>
     (\<forall>i < length (buckets h). \<forall>e \<in> set (buckets h ! i). unat (bucket_idx hf h e) = i)"

definition hash_wf :: "'e hash_hash_func \<Rightarrow> 'e hash_less_func \<Rightarrow> 'e hash \<Rightarrow> bool" where
  "hash_wf hf lt h \<longleftrightarrow> hash_placed hf h \<and> elem_cnt h = of_nat (length (hash_elems h)) \<and>
     distinct (hash_elems h) \<and>
     (\<forall>x \<in> set (hash_elems h). \<forall>y \<in> set (hash_elems h). equiv_by lt x y \<longrightarrow> x = y)"

lemma bucket_idx_range:
  assumes "hash_placed hf h"
  shows "unat (bucket_idx hf h e) < length (buckets h)"
proof -
  have ne: "bucket_cnt h \<noteq> 0" using assms by (simp add: hash_placed_def is_power_of_2_def)
  have "bucket_idx hf h e \<le> bucket_cnt h - 1" unfolding bucket_idx_def by (rule word_and_le1)
  then have "unat (bucket_idx hf h e) \<le> unat (bucket_cnt h) - 1"
    using ne by (simp add: word_le_nat_alt unat_minus_one)
  moreover have "0 < unat (bucket_cnt h)" using ne by (simp add: unat_gt_0)
  ultimately show ?thesis using assms by (simp add: hash_placed_def)
qed

lemma bucket_idx_cong: "bucket_cnt h' = bucket_cnt h \<Longrightarrow> bucket_idx hf h' e = bucket_idx hf h e"
  by (simp add: bucket_idx_def)

lemma mset_concat_update:
  "i < length xss \<Longrightarrow> mset (concat (xss[i := e # xss ! i])) = add_mset e (mset (concat xss))"
proof (induction xss arbitrary: i)
  case (Cons xs xss)
  then show ?case by (cases i) auto
qed simp

lemma placed_push:
  assumes "hash_placed hf h"
  shows "hash_placed hf (set_bucket h (bucket_idx hf h e) (e # buckets h ! unat (bucket_idx hf h e)))"
  using assms bucket_idx_range [OF assms, of e]
  by (auto simp: hash_placed_def set_bucket_def bucket_idx_def nth_list_update)

lemma move_elems_placed:
  assumes "hash_placed hf h"
  shows "\<exists>h'. move_elems hf es h = Inr h' \<and> hash_placed hf h' \<and> elem_cnt h' = elem_cnt h \<and>
    mset (hash_elems h') = mset es + mset (hash_elems h)"
  using assms
proof (induction es arbitrary: h)
  case (Cons e es)
  let ?i = "bucket_idx hf h e"
  let ?h = "set_bucket h ?i (e # buckets h ! unat ?i)"
  note r = bucket_idx_range [OF Cons(2), of e]
  obtain h' where h': "move_elems hf es ?h = Inr h'" "hash_placed hf h'" "elem_cnt h' = elem_cnt ?h"
      "mset (hash_elems h') = mset es + mset (hash_elems ?h)"
    using Cons(1) [OF placed_push [OF Cons(2)]] by blast
  have "mset (hash_elems ?h) = add_mset e (mset (hash_elems h))"
    using mset_concat_update [OF r] by (simp add: hash_elems_def set_bucket_def)
  then show ?case using h' r by (simp add: bucket_at_def Let_def set_bucket_def)
qed simp

lemma move_buckets_placed:
  assumes "hash_placed hf h"
  shows "\<exists>h'. move_buckets hf bs h = Inr h' \<and> hash_placed hf h' \<and> elem_cnt h' = elem_cnt h \<and>
    mset (hash_elems h') = mset (concat bs) + mset (hash_elems h)"
  using assms
proof (induction bs arbitrary: h)
  case (Cons b bs)
  obtain h1 where h1: "move_elems hf b h = Inr h1" "hash_placed hf h1" "elem_cnt h1 = elem_cnt h"
      "mset (hash_elems h1) = mset b + mset (hash_elems h)"
    using move_elems_placed [OF Cons(2)] by blast
  show ?case using Cons(1) [OF h1(2)] h1 by (auto simp: ac_simps)
qed simp

lemma rehash_placed:
  assumes "hash_placed hf h"
  shows "\<exists>h'. rehash mem hf h = okE h' \<and> hash_placed hf h' \<and> elem_cnt h' = elem_cnt h \<and>
    mset (hash_elems h') = mset (hash_elems h)"
proof -
  obtain k where k: "ideal_bucket_cnt (elem_cnt h) = Some k" "is_power_of_2 k"
    using ideal_bucket_cnt_returns by blast
  let ?h = "h\<lparr>buckets := replicate (unat k) [], bucket_cnt := k\<rparr>"
  have "hash_placed hf ?h" using k(2) by (simp add: hash_placed_def)
  from move_buckets_placed [OF this, of "buckets h"] show ?thesis
    using k(1) assms by (auto simp: rehash_def hash_elems_def Let_def)
qed

lemma hash_wf_mset:
  assumes "hash_placed hf h" "mset (hash_elems h) = mset (hash_elems h0)" "elem_cnt h = elem_cnt h0"
    and "elem_cnt h0 = of_nat (length (hash_elems h0))" "distinct (hash_elems h0)"
    and "\<forall>x \<in> set (hash_elems h0). \<forall>y \<in> set (hash_elems h0). equiv_by lt x y \<longrightarrow> x = y"
  shows "hash_wf hf lt h"
  using assms mset_eq_setD [OF assms(2)] mset_eq_length [OF assms(2)]
    mset_eq_imp_distinct_iff [OF assms(2)]
  by (simp add: hash_wf_def)

lemma find_elem_Some:
  "find_elem lt b e = Some x \<Longrightarrow> x \<in> set b \<and> equiv_by lt x e"
  by (induction lt b e rule: find_elem.induct) (auto simp: equiv_by_def split: if_splits)

lemma find_elem_None:
  "find_elem lt b e = None \<longleftrightarrow> (\<forall>x \<in> set b. \<not> equiv_by lt x e)"
  by (induction lt b e rule: find_elem.induct) (auto simp: equiv_by_def)

lemma mset_concat_remove1:
  "distinct (concat bs) \<Longrightarrow> mset (concat (map (remove1 e) bs)) = mset (concat bs) - {#e#}"
proof (induction bs)
  case (Cons b bs)
  show ?case
  proof (cases "e \<in> set b")
    case True
    then have "e \<notin> set (concat bs)" using Cons(2) by auto
    then have "map (remove1 e) bs = bs" by (induction bs) (auto simp: remove1_idem)
    then show ?thesis using True Cons by simp
  next
    case False
    then have "count (mset b) e = 0" by (simp add: not_in_iff [symmetric])
    then have "mset b + (mset (concat bs) - {#e#}) = mset b + mset (concat bs) - {#e#}"
      by (intro multiset_eqI) (auto simp del: count_mset_0_iff)
    then show ?thesis using Cons False by (simp add: remove1_idem)
  qed
qed simp

lemma remove_elem_elems:
  assumes "distinct (hash_elems h)"
  shows "mset (hash_elems (remove_elem h e)) = mset (hash_elems h) - {#e#}"
  using mset_concat_remove1 assms by (auto simp: hash_elems_def remove_elem_def)

lemma remove_elem_placed: "hash_placed hf h \<Longrightarrow> hash_placed hf (remove_elem h e)"
  by (auto simp: hash_placed_def remove_elem_def bucket_idx_def dest: notin_set_remove1 set_remove1_subset [THEN subsetD])

text \<open>
  The contract of the table's two functions: a strict weak order, and a hash function that
  agrees on equivalent elements.
\<close>

locale hash_contract = strict_weak_order lt for lt :: "'e \<Rightarrow> 'e \<Rightarrow> bool" +
  fixes hf :: "'e \<Rightarrow> u32"
  assumes hash_equiv: "equiv_by lt x y \<Longrightarrow> hf x = hf y"
begin

lemma equiv_bucket:
  assumes "hash_placed hf h" "x \<in> set (hash_elems h)" "equiv_by lt x e"
  shows "x \<in> set (buckets h ! unat (bucket_idx hf h e))"
proof -
  obtain i where i: "i < length (buckets h)" "x \<in> set (buckets h ! i)"
    using assms(2) unfolding hash_elems_def by (metis UN_E in_set_conv_nth set_concat)
  then have "unat (bucket_idx hf h x) = i" using assms(1) by (simp add: hash_placed_def)
  moreover have "bucket_idx hf h x = bucket_idx hf h e"
    using hash_equiv [OF assms(3)] by (simp add: bucket_idx_def)
  ultimately show ?thesis using i by simp
qed

lemma bucket_elems:
  assumes "hash_placed hf h"
  shows "set (buckets h ! unat (bucket_idx hf h e)) \<subseteq> set (hash_elems h)"
  using nth_mem [OF bucket_idx_range [OF assms, of e]] by (auto simp: hash_elems_def)

lemma find_correct:
  assumes wf: "hash_wf hf lt h"
  shows "\<exists>r. hash_find hf lt h e = Inr r \<and>
    (case r of Some x \<Rightarrow> x \<in> set (hash_elems h) \<and> equiv_by lt x e
     | None \<Rightarrow> \<forall>x \<in> set (hash_elems h). \<not> equiv_by lt x e)"
proof -
  have p: "hash_placed hf h" using wf by (simp add: hash_wf_def)
  let ?b = "buckets h ! unat (bucket_idx hf h e)"
  have "hash_find hf lt h e = Inr (find_elem lt ?b e)"
    using bucket_idx_range [OF p, of e] by (simp add: hash_find_def bucket_at_def)
  moreover have "case find_elem lt ?b e of Some x \<Rightarrow> x \<in> set (hash_elems h) \<and> equiv_by lt x e
     | None \<Rightarrow> \<forall>x \<in> set (hash_elems h). \<not> equiv_by lt x e"
    using find_elem_Some [of lt ?b e] find_elem_None [of lt ?b e] bucket_elems [OF p, of e]
      equiv_bucket [OF p, of _ e] by (auto split: option.split)
  ultimately show ?thesis by blast
qed

lemma rehash_wf:
  assumes "hash_wf hf lt h"
  shows "\<exists>h'. rehash mem hf h = okE h' \<and> hash_wf hf lt h' \<and> mset (hash_elems h') = mset (hash_elems h)"
proof -
  have w: "hash_placed hf h" "elem_cnt h = of_nat (length (hash_elems h))" "distinct (hash_elems h)"
      "\<forall>x \<in> set (hash_elems h). \<forall>y \<in> set (hash_elems h). equiv_by lt x y \<longrightarrow> x = y"
    using assms unfolding hash_wf_def by blast+
  obtain h' where h': "rehash mem hf h = okE h'" "hash_placed hf h'" "elem_cnt h' = elem_cnt h"
      "mset (hash_elems h') = mset (hash_elems h)"
    using rehash_placed [OF w(1)] by blast
  then show ?thesis using hash_wf_mset [OF h'(2,4,3) w(2-4)] by blast
qed

lemma insert_elem_wf:
  assumes wf: "hash_wf hf lt h" and new: "\<forall>x \<in> set (hash_elems h). \<not> equiv_by lt x e"
  shows "\<exists>h'. insert_elem h (bucket_idx hf h e) e = Inr h' \<and> hash_wf hf lt h' \<and>
    mset (hash_elems h') = add_mset e (mset (hash_elems h)) \<and> bucket_cnt h' = bucket_cnt h"
proof -
  let ?i = "bucket_idx hf h e"
  let ?h1 = "h\<lparr>elem_cnt := elem_cnt h + 1\<rparr>"
  let ?h' = "set_bucket ?h1 ?i (e # buckets h ! unat ?i)"
  have p: "hash_placed hf h" using wf by (simp add: hash_wf_def)
  then have p1: "hash_placed hf ?h1" by (simp add: hash_placed_def bucket_idx_def)
  note r = bucket_idx_range [OF p, of e]
  have m: "mset (hash_elems ?h') = add_mset e (mset (hash_elems h))"
    using mset_concat_update [OF r] by (simp add: hash_elems_def set_bucket_def)
  then have s: "set (hash_elems ?h') = insert e (set (hash_elems h))"
    by (metis set_mset_add_mset_insert set_mset_mset)
  have "e \<notin> set (hash_elems h)" using new equiv_refl by blast
  then have "distinct (hash_elems ?h')"
    using wf m by (metis distinct.simps(2) hash_wf_def mset.simps(2) mset_eq_imp_distinct_iff)
  moreover have "length (hash_elems ?h') = Suc (length (hash_elems h))"
    using m by (metis size_add_mset size_mset)
  moreover have "hash_placed hf ?h'"
    using placed_push [OF p1, of e] by (simp add: bucket_idx_def)
  moreover have "\<forall>x \<in> set (hash_elems ?h'). \<forall>y \<in> set (hash_elems ?h'). equiv_by lt x y \<longrightarrow> x = y"
    using wf new equiv_sym unfolding s hash_wf_def by blast
  ultimately have "hash_wf hf lt ?h'"
    using wf by (simp add: hash_wf_def set_bucket_def)
  moreover have "insert_elem h ?i e = Inr ?h'" using r by (simp add: insert_elem_def bucket_at_def)
  ultimately show ?thesis using m by (simp add: set_bucket_def)
qed

lemma remove_elem_wf:
  assumes wf: "hash_wf hf lt h" and x: "x \<in> set (hash_elems h)"
  shows "hash_wf hf lt (remove_elem h x) \<and>
    mset (hash_elems (remove_elem h x)) = mset (hash_elems h) - {#x#}"
proof -
  have d: "distinct (hash_elems h)" using wf by (simp add: hash_wf_def)
  let ?h = "remove_elem h x"
  have m: "mset (hash_elems ?h) = mset (remove1 x (hash_elems h))"
    using remove_elem_elems [OF d] by simp
  have "set (hash_elems ?h) \<subseteq> set (hash_elems h)"
    using mset_eq_setD [OF m] set_remove1_subset by fast
  then have "\<forall>x \<in> set (hash_elems ?h). \<forall>y \<in> set (hash_elems ?h). equiv_by lt x y \<longrightarrow> x = y"
    using wf unfolding hash_wf_def by blast
  moreover have "distinct (hash_elems ?h)"
    using mset_eq_imp_distinct_iff [OF m] d by simp
  moreover have "elem_cnt ?h = of_nat (length (hash_elems ?h))"
  proof -
    obtain n where n: "length (hash_elems h) = Suc n" using x by (cases "hash_elems h") auto
    then have "length (hash_elems ?h) = n" using mset_eq_length [OF m] x by (simp add: length_remove1)
    moreover have "elem_cnt ?h = of_nat (Suc n) - 1" using wf n by (simp add: remove_elem_def hash_wf_def)
    ultimately show ?thesis by simp
  qed
  ultimately show ?thesis
    using remove_elem_placed wf remove_elem_elems [OF d] by (auto simp: hash_wf_def)
qed

lemma lookup_bucket:
  assumes "hash_wf hf lt h"
  shows "bucket_at h (bucket_idx hf h e) = Inr (buckets h ! unat (bucket_idx hf h e))"
    and "hash_find hf lt h e = Inr (find_elem lt (buckets h ! unat (bucket_idx hf h e)) e)"
  using bucket_idx_range [of hf h e] assms
  by (simp_all add: bucket_at_def hash_find_def hash_wf_def)

lemma insert_correct:
  assumes wf: "hash_wf hf lt h"
  shows "\<exists>r h'. hash_insert mem hf lt h e = okE (r, h') \<and> hash_find hf lt h e = Inr r \<and>
    hash_wf hf lt h' \<and>
    mset (hash_elems h') = (if r = None then add_mset e (mset (hash_elems h)) else mset (hash_elems h))"
proof -
  let ?r = "find_elem lt (buckets h ! unat (bucket_idx hf h e)) e"
  note lk = lookup_bucket [OF wf, of e]
  show ?thesis
  proof (cases "?r = None")
    case True
    then have "\<forall>x \<in> set (hash_elems h). \<not> equiv_by lt x e" using find_correct [OF wf, of e] lk(2) by auto
    from insert_elem_wf [OF wf this] obtain h1 where h1: "insert_elem h (bucket_idx hf h e) e = Inr h1"
        "hash_wf hf lt h1" "mset (hash_elems h1) = add_mset e (mset (hash_elems h))"
      by blast
    from rehash_wf [OF h1(2), of mem] obtain h' where "rehash mem hf h1 = okE h'" "hash_wf hf lt h'"
        "mset (hash_elems h') = mset (hash_elems h1)" by blast
    then show ?thesis using True h1 lk by (auto simp: hash_insert_def Let_def)
  next
    case False
    from rehash_wf [OF wf, of mem] show ?thesis
      using False lk by (auto simp: hash_insert_def Let_def)
  qed
qed

lemma delete_correct:
  assumes wf: "hash_wf hf lt h"
  shows "\<exists>r h'. hash_delete mem hf lt h e = okE (r, h') \<and> hash_find hf lt h e = Inr r \<and>
    hash_wf hf lt h' \<and>
    mset (hash_elems h') = (case r of Some x \<Rightarrow> mset (hash_elems h) - {#x#} | None \<Rightarrow> mset (hash_elems h))"
proof -
  note lk = lookup_bucket [OF wf, of e]
  show ?thesis
  proof (cases "find_elem lt (buckets h ! unat (bucket_idx hf h e)) e")
    case None
    then show ?thesis using wf lk by (simp add: hash_delete_def)
  next
    case (Some x)
    then have "x \<in> set (hash_elems h)" using find_correct [OF wf, of e] lk(2) by auto
    from remove_elem_wf [OF wf this] rehash_wf [of "remove_elem h x" mem] obtain h' where
      "rehash mem hf (remove_elem h x) = okE h'" "hash_wf hf lt h'"
      "mset (hash_elems h') = mset (hash_elems h) - {#x#}" by auto
    then show ?thesis using Some lk by (simp add: hash_delete_def)
  qed
qed

lemma inserted_present:
  assumes "hash_wf hf lt h" "hash_find hf lt h e = Inr r"
    and m: "mset (hash_elems h') = (if r = None then add_mset e (mset (hash_elems h)) else mset (hash_elems h))"
  shows "\<exists>y \<in> set (hash_elems h'). equiv_by lt y e"
proof (cases r)
  case None
  then have "e \<in># mset (hash_elems h')" using m by simp
  then show ?thesis using equiv_refl [of e] by auto
next
  case (Some x)
  then have "set (hash_elems h') = set (hash_elems h)" using m by (intro mset_eq_setD) simp
  then show ?thesis using find_correct [OF assms(1), of e] assms(2) Some by auto
qed

lemma deleted_absent:
  assumes wf: "hash_wf hf lt h" and f: "hash_find hf lt h e = Inr r"
    and m: "mset (hash_elems h') = (case r of Some x \<Rightarrow> mset (hash_elems h) - {#x#} | None \<Rightarrow> mset (hash_elems h))"
  shows "\<forall>y \<in> set (hash_elems h'). \<not> equiv_by lt y e"
proof (cases r)
  case None
  then have "set (hash_elems h') = set (hash_elems h)" using m by (intro mset_eq_setD) simp
  then show ?thesis using find_correct [OF wf, of e] f None by auto
next
  case (Some x)
  have x: "x \<in> set (hash_elems h)" "equiv_by lt x e" using find_correct [OF wf, of e] f Some by auto
  have "mset (hash_elems h') = mset (remove1 x (hash_elems h))" using m Some by simp
  from mset_eq_setD [OF this] have s: "set (hash_elems h') = set (hash_elems h) - {x}"
    using wf by (simp add: hash_wf_def set_remove1_eq)
  show ?thesis
  proof
    fix y assume "y \<in> set (hash_elems h')"
    then have y: "y \<in> set (hash_elems h)" "y \<noteq> x" using s by auto
    show "\<not> equiv_by lt y e"
    proof
      assume "equiv_by lt y e"
      then have "equiv_by lt y x" using x(2) equiv_sym equiv_trans by blast
      then show False using wf x(1) y unfolding hash_wf_def by blast
    qed
  qed
qed

lemma replace_correct:
  assumes wf: "hash_wf hf lt h"
  shows "\<exists>r h'. hash_replace mem hf lt h e = okE (r, h') \<and> hash_find hf lt h e = Inr r \<and>
    hash_wf hf lt h' \<and> mset (hash_elems h') =
      add_mset e (case r of Some x \<Rightarrow> mset (hash_elems h) - {#x#} | None \<Rightarrow> mset (hash_elems h))"
proof -
  note lk = lookup_bucket [OF wf, of e]
  let ?r = "find_elem lt (buckets h ! unat (bucket_idx hf h e)) e"
  let ?h1 = "case ?r of Some o' \<Rightarrow> remove_elem h o' | None \<Rightarrow> h"
  have "hash_wf hf lt ?h1 \<and> bucket_cnt ?h1 = bucket_cnt h \<and> mset (hash_elems ?h1) =
      (case ?r of Some x \<Rightarrow> mset (hash_elems h) - {#x#} | None \<Rightarrow> mset (hash_elems h)) \<and>
      (\<forall>x \<in> set (hash_elems ?h1). \<not> equiv_by lt x e)"
  proof (cases ?r)
    case None
    then show ?thesis using wf find_correct [OF wf, of e] lk(2) by auto
  next
    case (Some x)
    then have x: "x \<in> set (hash_elems h)" "equiv_by lt x e" using find_correct [OF wf, of e] lk(2) by auto
    note rm = remove_elem_wf [OF wf x(1)]
    have "\<not> equiv_by lt y e" if y: "y \<in> set (hash_elems (remove_elem h x))" for y
    proof
      assume "equiv_by lt y e"
      then have "equiv_by lt y x" using x(2) equiv_sym equiv_trans by blast
      moreover have "mset (hash_elems (remove_elem h x)) = mset (remove1 x (hash_elems h))"
        using rm by simp
      from mset_eq_setD [OF this] have "y \<in> set (hash_elems h)" "y \<noteq> x"
        using y wf set_remove1_subset by (auto simp: hash_wf_def set_remove1_eq)
      ultimately show False using wf x(1) unfolding hash_wf_def by blast
    qed
    then show ?thesis using rm Some by (simp add: remove_elem_def)
  qed
  then have h1: "hash_wf hf lt ?h1" "bucket_cnt ?h1 = bucket_cnt h" "mset (hash_elems ?h1) =
      (case ?r of Some x \<Rightarrow> mset (hash_elems h) - {#x#} | None \<Rightarrow> mset (hash_elems h))"
      "\<forall>x \<in> set (hash_elems ?h1). \<not> equiv_by lt x e" by blast+
  obtain h2 where h2: "insert_elem ?h1 (bucket_idx hf h e) e = Inr h2" "hash_wf hf lt h2"
      "mset (hash_elems h2) = add_mset e (mset (hash_elems ?h1))"
    using insert_elem_wf [OF h1(1,4)] bucket_idx_cong [OF h1(2), of hf e] by auto
  obtain h' where "rehash mem hf h2 = okE h'" "hash_wf hf lt h'"
      "mset (hash_elems h') = mset (hash_elems h2)" using rehash_wf [OF h2(2)] by blast
  then show ?thesis using lk h1(3) h2 by (simp add: hash_replace_def Let_def)
qed

end

section \<open>Iteration\<close>

declare hash_next_loop.simps [simp del]

lemma hash_next_loop_end:
  assumes "b < length (buckets h)"
  shows "concat (drop (Suc b) (buckets h)) = [] \<and>
      it_node (hash_next_loop h b (length (buckets h ! b) + 1)) = None \<or>
    (\<exists>b'. b' < length (buckets h) \<and> buckets h ! b' \<noteq> [] \<and>
      hash_next_loop h b (length (buckets h ! b) + 1) = \<lparr>it_bucket = b', it_node = Some 1\<rparr> \<and>
      concat (drop (Suc b) (buckets h)) = buckets h ! b' @ concat (drop (Suc b') (buckets h)))"
  using assms
proof (induction "length (buckets h) - b" arbitrary: b)
  case (Suc n)
  show ?case
  proof (cases "Suc b < length (buckets h)")
    case False
    then show ?thesis using Suc(3) by (subst hash_next_loop.simps) simp
  next
    case True
    have step: "hash_next_loop h b (length (buckets h ! b) + 1) = hash_next_loop h (Suc b) 1"
      using True Suc(3) by (subst hash_next_loop.simps) simp
    have dr: "concat (drop (Suc b) (buckets h)) =
        buckets h ! Suc b @ concat (drop (Suc (Suc b)) (buckets h))"
      using True by (simp add: Cons_nth_drop_Suc [symmetric])
    show ?thesis
    proof (cases "buckets h ! Suc b = []")
      case empty: True
      then show ?thesis using Suc(1) [of "Suc b"] Suc(2) True step dr by simp
    next
      case False
      then have "hash_next_loop h (Suc b) 1 = \<lparr>it_bucket = Suc b, it_node = Some 1\<rparr>"
        by (subst hash_next_loop.simps) simp
      then show ?thesis using step dr False True by auto
    qed
  qed
qed simp

fun hash_walk :: "nat \<Rightarrow> 'e hash \<Rightarrow> hash_iterator \<Rightarrow> 'e list option" where
  "hash_walk 0 h i = None"
| "hash_walk (Suc n) h i = (case hash_next h i of Inl _ \<Rightarrow> None
     | Inr i' \<Rightarrow> (case hash_cur h i' of None \<Rightarrow> Some []
       | Some e \<Rightarrow> map_option (Cons e) (hash_walk n h i')))"

lemma hash_walk_rest:
  assumes "b < length (buckets h)" "k \<le> length (buckets h ! b)"
    and "rest = drop k (buckets h ! b) @ concat (drop (Suc b) (buckets h))"
  shows "hash_walk (Suc (length rest)) h \<lparr>it_bucket = b, it_node = Some k\<rparr> = Some rest"
  using assms
proof (induction rest arbitrary: b k)
  case Nil
  then have k: "k = length (buckets h ! b)" "concat (drop (Suc b) (buckets h)) = []" by simp_all
  then have "it_node (hash_next_loop h b (k + 1)) = None"
    using hash_next_loop_end [OF Nil(1)] by (metis append_is_Nil_conv)
  then show ?case using Nil(1) k(1) by (simp add: hash_next_def hash_cur_def)
next
  case (Cons e rest)
  show ?case
  proof (cases "k < length (buckets h ! b)")
    case True
    then have "hash_next h \<lparr>it_bucket = b, it_node = Some k\<rparr> = Inr \<lparr>it_bucket = b, it_node = Some (Suc k)\<rparr>"
      using Cons(2) by (simp add: hash_next_def hash_next_loop.simps)
    moreover have "e = buckets h ! b ! k"
      "rest = drop (Suc k) (buckets h ! b) @ concat (drop (Suc b) (buckets h))"
      using Cons(4) True by (simp_all add: Cons_nth_drop_Suc [symmetric])
    moreover have "Suc k \<le> length (buckets h ! b)" using True by simp
    ultimately show ?thesis using Cons(1) [OF Cons(2), of "Suc k"] by (simp add: hash_cur_def)
  next
    case False
    then have k: "k = length (buckets h ! b)" using Cons(3) by simp
    then have c: "concat (drop (Suc b) (buckets h)) = e # rest" using Cons(4) by simp
    obtain b' where b': "b' < length (buckets h)" "buckets h ! b' \<noteq> []"
        "hash_next_loop h b (k + 1) = \<lparr>it_bucket = b', it_node = Some 1\<rparr>"
        "e # rest = buckets h ! b' @ concat (drop (Suc b') (buckets h))"
      using hash_next_loop_end [OF Cons(2), folded k, unfolded c] by blast
    then have "e = buckets h ! b' ! 0"
      "rest = drop (Suc 0) (buckets h ! b') @ concat (drop (Suc b') (buckets h))"
      by (cases "buckets h ! b'"; simp)+
    moreover have "Suc 0 \<le> length (buckets h ! b')" using b'(2) by (cases "buckets h ! b'") auto
    ultimately show ?thesis using Cons(1) [OF b'(1), of "Suc 0"] b'(3) k Cons(2)
      by (simp add: hash_next_def hash_cur_def)
  qed
qed

lemma hash_walk_all:
  assumes "hash_placed hf h"
  shows "hash_walk (Suc (length (hash_elems h))) h hash_first = Some (hash_elems h)"
proof -
  have ne: "0 < length (buckets h)"
    using assms by (simp add: hash_placed_def is_power_of_2_def unat_gt_0)
  then have "hash_elems h = drop 0 (buckets h ! 0) @ concat (drop (Suc 0) (buckets h))"
    by (cases "buckets h") (simp_all add: hash_elems_def)
  then show ?thesis using hash_walk_rest [of 0 h 0 "hash_elems h"] ne by (simp add: hash_first_def)
qed

lemma hash_apply_all: "hash_apply f h s = fold f (hash_elems h) s"
proof -
  have "fold (\<lambda>bucket. fold f bucket) bs s = fold f (concat bs) s" for bs
    by (induction bs arbitrary: s) simp_all
  then show ?thesis by (simp add: hash_apply_def hash_elems_def)
qed

lemma hash_init_wf: "\<exists>h. hash_init True = Some h \<and> hash_wf hf lt h \<and> hash_elems h = []"
  by (simp add: hash_init_def hash_clear_def hash_wf_def hash_placed_def hash_elems_def
      is_power_of_2_def turn_off_least_1bit_def)

end
