(* ===== verification/Karith.thy ===== *)
theory Karith
  imports Prelude "HOL-Library.Signed_Division"
begin

text \<open>
  The 64-bit division routines of \<^verbatim>\<open>lib/arithmetic.c\<close>, built on the 32-bit \<^verbatim>\<open>divl\<close> instruction,
  which traps when the divisor is zero or the quotient does not fit in 32 bits. A signed
  64-bit integer is a 64-bit word read by \<open>sint\<close>.
\<close>

definition divl :: "u64 \<Rightarrow> u32 \<Rightarrow> u32 res" where
  "divl n d = (if d = 0 \<or> 2 ^ 32 \<le> unat n div unat d then Inl Divide_error
               else Inr (of_nat (unat n div unat d)))"

definition nlz :: "u32 \<Rightarrow> nat" where
  "nlz x =
     (let n = 0;
          (n, x) = (if x \<le> 0x0000FFFF then (n + 16, push_bit 16 x) else (n, x));
          (n, x) = (if x \<le> 0x00FFFFFF then (n + 8, push_bit 8 x) else (n, x));
          (n, x) = (if x \<le> 0x0FFFFFFF then (n + 4, push_bit 4 x) else (n, x));
          (n, x) = (if x \<le> 0x3FFFFFFF then (n + 2, push_bit 2 x) else (n, x));
          n = (if x \<le> 0x7FFFFFFF then n + 1 else n)
      in n)"

definition udiv64 :: "u64 \<Rightarrow> u64 \<Rightarrow> u64 res" where
  "udiv64 n d =
     (if drop_bit 32 d = 0
      then let b = push_bit 32 1;
               n1 = ucast (drop_bit 32 n) :: u32;
               n0 = ucast n :: u32;
               d0 = ucast d :: u32
           in if d0 = 0 then Inl Divide_error
              else bindR (divl (b * ucast (n1 mod d0) + ucast n0) d0) (\<lambda>q.
                     Inr (ucast q + b * ucast (n1 div d0)))
      else if n < d then Inr 0
      else let d1 = ucast (drop_bit 32 d) :: u32;
               s = nlz d1
           in bindR (divl (drop_bit 1 n) (ucast (drop_bit 32 (push_bit s d)))) (\<lambda>q.
                let q = ucast (drop_bit (31 - s) q) :: u64
                in Inr (if n - (q - 1) * d < d then q - 1 else q)))"

definition umod64 :: "u64 \<Rightarrow> u64 \<Rightarrow> u32 res" where
  "umod64 n d = bindR (udiv64 n d) (\<lambda>q. Inr (ucast (n - d * q)))"

definition sdiv64 :: "u64 \<Rightarrow> u64 \<Rightarrow> u64 res" where
  "sdiv64 n d =
     (let n_abs = (if 0 \<le> sint n then n else - n);
          d_abs = (if 0 \<le> sint d then d else - d)
      in bindR (udiv64 n_abs d_abs) (\<lambda>q_abs.
           Inr (if (sint n < 0) = (sint d < 0) then q_abs else - q_abs)))"

definition smod64 :: "u64 \<Rightarrow> u64 \<Rightarrow> u32 res" where
  "smod64 n d = bindR (sdiv64 n d) (\<lambda>q. Inr (ucast (n - d * q)))"

text \<open>The entry points GCC calls: a remainder comes back extended to 64 bits, by sign for
  \<^verbatim>\<open>__moddi3\<close> (the \<^verbatim>\<open>int32_t\<close> of \<open>smod64\<close>) and by zeros for \<^verbatim>\<open>__umoddi3\<close>.\<close>

definition divdi3 :: "u64 \<Rightarrow> u64 \<Rightarrow> u64 res" where
  "divdi3 n d = sdiv64 n d"

definition moddi3 :: "u64 \<Rightarrow> u64 \<Rightarrow> u64 res" where
  "moddi3 n d = bindR (smod64 n d) (\<lambda>r. Inr (scast r))"

definition udivdi3 :: "u64 \<Rightarrow> u64 \<Rightarrow> u64 res" where
  "udivdi3 n d = udiv64 n d"

definition umoddi3 :: "u64 \<Rightarrow> u64 \<Rightarrow> u64 res" where
  "umoddi3 n d = bindR (umod64 n d) (\<lambda>r. Inr (ucast r))"

section \<open>Leading zeros\<close>

lemma unat_push: "unat (x :: 'a::len word) * 2 ^ c < 2 ^ LENGTH('a) \<Longrightarrow> unat (push_bit c x) = unat x * 2 ^ c"
  by (simp only: unsigned_push_bit_eq) (simp add: push_bit_eq_mult take_bit_nat_eq_self)

lemma nlz_step:
  fixes x :: u32
  assumes lo: "2 ^ (32 - 2 * c) \<le> unat x" and c: "1 \<le> c" "2 * c \<le> 32"
    and t: "unat t = 2 ^ (32 - c) - 1"
    and p: "p = (n, x)"
    and r: "r = (if snd p \<le> t then (fst p + c, push_bit c (snd p)) else p)"
  shows "\<exists>k y. r = (n + k, y) \<and> unat y = unat x * 2 ^ k \<and> 2 ^ (32 - c) \<le> unat y"
proof (cases "x \<le> t")
  case True
  then have lt: "unat x < 2 ^ (32 - c)" using t by (simp add: word_le_nat_alt Suc_le_eq le_less_trans)
  then have "unat x * 2 ^ c < 2 ^ (32 - c) * 2 ^ c" by simp
  also have "(2::nat) ^ (32 - c) * 2 ^ c = 2 ^ 32" using c by (simp flip: power_add)
  finally have u: "unat (push_bit c x) = unat x * 2 ^ c" by (intro unat_push) simp
  have "(2::nat) ^ (32 - c) = 2 ^ (32 - 2 * c) * 2 ^ c" using c by (simp flip: power_add)
  then have "2 ^ (32 - c) \<le> unat x * 2 ^ c" using lo by simp
  then show ?thesis using p r True u by auto
next
  case False
  then have "2 ^ (32 - c) \<le> unat x" using t by (simp add: word_le_nat_alt)
  then show ?thesis using p r False by auto
qed

lemma nlz_correct:
  assumes "x \<noteq> 0"
  shows "2 ^ 31 \<le> unat x * 2 ^ nlz x" "unat x * 2 ^ nlz x < 2 ^ 32"
proof -
  let ?f = "\<lambda>t c p. if snd p \<le> t then (fst p + c, push_bit c (snd p)) else p"
  define p1 where "p1 = ?f (0x0000FFFF :: u32) 16 (0, x)"
  define p2 where "p2 = ?f 0x00FFFFFF 8 p1"
  define p3 where "p3 = ?f 0x0FFFFFFF 4 p2"
  define p4 where "p4 = ?f 0x3FFFFFFF 2 p3"
  have x: "2 ^ (32 - 2 * 16) \<le> unat x" using assms by (simp add: unat_gt_0 Suc_le_eq)
  obtain k1 y1 where 1: "p1 = (0 + k1, y1)" "unat y1 = unat x * 2 ^ k1" "2 ^ (32 - 2 * 8) \<le> unat y1"
    using nlz_step [OF x _ _ _ refl p1_def] by auto
  obtain k2 y2 where 2: "p2 = (0 + k1 + k2, y2)" "unat y2 = unat y1 * 2 ^ k2" "2 ^ (32 - 2 * 4) \<le> unat y2"
    using nlz_step [OF 1(3) _ _ _ 1(1) p2_def] by auto
  obtain k3 y3 where 3: "p3 = (0 + k1 + k2 + k3, y3)" "unat y3 = unat y2 * 2 ^ k3"
      "2 ^ (32 - 2 * 2) \<le> unat y3"
    using nlz_step [OF 2(3) _ _ _ 2(1) p3_def] by auto
  obtain k4 y4 where 4: "p4 = (0 + k1 + k2 + k3 + k4, y4)" "unat y4 = unat y3 * 2 ^ k4"
      "2 ^ (32 - 2) \<le> unat y4"
    using nlz_step [OF 3(3) _ _ _ 3(1) p4_def] by auto
  have "nlz x = (if snd p4 \<le> 0x7FFFFFFF then fst p4 + 1 else fst p4)"
    by (simp only: nlz_def Let_def split_beta prod.collapse fst_conv snd_conv p1_def p2_def p3_def p4_def)
  then have n: "nlz x = (if y4 \<le> 0x7FFFFFFF then k1 + k2 + k3 + k4 + 1 else k1 + k2 + k3 + k4)"
    using 4(1) by simp
  have y4: "unat y4 = unat x * 2 ^ (k1 + k2 + k3 + k4)"
    using 1(2) 2(2) 3(2) 4(2) by (simp add: power_add ac_simps)
  have "2 ^ 31 \<le> unat x * 2 ^ nlz x \<and> unat x * 2 ^ nlz x < 2 ^ 32"
  proof (cases "y4 \<le> 0x7FFFFFFF")
    case True
    then have "unat y4 < 2 ^ 31" by (simp add: word_le_nat_alt)
    then show ?thesis using 4(3) y4 True n by simp
  next
    case False
    then have "2 ^ 31 \<le> unat y4" by (simp add: word_le_nat_alt)
    then show ?thesis using y4 False n unat_lt2p [of y4] by simp
  qed
  then show "2 ^ 31 \<le> unat x * 2 ^ nlz x" "unat x * 2 ^ nlz x < 2 ^ 32" by blast+
qed

section \<open>Unsigned division\<close>

lemma unat_hi: "unat (ucast (drop_bit 32 (n :: u64)) :: u32) = unat n div 2 ^ 32"
proof -
  have "unat n div 2 ^ 32 < 2 ^ 32" using unat_lt2p [of n] by (simp add: less_mult_imp_div_less)
  then show ?thesis
    by (simp add: unsigned_ucast_eq drop_bit_eq_div unat_div take_bit_nat_eq_self)
qed

lemma unat_lo: "unat (ucast (n :: u64) :: u32) = unat n mod 2 ^ 32"
  by (simp add: unsigned_ucast_eq take_bit_eq_mod)

lemma unat_wide: "unat (ucast (x :: u32) :: u64) = unat x"
  using unat_lt2p [of x] by (simp add: unsigned_ucast_eq take_bit_nat_eq_self)

lemma divl_ok:
  assumes "d \<noteq> 0" "unat n < 2 ^ 32 * unat d"
  shows "\<exists>q. divl n d = Inr q \<and> unat q = unat n div unat d"
proof -
  have "unat n div unat d < 2 ^ 32" using assms by (simp add: div_less_iff_less_mult unat_gt_0)
  then show ?thesis using assms(1) by (simp add: divl_def unat_of_nat)
qed

lemma short_division:
  fixes n1 n0 d b :: nat
  assumes "0 < d" "n0 < b"
  shows "(b * (n1 mod d) + n0) div d + b * (n1 div d) = (b * n1 + n0) div d"
    and "b * (n1 mod d) + n0 < b * d"
proof -
  have "b * n1 + n0 = (b * (n1 mod d) + n0) + (b * (n1 div d)) * d"
    by (metis add.assoc add.commute add_mult_distrib2 mult.assoc mult.commute div_mult_mod_eq)
  then have "(b * n1 + n0) div d = ((b * (n1 mod d) + n0) + (b * (n1 div d)) * d) div d" by argo
  then show "(b * (n1 mod d) + n0) div d + b * (n1 div d) = (b * n1 + n0) div d"
    using assms(1) by (simp only: div_mult_self1)
  have "n1 mod d + 1 \<le> d" using assms(1) by (simp add: Suc_le_eq)
  then have "b * (n1 mod d + 1) \<le> b * d" by (rule mult_le_mono2)
  then show "b * (n1 mod d) + n0 < b * d" using assms(2) by (simp add: algebra_simps)
qed

lemma udiv64_short:
  assumes hi: "drop_bit 32 d = 0" and d: "d \<noteq> 0"
  shows "\<exists>q. udiv64 n d = Inr q \<and> unat q = unat n div unat d"
proof -
  let ?n1 = "ucast (drop_bit 32 n) :: u32" and ?n0 = "ucast n :: u32" and ?d0 = "ucast d :: u32"
  let ?b = "push_bit 32 1 :: u64"
  have "unat (drop_bit 32 d) = 0" using hi by simp
  then have dhi: "unat d < 2 ^ 32" by (simp add: drop_bit_eq_div unat_div div_eq_0_iff)
  then have d0: "unat ?d0 = unat d" by (simp add: unat_lo)
  then have d0': "0 < unat ?d0" using d by (simp add: unat_gt_0)
  then have nz: "?d0 \<noteq> 0" by (metis less_irrefl unat_0)
  have b: "unat ?b = 2 ^ 32" by simp
  have n0: "unat ?n0 < 2 ^ 32" using unat_lt2p [of ?n0] by simp
  have n: "unat n = 2 ^ 32 * unat ?n1 + unat ?n0"
    by (simp only: unat_hi [of n] unat_lo [of n] mult_div_mod_eq)
  note sd = short_division [OF d0' n0, of "unat ?n1"]
  have "2 ^ 32 * (unat ?n1 mod unat ?d0) + unat ?n0 < 2 ^ 64"
    using sd(2) dhi d0 by simp
  then have arg: "unat (?b * ucast (?n1 mod ?d0) + ucast ?n0) = 2 ^ 32 * (unat ?n1 mod unat ?d0) + unat ?n0"
    using b by (simp add: unat_word_ariths unat_wide unat_mod del: push_bit_of_1)
  obtain q where q: "divl (?b * ucast (?n1 mod ?d0) + ucast ?n0) ?d0 = Inr q"
      "unat q = (2 ^ 32 * (unat ?n1 mod unat ?d0) + unat ?n0) div unat ?d0"
    using divl_ok [OF nz, of "?b * ucast (?n1 mod ?d0) + ucast ?n0"] arg sd(2) by auto
  have sum: "unat q + 2 ^ 32 * (unat ?n1 div unat ?d0) = unat n div unat d"
    using sd(1) q(2) n d0 by simp
  then have "unat q + 2 ^ 32 * (unat ?n1 div unat ?d0) < 2 ^ 64"
    using le_less_trans [OF div_le_dividend unat_lt2p [of n], of "unat d"] by simp
  then have "unat (ucast q + ?b * ucast (?n1 div ?d0)) = unat n div unat d"
    using b sum by (simp add: unat_word_ariths unat_wide unat_div del: push_bit_of_1)
  then show ?thesis using hi nz q(1) by (simp add: udiv64_def Let_def)
qed

text \<open>
  The long branch estimates the quotient with the divisor truncated to its top 32 bits: on
  numbers below \<open>2 ^ 64\<close> the estimate is exact or one too large.
\<close>

lemma truncated_divisor:
  fixes n d k :: nat
  assumes k: "1 \<le> k" "k \<le> 32" and d: "2 ^ (31 + k) \<le> d" and n: "n < 2 ^ 64"
  defines "w \<equiv> (d div 2 ^ k) * 2 ^ k"
  shows "n div d \<le> n div w" "n div w \<le> n div d + 1"
proof -
  define r where "r = d mod 2 ^ k"
  define t where "t = n div d"
  have wr: "d = w + r" by (simp only: w_def r_def div_mult_mod_eq)
  have "(2::nat) ^ (31 + k) = 2 ^ 31 * 2 ^ k" by (simp add: power_add)
  then have "2 ^ 31 \<le> d div 2 ^ k" using div_le_mono [OF d, of "2 ^ k"] by simp
  then have w: "2 ^ (31 + k) \<le> w" by (simp add: w_def power_add)
  then have wpos: "0 < w" by (rule less_le_trans [rotated]) simp
  have "w \<le> d" using wr by simp
  then show "n div d \<le> n div w" using wpos by (rule div_le_mono2 [rotated])
  have "r < 2 ^ k" by (simp add: r_def)
  then have rk: "r \<le> 2 ^ k - 1" by simp
  have "t * 2 ^ (31 + k) \<le> n"
    using d by (metis div_times_less_eq_dividend le_trans mult_le_mono2 t_def)
  then have "t * 2 ^ (31 + k) < 2 ^ (33 - k) * 2 ^ (31 + k)"
    using n k by (simp flip: power_add)
  then have t: "t + 1 \<le> 2 ^ (33 - k)" by simp
  have tr: "(t + 1) * r \<le> w"
  proof (cases "k = 1")
    case True
    then show ?thesis using mult_le_mono [OF t rk] w by simp
  next
    case False
    have "(t + 1) * r \<le> 2 ^ (33 - k) * (2 ^ k - 1)" by (rule mult_le_mono [OF t rk])
    also have "\<dots> \<le> 2 ^ (33 - k) * 2 ^ k" by simp
    also have "\<dots> = 2 ^ 33" using k by (simp flip: power_add)
    also have "\<dots> \<le> 2 ^ (31 + k)" using False k by (intro power_increasing) auto
    finally show ?thesis using w by simp
  qed
  have m: "n mod d < d" using wr wpos by simp
  have "n = t * d + n mod d" by (simp add: t_def)
  also have "\<dots> < t * d + d" using m by simp
  also have "\<dots> = (t + 1) * w + (t + 1) * r" using wr by (simp add: algebra_simps)
  also have "\<dots> \<le> (t + 2) * w" using tr by (simp add: algebra_simps)
  finally have "n div w < t + 2" using wpos by (simp add: div_less_iff_less_mult)
  then show "n div w \<le> n div d + 1" by (simp add: t_def)
qed

lemma normalized_divisor:
  fixes d :: u64
  assumes hi: "drop_bit 32 d \<noteq> 0"
  defines "s \<equiv> nlz (ucast (drop_bit 32 d))"
  defines "v \<equiv> ucast (drop_bit 32 (push_bit s d)) :: u32"
  shows "s < 32" "2 ^ (31 + (32 - s)) \<le> unat d" "unat v = unat d div 2 ^ (32 - s)" "2 ^ 31 \<le> unat v"
proof -
  let ?d1 = "ucast (drop_bit 32 d) :: u32"
  have d1: "unat ?d1 = unat d div 2 ^ 32" by (rule unat_hi)
  have "unat (drop_bit 32 d) \<noteq> 0" using hi by (simp add: unat_0_iff)
  then have "unat ?d1 \<noteq> 0" using d1 by (simp add: drop_bit_eq_div unat_div)
  then have pos: "?d1 \<noteq> 0" "1 \<le> unat ?d1" by auto
  note nz = nlz_correct [OF pos(1), folded s_def]
  have "(2::nat) ^ s \<le> unat ?d1 * 2 ^ s" using pos(2) by simp
  then have "(2::nat) ^ s < 2 ^ 32" using nz(2) by linarith
  then show s: "s < 32" by (rule power_less_imp_less_exp [rotated]) simp
  have "(2::nat) ^ 32 = 2 ^ (32 - s) * 2 ^ s" using s by (simp flip: power_add)
  then have "unat ?d1 * 2 ^ s < 2 ^ (32 - s) * 2 ^ s" using nz(2) by linarith
  then have up: "unat ?d1 < 2 ^ (32 - s)" by simp
  have "(2::nat) ^ 31 = 2 ^ (31 - s) * 2 ^ s" using s by (simp flip: power_add)
  then have "2 ^ (31 - s) * 2 ^ s \<le> unat ?d1 * 2 ^ s" using nz(1) by linarith
  then have lo: "2 ^ (31 - s) \<le> unat ?d1" by simp
  have "(2::nat) ^ (31 - s) * 2 ^ 32 \<le> unat ?d1 * 2 ^ 32" using lo by simp
  also have "\<dots> \<le> unat d" unfolding d1 by simp
  finally have "(2::nat) ^ (31 - s) * 2 ^ 32 \<le> unat d" .
  moreover have "31 - s + 32 = 31 + (32 - s)" using s by simp
  then have "(2::nat) ^ (31 - s) * 2 ^ 32 = 2 ^ (31 + (32 - s))" by (metis power_add)
  ultimately show dlo: "2 ^ (31 + (32 - s)) \<le> unat d" by simp
  have "unat d < (unat ?d1 + 1) * 2 ^ 32" unfolding d1 by (simp add: div_less_iff_less_mult [symmetric])
  also have "\<dots> \<le> 2 ^ (32 - s) * 2 ^ 32" using up by (intro mult_le_mono1) simp
  finally have "unat d * 2 ^ s < 2 ^ (32 - s) * 2 ^ 32 * 2 ^ s" by simp
  also have "(2::nat) ^ (32 - s) * 2 ^ 32 * 2 ^ s = 2 ^ (32 - s + 32 + s)" by (simp only: power_add)
  also have "32 - s + 32 + s = 64" using s by simp
  finally have "unat (push_bit s d) = unat d * 2 ^ s" by (intro unat_push) simp
  then have "unat v = (unat d * 2 ^ s) div 2 ^ 32" unfolding v_def by (simp only: unat_hi)
  also have "(2::nat) ^ 32 = 2 ^ (32 - s) * 2 ^ s" using s by (simp flip: power_add)
  finally show v: "unat v = unat d div 2 ^ (32 - s)" by simp
  have "(2::nat) ^ (31 + (32 - s)) div 2 ^ (32 - s) = 2 ^ 31" by (simp add: power_add)
  then show "2 ^ 31 \<le> unat v" using div_le_mono [OF dlo, of "2 ^ (32 - s)"] v by simp
qed

lemma quotient_correction:
  fixes n d q :: u64
  assumes d: "d \<le> n" "0 < unat d" and q: "unat n div unat d \<le> unat q" "unat q \<le> unat n div unat d + 1"
  shows "unat (if n - (q - 1) * d < d then q - 1 else q) = unat n div unat d"
proof -
  define t where "t = unat n div unat d"
  have "1 \<le> t" using d unfolding t_def by (simp add: word_le_nat_alt Suc_le_eq div_greater_zero_iff)
  then have q1: "unat (q - 1) = unat q - 1" using q(1) by (intro unat_minus_one) (auto simp: t_def)
  have "unat (q - 1) \<le> t" using q(2) q1 by (simp add: t_def)
  then have le: "unat (q - 1) * unat d \<le> unat n"
    unfolding t_def by (metis div_times_less_eq_dividend le_trans mult_le_mono1)
  then have "unat (q - 1) * unat d < 2 ^ 64" using unat_lt2p [of n] by simp
  then have p: "unat ((q - 1) * d) = unat (q - 1) * unat d" by (simp add: unat_word_ariths)
  then have diff: "unat (n - (q - 1) * d) = unat n - (unat q - 1) * unat d"
    using le q1 by (simp add: unat_sub word_le_nat_alt)
  have n: "unat n = t * unat d + unat n mod unat d" by (simp add: t_def)
  show ?thesis
  proof (cases "unat q = t")
    case True
    then have "unat (n - (q - 1) * d) = unat d + unat n mod unat d"
      using diff n \<open>1 \<le> t\<close> by (cases t) simp_all
    then show ?thesis using True by (simp add: word_less_nat_alt t_def)
  next
    case False
    then have "unat q = t + 1" using q by (simp add: t_def)
    moreover from this have "unat (n - (q - 1) * d) = unat n mod unat d" using diff n by simp
    ultimately show ?thesis using q1 d(2) by (simp add: word_less_nat_alt t_def)
  qed
qed

lemma udiv64_long:
  assumes hi: "drop_bit 32 d \<noteq> 0"
  shows "\<exists>q. udiv64 n d = Inr q \<and> unat q = unat n div unat d"
proof (cases "n < d")
  case True
  then show ?thesis using hi by (simp add: udiv64_def word_less_nat_alt)
next
  case False
  define s where "s = nlz (ucast (drop_bit 32 d))"
  define v where "v = (ucast (drop_bit 32 (push_bit s d)) :: u32)"
  note nd = normalized_divisor [OF hi, folded s_def, folded v_def]
  have "unat (drop_bit 1 n) = unat n div 2" by (simp add: drop_bit_eq_div unat_div)
  moreover have "unat n < 2 ^ 64" using unat_lt2p [of n] by simp
  ultimately have "unat (drop_bit 1 n) < 2 ^ 32 * unat v" using nd(4) by simp
  moreover have "v \<noteq> 0" using nd(4) by auto
  ultimately obtain q0 where q0: "divl (drop_bit 1 n) v = Inr q0" "unat q0 = unat n div 2 div unat v"
    using divl_ok [of v "drop_bit 1 n"] \<open>unat (drop_bit 1 n) = unat n div 2\<close> by auto
  define q where "q = (ucast (drop_bit (31 - s) q0) :: u64)"
  have "unat q = unat q0 div 2 ^ (31 - s)" unfolding q_def 
    by (simp only: unat_wide unat_drop_bit_eq) (simp only: drop_bit_eq_div)
  also have "\<dots> = unat n div (unat v * (2 ^ (31 - s) * 2))"
    unfolding q0(2) by (simp add: div_mult2_eq [symmetric] ac_simps)
  also have "(2::nat) ^ (31 - s) * 2 = 2 ^ Suc (31 - s)" by simp
  also have "Suc (31 - s) = 32 - s" using nd(1) by simp
  finally have q: "unat q = unat n div ((unat d div 2 ^ (32 - s)) * 2 ^ (32 - s))" using nd(3) by simp
  have "1 \<le> 32 - s" "32 - s \<le> 32" using nd(1) by auto
  note tr = truncated_divisor [OF this nd(2) \<open>unat n < 2 ^ 64\<close>, folded q]
  have "0 < unat d" by (rule less_le_trans [OF _ nd(2)]) simp
  then have "unat (if n - (q - 1) * d < d then q - 1 else q) = unat n div unat d"
    using quotient_correction [of d n q] False tr by simp
  moreover have "udiv64 n d = Inr (if n - (q - 1) * d < d then q - 1 else q)"
    using hi False q0(1) by (simp add: udiv64_def Let_def s_def [symmetric] v_def [symmetric] q_def)
  ultimately show ?thesis by blast
qed

lemma udiv64_correct: "d \<noteq> 0 \<Longrightarrow> udiv64 n d = Inr (n div d)"
proof -
  assume d: "d \<noteq> 0"
  obtain q where "udiv64 n d = Inr q" "unat q = unat n div unat d"
    using udiv64_short [OF _ d] udiv64_long by blast
  then show ?thesis by (simp add: word_unat_eq_iff unat_div)
qed

lemma udiv64_zero: "udiv64 n 0 = Inl Divide_error"
  by (simp add: udiv64_def)

section \<open>Remainders and signed division\<close>

lemma umod64_correct: "d \<noteq> 0 \<Longrightarrow> umod64 n d = Inr (ucast (n mod d))"
  by (simp add: umod64_def udiv64_correct minus_mult_div_eq_mod)

lemma word_of_abs: "(word_of_int \<bar>sint n\<bar> :: u64) = (if 0 \<le> sint n then n else - n)"
proof (cases "0 \<le> sint n")
  case False
  then have "word_of_int \<bar>sint n\<bar> = - (word_of_int (sint n) :: u64)" by simp
  then show ?thesis using False by simp
qed simp

lemma uint_abs: "uint (if 0 \<le> sint (n :: u64) then n else - n) = \<bar>sint n\<bar>"
proof -
  have "\<bar>sint n\<bar> < 2 ^ 64" using sint_lt [of n] sint_ge [of n] by simp
  then show ?thesis unfolding word_of_abs [symmetric] by (simp add: uint_word_of_int_eq take_bit_int_eq_self)
qed

lemma sdiv64_correct:
  assumes "d \<noteq> 0"
  shows "sdiv64 n d = Inr (word_of_int (sint n sdiv sint d))"
proof -
  let ?n = "if 0 \<le> sint n then n else - n" and ?d = "if 0 \<le> sint d then d else - d"
  have "?d \<noteq> 0" using assms by auto
  then have q: "udiv64 ?n ?d = Inr (?n div ?d)" by (rule udiv64_correct)
  have "uint (?n div ?d) = \<bar>sint n\<bar> div \<bar>sint d\<bar>"
    by (simp only: uint_div uint_abs)
  then have qi: "?n div ?d = word_of_int (\<bar>sint n\<bar> div \<bar>sint d\<bar>)"
    by (metis word_of_int_uint)
  have d: "sint d \<noteq> 0" using assms by (simp only: signed_eq_0_iff not_False_eq_True)
  have n: "\<bar>sint n\<bar> div \<bar>sint d\<bar> = 0" if "sint n = 0" using that by simp
  have "(if (sint n < 0) = (sint d < 0) then ?n div ?d else - (?n div ?d)) =
      word_of_int (sint n sdiv sint d)"
    unfolding qi signed_divide_int_def using d n by (auto simp: sgn_if)
  then show ?thesis using q by (simp add: sdiv64_def Let_def)
qed

lemma ucast_word_of_int: "(ucast (word_of_int k :: u64) :: u32) = word_of_int k"
  by (rule bit_word_eqI) (simp add: bit_ucast_iff bit_of_int_iff)

lemma smod64_correct:
  assumes "d \<noteq> 0"
  shows "smod64 n d = Inr (word_of_int (sint n smod sint d))"
proof -
  have "n - d * word_of_int (sint n sdiv sint d) = word_of_int (sint n - sint d * (sint n sdiv sint d))"
    by simp
  also have "sint n - sint d * (sint n sdiv sint d) = sint n smod sint d"
    by (rule minus_mult_sdiv_eq_smod)
  finally have "(ucast (n - d * word_of_int (sint n sdiv sint d)) :: u32) =
      word_of_int (sint n smod sint d)"
    by (simp add: ucast_word_of_int)
  then show ?thesis by (simp add: smod64_def sdiv64_correct [OF assms])
qed

end
