(* ===== verification/Kstring.thy ===== *)
theory Kstring
  imports Prelude
begin

text \<open>
  The string routines of \<^verbatim>\<open>lib/string.c\<close> on a flat memory of bytes, with pointers as 32-bit
  addresses. A routine bounded by a size is a total function; one that runs to a terminator
  is a partial function, whose theorems show that it returns when there is one.
  \<open>str_at m p s\<close> says that the null-terminated string at \<open>p\<close> is \<open>s\<close>.
\<close>

type_synonym bmem = "ptr \<Rightarrow> u8"

section \<open>Blocks\<close>

function copy_up :: "ptr \<Rightarrow> ptr \<Rightarrow> u32 \<Rightarrow> bmem \<Rightarrow> ptr \<times> bmem" where
  "copy_up dst src n m = (if n > 0 then copy_up (dst + 1) (src + 1) (n - 1) (m(dst := m src)) else (dst, m))"
  by pat_completeness auto
termination by (relation "measure (\<lambda>(dst, src, n, m). unat n)") (auto simp: count_down)

function copy_down :: "ptr \<Rightarrow> ptr \<Rightarrow> u32 \<Rightarrow> bmem \<Rightarrow> ptr \<times> bmem" where
  "copy_down dst src n m =
     (if n > 0 then copy_down (dst - 1) (src - 1) (n - 1) (m(dst - 1 := m (src - 1))) else (dst, m))"
  by pat_completeness auto
termination by (relation "measure (\<lambda>(dst, src, n, m). unat n)") (auto simp: count_down)

definition memcpy :: "ptr \<Rightarrow> ptr \<Rightarrow> u32 \<Rightarrow> bmem \<Rightarrow> (ptr \<times> bmem) res" where
  "memcpy dst0 src0 n m = require (dst0 \<noteq> NULL \<or> n = 0) (require (src0 \<noteq> NULL \<or> n = 0)
     (let (dst, m) = copy_up dst0 src0 n m in Inr (dst0, m)))"

definition memmove :: "ptr \<Rightarrow> ptr \<Rightarrow> u32 \<Rightarrow> bmem \<Rightarrow> (ptr \<times> bmem) res" where
  "memmove dst src n m = require (dst \<noteq> NULL \<or> n = 0) (require (src \<noteq> NULL \<or> n = 0)
     (Inr (if dst < src then copy_up dst src n m else copy_down (dst + n) (src + n) n m)))"

function memcmp_loop :: "ptr \<Rightarrow> ptr \<Rightarrow> u32 \<Rightarrow> bmem \<Rightarrow> int" where
  "memcmp_loop a b n m = (if n > 0
     then if m a \<noteq> m b then if m a > m b then 1 else - 1 else memcmp_loop (a + 1) (b + 1) (n - 1) m
     else 0)"
  by pat_completeness auto
termination by (relation "measure (\<lambda>(a, b, n, m). unat n)") (auto simp: count_down)

definition memcmp :: "ptr \<Rightarrow> ptr \<Rightarrow> u32 \<Rightarrow> bmem \<Rightarrow> int res" where
  "memcmp a b n m = require (a \<noteq> NULL \<or> n = 0) (require (b \<noteq> NULL \<or> n = 0) (Inr (memcmp_loop a b n m)))"

function memchr_loop :: "ptr \<Rightarrow> u8 \<Rightarrow> u32 \<Rightarrow> bmem \<Rightarrow> ptr" where
  "memchr_loop block ch n m =
     (if n > 0 then if m block = ch then block else memchr_loop (block + 1) ch (n - 1) m else NULL)"
  by pat_completeness auto
termination by (relation "measure (\<lambda>(a, ch, n, m). unat n)") (auto simp: count_down)

definition memchr :: "ptr \<Rightarrow> u8 \<Rightarrow> u32 \<Rightarrow> bmem \<Rightarrow> ptr res" where
  "memchr block ch n m = require (block \<noteq> NULL \<or> n = 0) (Inr (memchr_loop block ch n m))"

function memset_loop :: "ptr \<Rightarrow> u8 \<Rightarrow> u32 \<Rightarrow> bmem \<Rightarrow> bmem" where
  "memset_loop dst v n m = (if n > 0 then memset_loop (dst + 1) v (n - 1) (m(dst := v)) else m)"
  by pat_completeness auto
termination by (relation "measure (\<lambda>(dst, v, n, m). unat n)") (auto simp: count_down)

definition memset :: "ptr \<Rightarrow> u8 \<Rightarrow> u32 \<Rightarrow> bmem \<Rightarrow> (ptr \<times> bmem) res" where
  "memset dst v n m = require (dst \<noteq> NULL \<or> n = 0) (Inr (dst, memset_loop dst v n m))"

section \<open>Strings\<close>

partial_function (option) strcmp_loop :: "ptr \<Rightarrow> ptr \<Rightarrow> bmem \<Rightarrow> int option" where
  "strcmp_loop a b m = (if m a \<noteq> 0 \<and> m a = m b then strcmp_loop (a + 1) (b + 1) m
     else Some (if m a < m b then - 1 else if m a > m b then 1 else 0))"

definition strcmp :: "ptr \<Rightarrow> ptr \<Rightarrow> bmem \<Rightarrow> int exec" where
  "strcmp a b m = requireE (a \<noteq> NULL) (requireE (b \<noteq> NULL) (map_option Inr (strcmp_loop a b m)))"

partial_function (option) strchr_loop :: "ptr \<Rightarrow> u8 \<Rightarrow> bmem \<Rightarrow> ptr option" where
  "strchr_loop string c m = (if m string = c then Some string
     else if m string = 0 then Some NULL else strchr_loop (string + 1) c m)"

definition strchr :: "ptr \<Rightarrow> u8 \<Rightarrow> bmem \<Rightarrow> ptr exec" where
  "strchr string c m = requireE (string \<noteq> NULL) (map_option Inr (strchr_loop string c m))"

partial_function (option) strcspn_loop :: "ptr \<Rightarrow> ptr \<Rightarrow> u32 \<Rightarrow> bmem \<Rightarrow> u32 exec" where
  "strcspn_loop string stop len m = (if m (string + len) \<noteq> 0
     then bindE (strchr stop (m (string + len)) m) (\<lambda>r.
       if r \<noteq> NULL then okE len else strcspn_loop string stop (len + 1) m)
     else okE len)"

definition strcspn :: "ptr \<Rightarrow> ptr \<Rightarrow> bmem \<Rightarrow> u32 exec" where
  "strcspn string stop m = strcspn_loop string stop 0 m"

partial_function (option) strpbrk :: "ptr \<Rightarrow> ptr \<Rightarrow> bmem \<Rightarrow> ptr exec" where
  "strpbrk string stop m = (if m string \<noteq> 0
     then bindE (strchr stop (m string) m) (\<lambda>r.
       if r \<noteq> NULL then okE string else strpbrk (string + 1) stop m)
     else okE NULL)"

partial_function (option) strrchr_loop :: "ptr \<Rightarrow> u8 \<Rightarrow> ptr \<Rightarrow> bmem \<Rightarrow> ptr option" where
  "strrchr_loop string c p m = (if m string \<noteq> 0
     then strrchr_loop (string + 1) c (if m string = c then string else p) m
     else Some p)"

definition strrchr :: "ptr \<Rightarrow> u8 \<Rightarrow> bmem \<Rightarrow> ptr option" where
  "strrchr string c m = strrchr_loop string c NULL m"

partial_function (option) strspn_loop :: "ptr \<Rightarrow> ptr \<Rightarrow> u32 \<Rightarrow> bmem \<Rightarrow> u32 exec" where
  "strspn_loop string skip len m = (if m (string + len) \<noteq> 0
     then bindE (strchr skip (m (string + len)) m) (\<lambda>r.
       if r = NULL then okE len else strspn_loop string skip (len + 1) m)
     else okE len)"

definition strspn :: "ptr \<Rightarrow> ptr \<Rightarrow> bmem \<Rightarrow> u32 exec" where
  "strspn string skip m = strspn_loop string skip 0 m"

partial_function (option) strlen_loop :: "ptr \<Rightarrow> bmem \<Rightarrow> ptr option" where
  "strlen_loop p m = (if m p \<noteq> 0 then strlen_loop (p + 1) m else Some p)"

definition strlen :: "ptr \<Rightarrow> bmem \<Rightarrow> u32 exec" where
  "strlen string m = requireE (string \<noteq> NULL) (map_option (\<lambda>p. Inr (p - string)) (strlen_loop string m))"

function strnlen_loop :: "ptr \<Rightarrow> u32 \<Rightarrow> u32 \<Rightarrow> bmem \<Rightarrow> u32" where
  "strnlen_loop string maxlen len m = (if m (string + len) \<noteq> 0 \<and> len < maxlen
     then strnlen_loop string maxlen (len + 1) m else len)"
  by pat_completeness auto
termination by (relation "measure (\<lambda>(string, maxlen, len, m). unat maxlen - unat len)") (auto simp: count_up)

definition strnlen :: "ptr \<Rightarrow> u32 \<Rightarrow> bmem \<Rightarrow> u32" where
  "strnlen string maxlen m = strnlen_loop string maxlen 0 m"

partial_function (option) strstr_loop :: "ptr \<Rightarrow> ptr \<Rightarrow> u32 \<Rightarrow> u32 \<Rightarrow> u32 \<Rightarrow> bmem \<Rightarrow> ptr exec" where
  "strstr_loop haystack needle needle_len lst i m = (if i \<le> lst
     then bindE (Some (memcmp (haystack + i) needle needle_len m)) (\<lambda>c.
       if c = 0 then okE (haystack + i)
       else strstr_loop haystack needle needle_len lst (i + 1) m)
     else okE NULL)"

definition strstr :: "ptr \<Rightarrow> ptr \<Rightarrow> bmem \<Rightarrow> ptr exec" where
  "strstr haystack needle m = bindE (strlen haystack m) (\<lambda>haystack_len.
     bindE (strlen needle m) (\<lambda>needle_len.
     if haystack_len \<ge> needle_len
     then strstr_loop haystack needle needle_len (haystack_len - needle_len) 0 m
     else okE NULL))"

text \<open>\<^verbatim>\<open>strtok_r\<close>: the first loop returns \<open>None\<close> at the end of the string, the second the end of
  the token.\<close>

partial_function (option) strtok_skip :: "ptr \<Rightarrow> ptr \<Rightarrow> bmem \<Rightarrow> (ptr \<times> bool) exec" where
  "strtok_skip s delimiters m = bindE (strchr delimiters (m s) m) (\<lambda>r.
     if r \<noteq> NULL then if m s = 0 then okE (s, True) else strtok_skip (s + 1) delimiters m
     else okE (s, False))"

partial_function (option) strtok_token :: "ptr \<Rightarrow> ptr \<Rightarrow> bmem \<Rightarrow> ptr exec" where
  "strtok_token s delimiters m = bindE (strchr delimiters (m s) m) (\<lambda>r.
     if r = NULL then strtok_token (s + 1) delimiters m else okE s)"

definition strtok_r :: "ptr \<Rightarrow> ptr \<Rightarrow> ptr \<Rightarrow> bmem \<Rightarrow> (ptr \<times> ptr \<times> bmem) exec" where
  "strtok_r s delimiters save_ptr m = requireE (delimiters \<noteq> NULL)
     (let s = (if s = NULL then save_ptr else s) in requireE (s \<noteq> NULL)
     (bindE (strtok_skip s delimiters m) (\<lambda>(s, ended).
       if ended then okE (NULL, s, m)
       else let token = s in bindE (strtok_token s delimiters m) (\<lambda>s.
         if m s \<noteq> 0 then okE (token, s + 1, m(s := 0)) else okE (token, s, m)))))"

definition strlcpy :: "ptr \<Rightarrow> ptr \<Rightarrow> u32 \<Rightarrow> bmem \<Rightarrow> (u32 \<times> bmem) exec" where
  "strlcpy dst src n m = requireE (dst \<noteq> NULL) (requireE (src \<noteq> NULL)
     (bindE (strlen src m) (\<lambda>src_len.
      if n > 0
      then let dst_len = (if src_len < n - 1 then src_len else n - 1) in
        bindE (Some (memcpy dst src dst_len m)) (\<lambda>(_, m). okE (src_len, m(dst + dst_len := 0)))
      else okE (src_len, m))))"

definition strlcat :: "ptr \<Rightarrow> ptr \<Rightarrow> u32 \<Rightarrow> bmem \<Rightarrow> (u32 \<times> bmem) exec" where
  "strlcat dst src n m = requireE (dst \<noteq> NULL) (requireE (src \<noteq> NULL)
     (bindE (strlen src m) (\<lambda>src_len. bindE (strlen dst m) (\<lambda>dst_len.
      if n > 0 \<and> dst_len < n
      then let copy_cnt = (if src_len < n - dst_len - 1 then src_len else n - dst_len - 1) in
        bindE (Some (memcpy (dst + dst_len) src copy_cnt m)) (\<lambda>(_, m).
          okE (src_len + dst_len, m(dst + dst_len + copy_cnt := 0)))
      else okE (src_len + dst_len, m)))))"

section \<open>Copying\<close>

declare copy_up.simps [simp del] copy_down.simps [simp del] memcmp_loop.simps [simp del]
  memset_loop.simps [simp del] memchr_loop.simps [simp del] strnlen_loop.simps [simp del]

text \<open>\<open>in_block x p n\<close>: address \<open>x\<close> lies in the \<open>n\<close> bytes at \<open>p\<close>.\<close>

definition in_block :: "ptr \<Rightarrow> ptr \<Rightarrow> u32 \<Rightarrow> bool" where
  "in_block x p n \<longleftrightarrow> x - p < n"

lemma copy_up_bytes:
  assumes "unat (src - dst) + unat n \<le> 2 ^ 32"
  shows "copy_up dst src n m = (dst + n, \<lambda>x. if in_block x dst n then m (src + (x - dst)) else m x)"
  using assms
proof (induction dst src n m rule: copy_up.induct)
  case (1 dst src n m)
  show ?case
  proof (cases "n > 0")
    case False
    then have "n = 0" by (simp add: word_neq_0_conv [symmetric])
    then show ?thesis by (simp add: copy_up.simps in_block_def)
  next
    case True
    let ?m = "m(dst := m src)"
    have n: "unat (n - 1) = unat n - 1" "0 < unat n"
      using True by (simp_all add: unat_pred unat_gt_0 word_greater_zero_iff)
    have "unat (src + 1 - (dst + 1)) + unat (n - 1) \<le> 2 ^ 32" using 1(2) n by simp
    note IH = 1(1) [OF True this]
    have "(if in_block x (dst + 1) (n - 1) then ?m (src + 1 + (x - (dst + 1))) else ?m x) =
        (if in_block x dst n then m (src + (x - dst)) else m x)" for x
    proof (cases "x = dst")
      case eq: True
      have "\<not> in_block x (dst + 1) (n - 1)"
        by (simp add: eq in_block_def not_less)
      then show ?thesis using eq True by (simp add: in_block_def)
    next
      case ne: False
      define k where "k = x - dst"
      have "k \<noteq> 0" using ne by (simp add: k_def)
      then have "unat (k - 1) = unat k - 1" "0 < unat k" by (simp_all add: unat_minus_one unat_gt_0)
      then have ib: "in_block x (dst + 1) (n - 1) \<longleftrightarrow> in_block x dst n"
        using n by (simp add: in_block_def word_less_nat_alt k_def diff_diff_eq [symmetric] less_diff_conv)
      have "src + k \<noteq> dst" if "in_block x dst n"
      proof
        assume "src + k = dst"
        then have "(src - dst) + k = 0" by (simp add: algebra_simps)
        then have "unat ((src - dst) + k) = 0" by simp
        then have "(unat (src - dst) + unat k) mod 2 ^ 32 = 0"
          by (simp only: unat_word_ariths) simp
        moreover have "unat k < unat n" using that by (simp add: in_block_def k_def word_less_nat_alt)
        then have "unat (src - dst) + unat k < 2 ^ 32" using 1(2) by simp
        ultimately show False using \<open>0 < unat k\<close> by simp
      qed
      then show ?thesis using ne ib by (simp add: k_def algebra_simps)
    qed
    then show ?thesis by (subst copy_up.simps) (simp only: True IH if_True, simp)
  qed
qed

lemma copy_down_bytes:
  assumes "unat (dst - src) + unat n \<le> 2 ^ 32"
  shows "copy_down (dst + n) (src + n) n m =
    (dst, \<lambda>x. if in_block x dst n then m (src + (x - dst)) else m x)"
  using assms
proof (induction "unat n" arbitrary: n m)
  case 0
  then have "n = 0" by (simp add: unat_0_iff)
  then show ?case by (simp add: copy_down.simps in_block_def)
next
  case (Suc i)
  have nz: "n > 0" using Suc(2) by (simp add: word_less_nat_alt)
  have n: "unat (n - 1) = i" using Suc(2) nz by (simp add: unat_pred)
  let ?m = "m(dst + (n - 1) := m (src + (n - 1)))"
  have "unat (dst - src) + unat (n - 1) \<le> 2 ^ 32" using Suc(2,3) n by simp
  note IH = Suc(1) [OF n [symmetric] this, of ?m]
  have "(if in_block x dst (n - 1) then ?m (src + (x - dst)) else ?m x) =
      (if in_block x dst n then m (src + (x - dst)) else m x)" for x
  proof (cases "x = dst + (n - 1)")
    case True
    then show ?thesis using nz by (simp add: in_block_def word_less_nat_alt n Suc(2) [symmetric])
  next
    case False
    define k where "k = x - dst"
    have "k \<noteq> n - 1" using False by (metis k_def diff_eq_eq add.commute)
    then have "unat k \<noteq> i" using n by (metis word_unat_eq_iff)
    then have ib: "in_block x dst (n - 1) \<longleftrightarrow> in_block x dst n"
      using n Suc(2) by (auto simp: in_block_def word_less_nat_alt k_def)
    have "src + k \<noteq> dst + (n - 1)" if "in_block x dst (n - 1)"
    proof
      assume "src + k = dst + (n - 1)"
      then have "k = (dst - src) + (n - 1)" by (simp add: algebra_simps)
      moreover have "unat ((dst - src) + (n - 1)) = unat (dst - src) + i"
        using Suc(2,3) n by (simp add: unat_word_ariths)
      moreover have "unat k < i" using that n by (simp add: in_block_def k_def word_less_nat_alt)
      ultimately show False by simp
    qed
    then show ?thesis using False ib by (simp add: k_def)
  qed
  moreover have "dst + n - 1 = dst + (n - 1)" "src + n - 1 = src + (n - 1)" by simp_all
  ultimately show ?case by (subst copy_down.simps) (simp only: nz IH if_True)
qed

text \<open>\<open>no_wrap p n\<close>: the block does not run past the end of the address space.\<close>

definition no_wrap :: "ptr \<Rightarrow> u32 \<Rightarrow> bool" where
  "no_wrap p n \<longleftrightarrow> unat p + unat n \<le> 2 ^ 32"

lemma memmove_bytes:
  assumes "dst \<noteq> NULL" "src \<noteq> NULL" "no_wrap dst n" "no_wrap src n"
  shows "memmove dst src n m =
    Inr (if dst < src then dst + n else dst, \<lambda>x. if in_block x dst n then m (src + (x - dst)) else m x)"
proof (cases "dst < src")
  case True
  then have "unat (src - dst) = unat src - unat dst"
    by (simp add: unat_sub word_le_nat_alt word_less_nat_alt)
  then have "unat (src - dst) + unat n \<le> 2 ^ 32" using assms(4) True by (simp add: no_wrap_def)
  then show ?thesis using assms(1,2) True by (simp add: memmove_def copy_up_bytes)
next
  case False
  then have "unat (dst - src) = unat dst - unat src" by (simp add: unat_sub not_less)
  then have "unat (dst - src) + unat n \<le> 2 ^ 32" using assms(3) by (simp add: no_wrap_def)
  then show ?thesis using assms(1,2) False by (simp add: memmove_def copy_down_bytes)
qed

definition disjoint_blocks :: "ptr \<Rightarrow> ptr \<Rightarrow> u32 \<Rightarrow> bool" where
  "disjoint_blocks p q n \<longleftrightarrow> (\<forall>x. \<not> (in_block x p n \<and> in_block x q n))"

lemma memcpy_bytes:
  assumes "dst \<noteq> NULL" "src \<noteq> NULL" "disjoint_blocks dst src n"
  shows "memcpy dst src n m = Inr (dst, \<lambda>x. if in_block x dst n then m (src + (x - dst)) else m x)"
proof -
  have "unat (src - dst) + unat n \<le> 2 ^ 32"
  proof (rule ccontr)
    assume a: "\<not> unat (src - dst) + unat n \<le> 2 ^ 32"
    have "(unat (src - dst) + unat (dst - src)) mod 2 ^ 32 = 0"
      using unat_word_ariths(1) [of "src - dst" "dst - src"] by simp
    moreover have "unat (dst - src) < 2 ^ 32" "unat (src - dst) < 2 ^ 32" "unat n < 2 ^ 32"
      using unat_lt2p [of "dst - src"] unat_lt2p [of "src - dst"] unat_lt2p [of n] by simp_all
    ultimately have "unat (src - dst) + unat (dst - src) = 2 ^ 32"
      using a by (auto simp: mod_eq_0_iff_dvd dvd_def)
    then have "dst - src < n" using a by (simp add: word_less_nat_alt)
    then have "in_block dst src n" "in_block dst dst n"
      by (auto simp: in_block_def word_less_nat_alt)
    then show False using assms(3) by (auto simp: disjoint_blocks_def)
  qed
  then show ?thesis using assms(1,2) by (simp add: memcpy_def copy_up_bytes)
qed

section \<open>Null-terminated strings\<close>

fun str_at :: "bmem \<Rightarrow> ptr \<Rightarrow> u8 list \<Rightarrow> bool" where
  "str_at m p [] \<longleftrightarrow> m p = 0"
| "str_at m p (c # cs) \<longleftrightarrow> c \<noteq> 0 \<and> m p = c \<and> str_at m (p + 1) cs"

lemma str_at_nth:
  "str_at m p s \<longleftrightarrow> 0 \<notin> set s \<and> (\<forall>i < length s. m (p + of_nat i) = s ! i) \<and>
    m (p + of_nat (length s)) = 0"
proof (induction s arbitrary: p)
  case (Cons c s)
  have "(\<forall>i < length (c # s). m (p + of_nat i) = (c # s) ! i) \<longleftrightarrow>
      m p = c \<and> (\<forall>i < length s. m (p + 1 + of_nat i) = s ! i)"
    by (auto simp: less_Suc_eq_0_disj add.assoc)
  then show ?case using Cons [of "p + 1"] by (auto simp: add.assoc)
qed simp

lemma str_at_append:
  "str_at m p (xs @ ys) \<longleftrightarrow> 0 \<notin> set xs \<and> (\<forall>i < length xs. m (p + of_nat i) = xs ! i) \<and>
    str_at m (p + of_nat (length xs)) ys"
proof (induction xs arbitrary: p)
  case (Cons c xs)
  have "(\<forall>i < length (c # xs). m (p + of_nat i) = (c # xs) ! i) \<longleftrightarrow>
      m p = c \<and> (\<forall>i < length xs. m (p + 1 + of_nat i) = xs ! i)"
    by (auto simp: less_Suc_eq_0_disj add.assoc)
  then show ?case using Cons [of "p + 1"] by (auto simp: add.assoc)
qed simp

lemma strlen_loop_str: "str_at m p s \<Longrightarrow> strlen_loop p m = Some (p + of_nat (length s))"
proof (induction s arbitrary: p)
  case Nil
  then show ?case by (subst strlen_loop.simps) simp
next
  case (Cons c s)
  then show ?case by (subst strlen_loop.simps) (simp add: add.assoc)
qed

lemma strlen_str: "p \<noteq> NULL \<Longrightarrow> str_at m p s \<Longrightarrow> strlen p m = okE (of_nat (length s))"
  by (simp add: strlen_def strlen_loop_str)

text \<open>Lexicographic order of the bytes, as unsigned characters.\<close>

fun str_order :: "u8 list \<Rightarrow> u8 list \<Rightarrow> int" where
  "str_order [] [] = 0"
| "str_order [] (d # t) = - 1"
| "str_order (c # s) [] = 1"
| "str_order (c # s) (d # t) = (if c < d then - 1 else if d < c then 1 else str_order s t)"

lemma strcmp_loop_str: "str_at m a s \<Longrightarrow> str_at m b t \<Longrightarrow> strcmp_loop a b m = Some (str_order s t)"
proof (induction s t arbitrary: a b rule: str_order.induct)
  case (4 c s d t)
  then show ?case by (subst strcmp_loop.simps) auto
qed (subst strcmp_loop.simps, auto simp: word_greater_zero_iff)+

lemma str_order_0: "str_order s t = 0 \<longleftrightarrow> s = t"
  by (induction s t rule: str_order.induct) auto

lemma str_order_flip: "str_order t s = - str_order s t"
  by (induction s t rule: str_order.induct) auto

lemma strchr_loop_str:
  assumes "str_at m p s"
  shows "strchr_loop p c m = Some (if c = 0 \<or> c \<in> set s
    then p + of_nat (length (takeWhile (\<lambda>x. x \<noteq> c) s)) else NULL)"
  using assms
proof (induction s arbitrary: p)
  case Nil
  then show ?case by (subst strchr_loop.simps) auto
next
  case (Cons x s)
  then show ?case by (subst strchr_loop.simps) (auto simp: add.assoc)
qed

lemma strchr_null:
  assumes "str_at m p s" "p \<noteq> NULL" "no_wrap p (of_nat (length s) + 1)" "length s + 1 < 2 ^ 32"
  shows "\<exists>r. strchr p c m = okE r \<and> (r \<noteq> NULL \<longleftrightarrow> c = 0 \<or> c \<in> set s)"
proof -
  let ?k = "length (takeWhile (\<lambda>x. x \<noteq> c) s)"
  have "?k \<le> length s" by (rule length_takeWhile_le)
  moreover have "unat p + (length s + 1) \<le> 2 ^ 32"
    using assms(3,4) by (simp add: no_wrap_def unat_word_ariths unat_of_nat)
  ultimately have "unat p + ?k < 2 ^ 32" by linarith
  then have "unat (p + of_nat ?k) = unat p + ?k" by (simp add: unat_word_ariths unat_of_nat)
  moreover have "0 < unat p" using assms(2) by (simp add: unat_gt_0)
  ultimately have "p + of_nat ?k \<noteq> NULL" by auto
  then show ?thesis using strchr_loop_str [OF assms(1), of c] assms(2) by (auto simp: strchr_def)
qed

section \<open>Bounded copies\<close>

lemma of_nat_block: "i < unat (n :: u32) \<Longrightarrow> in_block (p + of_nat i) p n"
  using unat_lt2p [of n] by (simp add: in_block_def word_less_nat_alt unat_of_nat)

lemma memcpy_zero: "memcpy dst src 0 m = Inr (dst, m)"
  by (simp add: memcpy_def copy_up.simps)

lemma copied_string:
  assumes src: "str_at m src s" and k: "unat k \<le> length s"
    and cp: "m' = (\<lambda>x. if in_block x dst k then m (src + (x - dst)) else m x)"
  shows "str_at (m'(dst + k := 0)) dst (take (unat k) s)"
proof -
  have "m' (dst + of_nat i) = s ! i" if "i < unat k" for i
    using src that k of_nat_block [OF that, of dst] by (simp add: cp str_at_nth)
  moreover have "dst + of_nat i \<noteq> dst + k" if "i < unat k" for i
    using that unat_lt2p [of k] by (auto simp: unat_of_nat)
  moreover have "0 \<notin> set (take (unat k) s)" using src by (auto simp: str_at_nth dest: in_set_takeD)
  ultimately show ?thesis using k by (auto simp: str_at_nth)
qed

lemma strlcpy_str:
  assumes "dst \<noteq> NULL" "src \<noteq> NULL" "str_at m src s" "length s < 2 ^ 32" "n > 0"
    and "disjoint_blocks dst src (if of_nat (length s) < n - 1 then of_nat (length s) else n - 1)"
  shows "\<exists>m'. strlcpy dst src n m = okE (of_nat (length s), m') \<and>
    str_at m' dst (take (unat n - 1) s) \<and>
    (\<forall>x. \<not> in_block x dst n \<longrightarrow> m' x = m x)"
proof -
  let ?k = "if of_nat (length s) < n - 1 then of_nat (length s) else n - 1"
  let ?m = "\<lambda>x. if in_block x dst ?k then m (src + (x - dst)) else m x"
  have k: "unat ?k = min (length s) (unat n - 1)"
    using assms(4,5) by (auto simp: unat_of_nat word_less_nat_alt unat_pred)
  have n: "0 < unat n" using assms(5) by (simp add: word_less_nat_alt)
  have "strlcpy dst src n m = okE (of_nat (length s), ?m(dst + ?k := 0))"
    using assms(1,2,5) strlen_str [OF assms(2,3)] memcpy_bytes [OF assms(1,2,6)]
    by (simp add: strlcpy_def Let_def)
  moreover have "str_at (?m(dst + ?k := 0)) dst (take (unat ?k) s)"
    using k by (intro copied_string [OF assms(3) _ refl]) simp
  moreover have "take (unat ?k) s = take (unat n - 1) s" unfolding k by (simp add: min_def)
  moreover have "\<not> in_block x dst ?k \<and> x \<noteq> dst + ?k" if "\<not> in_block x dst n" for x
    using that k n by (auto simp: in_block_def word_less_nat_alt)
  ultimately show ?thesis by auto
qed

section \<open>Tokens\<close>

text \<open>The delimiters sit at an address where \<^verbatim>\<open>strchr\<close> can answer: it returns null exactly for
  the bytes that are neither a delimiter nor the terminator.\<close>

definition delims_at :: "bmem \<Rightarrow> ptr \<Rightarrow> u8 list \<Rightarrow> bool" where
  "delims_at m d ds \<longleftrightarrow> str_at m d ds \<and> d \<noteq> NULL \<and> length ds + 1 < 2 ^ 32 \<and>
     no_wrap d (of_nat (length ds) + 1)"

lemma strtok_skip_str:
  assumes "delims_at m d ds" "str_at m p s"
  shows "let t = dropWhile (\<lambda>c. c \<in> set ds) s in
    strtok_skip p d m = okE (p + of_nat (length s - length t), t = [])"
  using assms(2)
proof (induction s arbitrary: p)
  case Nil
  obtain r where "strchr d (m p) m = okE r" "r \<noteq> NULL"
    using strchr_null [of m d ds "m p"] assms(1) Nil by (auto simp: delims_at_def)
  then show ?case using Nil by (subst strtok_skip.simps) simp
next
  case (Cons c s)
  obtain r where r: "strchr d c m = okE r" "r \<noteq> NULL \<longleftrightarrow> c \<in> set ds"
    using strchr_null [of m d ds c] assms(1) Cons(2) by (auto simp: delims_at_def)
  have "length (dropWhile (\<lambda>c. c \<in> set ds) s) \<le> length s" by (rule length_dropWhile_le)
  then show ?case using Cons r
    by (subst strtok_skip.simps) (auto simp: Let_def add.assoc Suc_diff_le)
qed

lemma strtok_token_str:
  assumes "delims_at m d ds" "str_at m p s"
  shows "strtok_token p d m = okE (p + of_nat (length (takeWhile (\<lambda>c. c \<notin> set ds) s)))"
  using assms(2)
proof (induction s arbitrary: p)
  case Nil
  obtain r where "strchr d (m p) m = okE r" "r \<noteq> NULL"
    using strchr_null [of m d ds "m p"] assms(1) Nil by (auto simp: delims_at_def)
  then show ?case by (subst strtok_token.simps) simp
next
  case (Cons c s)
  obtain r where r: "strchr d c m = okE r" "r \<noteq> NULL \<longleftrightarrow> c \<in> set ds"
    using strchr_null [of m d ds c] assms(1) Cons(2) by (auto simp: delims_at_def)
  then show ?case using Cons by (subst strtok_token.simps) (auto simp: add.assoc)
qed

lemma str_at_cut:
  assumes s: "str_at m p (xs @ c # ys)" and len: "length (xs @ c # ys) < 2 ^ 32"
  defines "q \<equiv> p + of_nat (length xs)"
  shows "str_at (m(q := 0)) p xs" "str_at (m(q := 0)) (q + 1) ys" "m q = c" "c \<noteq> 0"
proof -
  have ne: "p + of_nat i \<noteq> q" if "i < 2 ^ 32" "i \<noteq> length xs" for i
    using that len unat_of_nat [of i, where ?'a = 32] unat_of_nat [of "length xs", where ?'a = 32]
    by (auto simp: q_def)
  show "m q = c" "c \<noteq> 0" using s by (auto simp: str_at_append q_def)
  have "0 \<notin> set xs" "\<forall>i < length xs. m (p + of_nat i) = xs ! i" using s by (auto simp: str_at_append)
  then show "str_at (m(q := 0)) p xs" using ne len by (auto simp: str_at_nth q_def)
  have "str_at m (q + 1) ys" using s by (simp add: str_at_append q_def)
  moreover have "q + 1 + of_nat i \<noteq> q" if "i \<le> length ys" for i
    using ne [of "length xs + 1 + i"] that len by (simp add: q_def ac_simps)
  ultimately show "str_at (m(q := 0)) (q + 1) ys" by (auto simp: str_at_nth)
qed

lemma strtok_r_str:
  assumes d: "delims_at m d ds" and s: "str_at m p s" "p \<noteq> NULL" "length s < 2 ^ 32"
  defines "t \<equiv> dropWhile (\<lambda>c. c \<in> set ds) s"
  defines "tok \<equiv> takeWhile (\<lambda>c. c \<notin> set ds) t"
  shows "if t = [] then \<exists>q. strtok_r p d sv m = okE (NULL, q, m) \<and> str_at m q []
    else \<exists>q m'. strtok_r p d sv m = okE (p + of_nat (length s - length t), q, m') \<and>
      str_at m' (p + of_nat (length s - length t)) tok \<and>
      str_at m' q (drop 1 (dropWhile (\<lambda>c. c \<notin> set ds) t))"
proof -
  define u where "u = takeWhile (\<lambda>c. c \<in> set ds) s"
  define a where "a = p + of_nat (length s - length t)"
  have su: "s = u @ t" by (simp add: u_def t_def)
  then have len: "length s - length t = length u" by simp
  have tp: "str_at m a t" using s(1) unfolding a_def len by (subst (asm) su) (simp add: str_at_append)
  have skip: "strtok_skip p d m = okE (a, t = [])"
    using strtok_skip_str [OF d s(1)] by (simp add: a_def t_def Let_def)
  have dn: "d \<noteq> NULL" using d by (simp add: delims_at_def)
  show ?thesis
  proof (cases "t = []")
    case True
    then show ?thesis using skip s(2) dn tp by (simp add: strtok_r_def Let_def)
  next
    case False
    let ?q = "a + of_nat (length tok)"
    have tk: "strtok_token a d m = okE ?q" using strtok_token_str [OF d tp] by (simp add: tok_def)
    have tt: "t = tok @ dropWhile (\<lambda>c. c \<notin> set ds) t" by (simp add: tok_def)
    show ?thesis
    proof (cases "dropWhile (\<lambda>c. c \<notin> set ds) t")
      case Nil
      then have e: "t = tok" using tt by (metis append_Nil2)
      then have "m ?q = 0" "str_at m ?q []" using tp by (auto simp: str_at_nth)
      then show ?thesis unfolding Nil a_def [symmetric] using False skip tk s(2) dn tp e
        by (simp add: strtok_r_def Let_def)
    next
      case (Cons c ys)
      have "length (tok @ c # ys) < 2 ^ 32" using tt Cons su s(3) by (metis len length_append le_add2 le_less_trans)
      note cut = str_at_cut [OF tp [unfolded tt [unfolded Cons]] this]
      show ?thesis unfolding Cons a_def [symmetric] using False skip tk s(2) dn cut
        by (simp add: strtok_r_def Let_def)
    qed
  qed
qed

lemma memset_loop_bytes: "memset_loop dst v n m = (\<lambda>x. if in_block x dst n then v else m x)"
proof (induction dst v n m rule: memset_loop.induct)
  case (1 dst v n m)
  show ?case
  proof (cases "n > 0")
    case False
    then have "n = 0" by (simp add: word_neq_0_conv [symmetric])
    then show ?thesis by (simp add: memset_loop.simps in_block_def)
  next
    case True
    have n: "unat (n - 1) = unat n - 1" "0 < unat n"
      using True by (simp_all add: unat_pred unat_gt_0 word_greater_zero_iff)
    have "(if in_block x (dst + 1) (n - 1) then v else (m(dst := v)) x) = (if in_block x dst n then v else m x)" for x
    proof (cases "x = dst")
      case eq: True
      then show ?thesis using True by (simp add: in_block_def)
    next
      case False
      define k where "k = x - dst"
      have "k \<noteq> 0" using False by (simp add: k_def)
      then have "unat (k - 1) = unat k - 1" "0 < unat k" by (simp_all add: unat_minus_one unat_gt_0)
      then have lt: "k - 1 < n - 1 \<longleftrightarrow> k < n" using n by (simp add: word_less_nat_alt) linarith
      have e: "x - (dst + 1) = k - 1" "x - dst = k" by (simp_all add: k_def)
      show ?thesis unfolding in_block_def e lt using False by simp
    qed
    then show ?thesis unfolding memset_loop.simps [of dst] 1 [OF True] using True by simp
  qed
qed

end
