(* ===== verification/Kstdlib.thy ===== *)
theory Kstdlib
  imports Weak_Order Kstring
begin

text \<open>
  \<^verbatim>\<open>lib/stdlib.c\<close>: decimal conversion, heap sort and binary search. An array is the sequence
  of its bytes; \<open>elem_at arr sz k\<close> is the element with 1-based index \<open>k\<close>, a block of \<open>sz\<close> bytes.
  The comparison function with its auxiliary data is an argument \<open>cmp\<close> on elements.
\<close>

section \<open>Numbers\<close>

definition isspace :: "u8 \<Rightarrow> bool" where
  "isspace c \<longleftrightarrow> c = 32 \<or> c = 12 \<or> c = 10 \<or> c = 13 \<or> c = 9 \<or> c = 11"

definition isdigit :: "u8 \<Rightarrow> bool" where
  "isdigit c \<longleftrightarrow> c \<ge> 48 \<and> c \<le> 57"

partial_function (option) atoi_space :: "ptr \<Rightarrow> bmem \<Rightarrow> ptr option" where
  "atoi_space s m = (if isspace (m s) then atoi_space (s + 1) m else Some s)"

partial_function (option) atoi_digits :: "ptr \<Rightarrow> u32 \<Rightarrow> bmem \<Rightarrow> u32 option" where
  "atoi_digits s value m = (if isdigit (m s)
     then atoi_digits (s + 1) (value * 10 - (ucast (m s) - 48)) m else Some value)"

definition atoi :: "ptr \<Rightarrow> bmem \<Rightarrow> u32 exec" where
  "atoi s m = requireE (s \<noteq> NULL) (map_option Inr
     (Option.bind (atoi_space s m) (\<lambda>s.
      let (negative, s) = (if m s = 43 then (False, s + 1) else if m s = 45 then (True, s + 1) else (False, s))
      in Option.bind (atoi_digits s 0 m) (\<lambda>value.
         Some (if \<not> negative then - value else value)))))"

section \<open>Heap sort\<close>

type_synonym elem = "u8 list"
type_synonym cmp_func = "elem \<Rightarrow> elem \<Rightarrow> int"

definition elem_at :: "u8 list \<Rightarrow> u32 \<Rightarrow> u32 \<Rightarrow> elem res" where
  "elem_at arr ofs sz =
     (if unat ofs + unat sz \<le> length arr then Inr (take (unat sz) (drop (unat ofs) arr)) else Inl Bad_access)"

function swap_bytes :: "u8 list \<Rightarrow> u32 \<Rightarrow> u32 \<Rightarrow> u32 \<Rightarrow> u32 \<Rightarrow> u8 list res" where
  "swap_bytes arr a b sz i = (if i < sz
     then let x = unat (a + i); y = unat (b + i) in
       if x < length arr \<and> y < length arr
       then let t = arr ! x; arr = arr[x := arr ! y]; arr = arr[y := t]
            in swap_bytes arr a b sz (i + 1)
       else Inl Bad_access
     else Inr arr)"
  by pat_completeness auto
termination by (relation "measure (\<lambda>(arr, a, b, sz, i). unat sz - unat i)") (auto simp: count_up)

definition do_swap :: "u8 list \<Rightarrow> u32 \<Rightarrow> u32 \<Rightarrow> u32 \<Rightarrow> u8 list res" where
  "do_swap arr a_idx b_idx sz = swap_bytes arr ((a_idx - 1) * sz) ((b_idx - 1) * sz) sz 0"

definition do_compare :: "u8 list \<Rightarrow> u32 \<Rightarrow> u32 \<Rightarrow> u32 \<Rightarrow> cmp_func \<Rightarrow> int res" where
  "do_compare arr a_idx b_idx sz cmp =
     bindR (elem_at arr ((a_idx - 1) * sz) sz) (\<lambda>a.
     bindR (elem_at arr ((b_idx - 1) * sz) sz) (\<lambda>b. Inr (cmp a b)))"

partial_function (option) heapify :: "u8 list \<Rightarrow> u32 \<Rightarrow> u32 \<Rightarrow> u32 \<Rightarrow> cmp_func \<Rightarrow> u8 list exec" where
  "heapify arr i cnt sz cmp =
     (let left = 2 * i; right = 2 * i + 1; mx = i in
      bindE (if left \<le> cnt
             then Some (bindR (do_compare arr left mx sz cmp) (\<lambda>c. Inr (if c > 0 then left else mx)))
             else okE mx) (\<lambda>mx.
      bindE (if right \<le> cnt
             then Some (bindR (do_compare arr right mx sz cmp) (\<lambda>c. Inr (if c > 0 then right else mx)))
             else okE mx) (\<lambda>mx.
      if mx = i then okE arr
      else bindE (Some (do_swap arr i mx sz)) (\<lambda>arr. heapify arr mx cnt sz cmp))))"

fun build_heap :: "nat \<Rightarrow> u8 list \<Rightarrow> u32 \<Rightarrow> u32 \<Rightarrow> cmp_func \<Rightarrow> u8 list exec" where
  "build_heap 0 arr cnt sz cmp = okE arr"
| "build_heap (Suc i) arr cnt sz cmp =
     bindE (heapify arr (of_nat (Suc i)) cnt sz cmp) (\<lambda>arr. build_heap i arr cnt sz cmp)"

fun sort_heap :: "nat \<Rightarrow> u8 list \<Rightarrow> u32 \<Rightarrow> cmp_func \<Rightarrow> u8 list exec" where
  "sort_heap (Suc (Suc i)) arr sz cmp =
     bindE (Some (do_swap arr 1 (of_nat (Suc (Suc i))) sz)) (\<lambda>arr.
     bindE (heapify arr 1 (of_nat (Suc (Suc i)) - 1) sz cmp) (\<lambda>arr. sort_heap (Suc i) arr sz cmp))"
| "sort_heap _ arr sz cmp = okE arr"

definition sort :: "u8 list \<Rightarrow> u32 \<Rightarrow> u32 \<Rightarrow> cmp_func \<Rightarrow> u8 list exec" where
  "sort arr cnt sz cmp = requireE (sz > 0)
     (bindE (build_heap (unat (cnt div 2)) arr cnt sz cmp) (\<lambda>arr.
      sort_heap (unat cnt) arr sz cmp))"

definition compare_thunk :: "cmp_func \<Rightarrow> cmp_func" where
  "compare_thunk compare a b = compare a b"

definition qsort :: "u8 list \<Rightarrow> u32 \<Rightarrow> u32 \<Rightarrow> cmp_func \<Rightarrow> u8 list exec" where
  "qsort arr cnt sz compare = sort arr cnt sz (compare_thunk compare)"

section \<open>Binary search\<close>

partial_function (option) binary_search_loop ::
    "u8 list \<Rightarrow> elem \<Rightarrow> u32 \<Rightarrow> u32 \<Rightarrow> u32 \<Rightarrow> cmp_func \<Rightarrow> u32 option exec" where
  "binary_search_loop arr key first lst sz cmp =
     (if first < lst
      then let range = (lst - first) div sz; middle = first + (range div 2) * sz in
        bindE (Some (elem_at arr middle sz)) (\<lambda>e. let c = cmp key e in
        if c < 0 then binary_search_loop arr key first middle sz cmp
        else if c > 0 then binary_search_loop arr key (middle + sz) lst sz cmp
        else okE (Some middle))
      else okE None)"

definition binary_search :: "elem \<Rightarrow> u8 list \<Rightarrow> u32 \<Rightarrow> u32 \<Rightarrow> cmp_func \<Rightarrow> u32 option exec" where
  "binary_search key arr cnt sz cmp = binary_search_loop arr key 0 (sz * cnt) sz cmp"

definition bsearch :: "elem \<Rightarrow> u8 list \<Rightarrow> u32 \<Rightarrow> u32 \<Rightarrow> cmp_func \<Rightarrow> u32 option exec" where
  "bsearch key arr cnt sz compare = binary_search key arr cnt sz (compare_thunk compare)"

section \<open>Arrays of elements\<close>

definition elems :: "u8 list \<Rightarrow> nat \<Rightarrow> nat \<Rightarrow> elem list" where
  "elems arr sz n = map (\<lambda>k. take sz (drop (k * sz) arr)) [0..<n]"

definition array_ok :: "u8 list \<Rightarrow> nat \<Rightarrow> u32 \<Rightarrow> bool" where
  "array_ok arr n sz \<longleftrightarrow> 0 < unat sz \<and> length arr = n * unat sz \<and> n < 2 ^ 31 \<and> length arr < 2 ^ 32"

definition list_swap :: "nat \<Rightarrow> nat \<Rightarrow> 'a list \<Rightarrow> 'a list" where
  "list_swap i j xs = xs[i := xs ! j, j := xs ! i]"

lemma length_elems [simp]: "length (elems arr sz n) = n"
  by (simp add: elems_def)

lemma nth_elems: "k < n \<Longrightarrow> elems arr sz n ! k = take sz (drop (k * sz) arr)"
  by (simp add: elems_def)

lemma block_fits: "k < n \<Longrightarrow> k * sz + sz \<le> n * (sz :: nat)"
  by (metis Suc_leI mult_Suc mult_le_mono1 add.commute)

lemma offset_elem:
  assumes "array_ok arr n sz" "1 \<le> unat k" "unat k \<le> n"
  shows "unat ((k - 1) * sz) = (unat k - 1) * unat sz"
    "(unat k - 1) * unat sz + unat sz \<le> length arr"
proof -
  have k: "unat (k - 1) = unat k - 1" using assms(2) by (intro unat_minus_one) auto
  have fits: "(unat k - 1) * unat sz + unat sz \<le> length arr"
    using block_fits [of "unat k - 1" n "unat sz"] assms by (simp add: array_ok_def)
  then show "(unat k - 1) * unat sz + unat sz \<le> length arr" .
  have "(unat k - 1) * unat sz < 2 ^ 32" using fits assms(1) by (simp add: array_ok_def)
  then show "unat ((k - 1) * sz) = (unat k - 1) * unat sz" using k by (simp add: unat_word_ariths)
qed

lemma elem_at_elems:
  assumes "array_ok arr n sz" "1 \<le> unat k" "unat k \<le> n"
  shows "elem_at arr ((k - 1) * sz) sz = Inr (elems arr (unat sz) n ! (unat k - 1))"
  using offset_elem [OF assms] assms by (simp add: elem_at_def nth_elems)

lemma do_compare_elems:
  assumes "array_ok arr n sz" "1 \<le> unat a" "unat a \<le> n" "1 \<le> unat b" "unat b \<le> n"
  shows "do_compare arr a b sz cmp =
    Inr (cmp (elems arr (unat sz) n ! (unat a - 1)) (elems arr (unat sz) n ! (unat b - 1)))"
  using elem_at_elems [OF assms(1-3)] elem_at_elems [OF assms(1,4,5)] by (simp add: do_compare_def)

declare swap_bytes.simps [simp del]

text \<open>Where the byte at \<open>x\<close> comes from once the bytes from \<open>i\<close> on of the two blocks are swapped.\<close>

definition swap_src :: "nat \<Rightarrow> nat \<Rightarrow> nat \<Rightarrow> nat \<Rightarrow> nat \<Rightarrow> nat" where
  "swap_src a b sz i x =
     (if a + i \<le> x \<and> x < a + sz then x - a + b else if b + i \<le> x \<and> x < b + sz then x - b + a else x)"

lemma swap_src_step:
  assumes "a + sz \<le> b \<or> b + sz \<le> a" "i < sz"
  shows "swap_src a b sz i z = (let w = swap_src a b sz (Suc i) z in
    if w = b + i then a + i else if w = a + i then b + i else w)"
proof -
  have "\<not> (z = a + i \<and> z = b + i)" using assms by auto
  then consider "z = a + i" "z \<noteq> b + i" | "z = b + i" "z \<noteq> a + i" | "z \<noteq> a + i" "z \<noteq> b + i" by blast
  then show ?thesis
    by cases (use assms in \<open>auto simp: swap_src_def Let_def\<close>)
qed

lemma swap_bytes_nth:
  assumes "unat a + unat sz \<le> length arr" "unat b + unat sz \<le> length arr" "length arr < 2 ^ 32"
    and "unat a + unat sz \<le> unat b \<or> unat b + unat sz \<le> unat a"
  shows "\<exists>arr'. swap_bytes arr a b sz i = Inr arr' \<and> length arr' = length arr \<and>
    (\<forall>x < length arr. arr' ! x = arr ! swap_src (unat a) (unat b) (unat sz) (unat i) x)"
  using assms
proof (induction arr a b sz i rule: swap_bytes.induct)
  case (1 arr a b sz i)
  show ?case
  proof (cases "i < sz")
    case False
    then have "unat sz \<le> unat i" by (simp add: word_less_nat_alt)
    then show ?thesis using False by (subst swap_bytes.simps) (auto simp: swap_src_def)
  next
    case True
    have i: "unat i < unat sz" "unat (i + 1) = Suc (unat i)"
      using True unat_succ [OF True] by (simp_all add: word_less_nat_alt)
    have x: "unat (a + i) = unat a + unat i" "unat (b + i) = unat b + unat i"
      using 1(2-4) i(1) by (simp_all add: unat_word_ariths)
    let ?x = "unat a + unat i" and ?y = "unat b + unat i"
    let ?arr = "arr[?x := arr ! ?y, ?y := arr ! ?x]"
    have b: "?x < length arr" "?y < length arr" "?x \<noteq> ?y" using 1(2,3,5) i(1) by auto
    obtain arr' where arr': "swap_bytes ?arr a b sz (i + 1) = Inr arr'" "length arr' = length arr"
      "\<forall>z < length arr. arr' ! z = ?arr ! swap_src (unat a) (unat b) (unat sz) (Suc (unat i)) z"
      using 1(1) [of ?x ?y "arr ! ?x" "arr[?x := arr ! ?y]" ?arr] True x b 1(2-5) i(2) by auto
    have "swap_bytes arr a b sz i = Inr arr'"
      using True x b arr'(1) by (subst swap_bytes.simps) (simp add: Let_def)
    moreover have "?arr ! w = arr ! (if w = ?y then ?x else if w = ?x then ?y else w)" for w
      using b by (simp add: nth_list_update)
    then have "\<forall>z < length arr. arr' ! z = arr ! swap_src (unat a) (unat b) (unat sz) (unat i) z"
      using arr'(3) swap_src_step [OF 1(5) i(1)] by (simp add: Let_def)
    ultimately show ?thesis using arr'(2) by blast
  qed
qed

lemma block_eqI:
  assumes "length xs = length ys" "p + sz \<le> length xs" "q + sz \<le> length ys"
    and "\<And>j. j < sz \<Longrightarrow> xs ! (p + j) = ys ! (q + j)"
  shows "take sz (drop p xs) = take sz (drop q ys)"
  using assms by (intro nth_equalityI) auto

lemma other_block:
  assumes "(k :: nat) \<noteq> l" "j < sz"
  shows "\<not> (l * sz \<le> k * sz + j \<and> k * sz + j < l * sz + sz)"
proof (cases "k < l")
  case True
  then have "k * sz + sz \<le> l * sz" by (rule block_fits)
  then show ?thesis using assms(2) by simp
next
  case False
  then have "l < k" using assms(1) by simp
  then have "l * sz + sz \<le> k * sz" by (rule block_fits)
  then show ?thesis by simp
qed

lemma swap_src_block:
  assumes "a \<noteq> b" "j < sz"
  shows "swap_src (a * sz) (b * sz) sz 0 (k * sz + j) =
    (if k = b then a * sz else if k = a then b * sz else k * sz) + j"
proof (cases "k = a")
  case True
  then show ?thesis using assms by (simp add: swap_src_def)
next
  case False
  then show ?thesis
    using assms other_block [OF False assms(2)] other_block [of k b j sz]
    unfolding swap_src_def add_0_right by (cases "k = b") auto
qed

lemma do_swap_elems:
  assumes ok: "array_ok arr n sz" and a: "1 \<le> unat a" "unat a \<le> n" and b: "1 \<le> unat b" "unat b \<le> n"
    and ne: "a \<noteq> b"
  shows "\<exists>arr'. do_swap arr a b sz = Inr arr' \<and> array_ok arr' n sz \<and>
    elems arr' (unat sz) n = list_swap (unat a - 1) (unat b - 1) (elems arr (unat sz) n)"
proof -
  define A where "A = (unat a - 1) * unat sz"
  define B where "B = (unat b - 1) * unat sz"
  note oa = offset_elem [OF ok a, folded A_def] and ob = offset_elem [OF ok b, folded B_def]
  have disj: "A + unat sz \<le> B \<or> B + unat sz \<le> A"
  proof -
    have "unat a \<noteq> unat b" using ne by (metis word_unat_eq_iff)
    then have "unat a - 1 < unat b - 1 \<or> unat b - 1 < unat a - 1" using a(1) b(1) by arith
    then show ?thesis unfolding A_def B_def using block_fits by blast
  qed
  obtain arr' where arr': "do_swap arr a b sz = Inr arr'" "length arr' = length arr"
      "\<forall>x < length arr. arr' ! x = arr ! swap_src A B (unat sz) 0 x"
    using swap_bytes_nth [of "(a - 1) * sz" sz arr "(b - 1) * sz" 0] oa ob disj ok
    by (auto simp: do_swap_def array_ok_def)
  have "elems arr' (unat sz) n ! k = list_swap (unat a - 1) (unat b - 1) (elems arr (unat sz) n) ! k"
    if k: "k < n" for k
  proof -
    have kk: "k * unat sz + unat sz \<le> length arr"
      using block_fits [OF k, of "unat sz"] ok by (simp add: array_ok_def)
    have src: "arr' ! (k * unat sz + j) = arr ! swap_src A B (unat sz) 0 (k * unat sz + j)"
      if "j < unat sz" for j using arr'(3) kk that by simp
    have sw: "list_swap (unat a - 1) (unat b - 1) (elems arr (unat sz) n) ! k =
        take (unat sz) (drop (if k = unat b - 1 then A else if k = unat a - 1 then B else k * unat sz) arr)"
      using k a b by (auto simp: list_swap_def nth_list_update nth_elems A_def B_def)
    have "arr' ! (k * unat sz + j) =
        arr ! ((if k = unat b - 1 then A else if k = unat a - 1 then B else k * unat sz) + j)"
      if j: "j < unat sz" for j
    proof -
      have "unat a - 1 \<noteq> unat b - 1" using disj oa(2) ok unfolding A_def B_def by (auto simp: array_ok_def)
      then show ?thesis using src [OF j] swap_src_block [of "unat a - 1" "unat b - 1" j "unat sz" k] j
        by (simp add: A_def B_def)
    qed
    then show ?thesis unfolding sw nth_elems [OF k]
      using arr'(2) kk oa(2) ob(2) by (intro block_eqI) auto
  qed
  then have "elems arr' (unat sz) n = list_swap (unat a - 1) (unat b - 1) (elems arr (unat sz) n)"
    by (intro nth_equalityI) (simp_all add: list_swap_def)
  then show ?thesis using arr' ok by (auto simp: array_ok_def)
qed

end
