(* ===== verification/Kheapsort.thy ===== *)
theory Kheapsort
  imports Kstdlib
begin

text \<open>
  \<^verbatim>\<open>sort\<close> and \<^verbatim>\<open>binary_search\<close> of \<^verbatim>\<open>lib/stdlib.c\<close> meet their descriptions: heap sort leaves a sorted
  permutation of the elements, binary search finds an element equal to the key exactly when
  there is one. Both rest on the contract of a \<^verbatim>\<open>strcmp\<close>-type comparison function, the locale
  \<open>comparator\<close>, which \<^verbatim>\<open>strcmp\<close> itself satisfies.
\<close>

section \<open>The contract of a comparison function\<close>

locale comparator = strict_weak_order "\<lambda>x y. cmp x y < 0" for cmp :: "'a \<Rightarrow> 'a \<Rightarrow> int" +
  assumes flip: "0 < cmp x y \<longleftrightarrow> cmp y x < 0"
begin

lemma le_total: "cmp x y \<le> 0 \<or> cmp y x \<le> 0"
  using asym [of x y] flip [of x y] by linarith

lemma cmp_refl: "cmp x x \<le> 0"
  using le_total [of x x] by simp

lemma cmp_trans: "cmp x y \<le> 0 \<Longrightarrow> cmp y z \<le> 0 \<Longrightarrow> cmp x z \<le> 0"
  using le_trans [of y x z] flip [of x z] flip [of x y] flip [of y z] by linarith

lemma not_pos: "\<not> 0 < cmp x y \<longleftrightarrow> cmp x y \<le> 0"
  by linarith

lemma pos_le: "0 < cmp x y \<Longrightarrow> cmp y x \<le> 0"
  using flip by simp

end

text \<open>The order of strings is one.\<close>

interpretation str_cmp: comparator str_order
proof
  show "\<not> str_order y x < 0" if "str_order x y < 0" for x y
    using that str_order_flip [of x y] by simp
  show "0 < str_order x y \<longleftrightarrow> str_order y x < 0" for x y
    using str_order_flip [of x y] by linarith
  show "str_order x y < 0 \<or> str_order y z < 0" if "str_order x z < 0" for x y z
    using that
  proof (induction x z arbitrary: y rule: str_order.induct)
    case (2 d t)
    then show ?case by (cases y) auto
  next
    case (4 c s d t)
    then show ?case by (cases y) (auto split: if_splits)
  qed simp_all
qed

section \<open>Heaps\<close>

definition heap_except :: "('a \<Rightarrow> 'a \<Rightarrow> int) \<Rightarrow> nat \<Rightarrow> nat \<Rightarrow> nat \<Rightarrow> 'a list \<Rightarrow> bool" where
  "heap_except cmp s x cnt E \<longleftrightarrow> (\<forall>c. 2 \<le> c \<and> c \<le> cnt \<and> s \<le> c div 2 \<and> c div 2 \<noteq> x \<longrightarrow>
     cmp (E ! (c - 1)) (E ! (c div 2 - 1)) \<le> 0)"

definition bridge :: "('a \<Rightarrow> 'a \<Rightarrow> int) \<Rightarrow> nat \<Rightarrow> nat \<Rightarrow> nat \<Rightarrow> 'a list \<Rightarrow> bool" where
  "bridge cmp s x cnt E \<longleftrightarrow> (\<forall>c. 2 \<le> c \<and> c \<le> cnt \<and> c div 2 = x \<and> 2 \<le> x \<and> s \<le> x div 2 \<longrightarrow>
     cmp (E ! (c - 1)) (E ! (x div 2 - 1)) \<le> 0)"

abbreviation heap_from :: "('a \<Rightarrow> 'a \<Rightarrow> int) \<Rightarrow> nat \<Rightarrow> nat \<Rightarrow> 'a list \<Rightarrow> bool" where
  "heap_from cmp s cnt E \<equiv> heap_except cmp s 0 cnt E"

definition pick_child :: "('a \<Rightarrow> 'a \<Rightarrow> int) \<Rightarrow> nat \<Rightarrow> nat \<Rightarrow> nat \<Rightarrow> 'a list \<Rightarrow> nat" where
  "pick_child cmp c mx cnt E = (if c \<le> cnt \<and> 0 < cmp (E ! (c - 1)) (E ! (mx - 1)) then c else mx)"

definition largest :: "('a \<Rightarrow> 'a \<Rightarrow> int) \<Rightarrow> nat \<Rightarrow> nat \<Rightarrow> 'a list \<Rightarrow> nat" where
  "largest cmp i cnt E = pick_child cmp (2 * i + 1) (pick_child cmp (2 * i) i cnt E) cnt E"

lemma div2_cases: "2 \<le> c \<Longrightarrow> c div 2 = (i :: nat) \<longleftrightarrow> c = 2 * i \<or> c = 2 * i + 1"
  by arith

context comparator
begin

lemma largest_ge:
  assumes "c = i \<or> c \<le> cnt \<and> (c = 2 * i \<or> c = 2 * i + 1)"
  shows "cmp (E ! (c - 1)) (E ! (largest cmp i cnt E - 1)) \<le> 0"
proof -
  let ?m = "pick_child cmp (2 * i) i cnt E"
  have m: "cmp (E ! (i - 1)) (E ! (?m - 1)) \<le> 0" "2 * i \<le> cnt \<Longrightarrow> cmp (E ! (2 * i - 1)) (E ! (?m - 1)) \<le> 0"
    by (auto simp: pick_child_def cmp_refl pos_le not_less)
  have l: "cmp (E ! (?m - 1)) (E ! (largest cmp i cnt E - 1)) \<le> 0"
      "2 * i + 1 \<le> cnt \<Longrightarrow> cmp (E ! (2 * i + 1 - 1)) (E ! (largest cmp i cnt E - 1)) \<le> 0"
    unfolding largest_def pick_child_def [of cmp "2 * i + 1"]
    by (auto simp: cmp_refl not_less intro: pos_le)
  show ?thesis using assms m l cmp_trans [OF _ l(1)] by blast
qed

lemma largest_range:
  "1 \<le> i \<Longrightarrow> i \<le> cnt \<Longrightarrow> largest cmp i cnt E = i \<or>
    largest cmp i cnt E \<le> cnt \<and> (largest cmp i cnt E = 2 * i \<or> largest cmp i cnt E = 2 * i + 1)"
  by (auto simp: largest_def pick_child_def)

lemma heap_done:
  assumes "heap_except cmp s i cnt E" "largest cmp i cnt E = i"
  shows "heap_from cmp s cnt E"
  unfolding heap_except_def
proof (intro allI impI)
  fix c assume c: "2 \<le> c \<and> c \<le> cnt \<and> s \<le> c div 2 \<and> c div 2 \<noteq> 0"
  show "cmp (E ! (c - 1)) (E ! (c div 2 - 1)) \<le> 0"
  proof (cases "c div 2 = i")
    case True
    then show ?thesis using largest_ge [of c i cnt E] assms(2) c div2_cases by auto
  next
    case False
    then show ?thesis using assms(1) c by (simp add: heap_except_def)
  qed
qed

lemma heap_sift:
  assumes h: "heap_except cmp s i cnt E" and g: "bridge cmp s i cnt E"
    and i: "1 \<le> i" "i \<le> cnt" "s \<le> i" and len: "cnt \<le> length E"
    and m: "m = largest cmp i cnt E" "m \<noteq> i"
  shows "heap_except cmp s m cnt (list_swap (i - 1) (m - 1) E) \<and>
    bridge cmp s m cnt (list_swap (i - 1) (m - 1) E)"
proof -
  let ?E = "list_swap (i - 1) (m - 1) E"
  have mr: "m \<le> cnt" "m = 2 * i \<or> m = 2 * i + 1" "i < m" using largest_range [OF i(1,2), of E] m i(1) by auto
  have nth: "?E ! (c - 1) = (if c = m then E ! (i - 1) else if c = i then E ! (m - 1) else E ! (c - 1))"
    if "1 \<le> c" "c \<le> cnt" for c
    using that i mr len by (auto simp: list_swap_def nth_list_update)
  have md: "m div 2 = i" using mr(2) by auto
  have "cmp (?E ! (c - 1)) (?E ! (c div 2 - 1)) \<le> 0"
    if c: "2 \<le> c" "c \<le> cnt" "s \<le> c div 2" "c div 2 \<noteq> m" for c
  proof -
    have d: "1 \<le> c div 2" "c div 2 \<le> cnt" using c(1,2) by auto
    consider "c div 2 = i" "c = m" | "c div 2 = i" "c \<noteq> m" | "c = i" | "c div 2 \<noteq> i" "c \<noteq> i" by blast
    then show ?thesis
    proof cases
      case 1
      then show ?thesis using nth [of c] nth [of i] c i m mr largest_ge [of i i cnt E] by simp
    next
      case 2
      then have "c \<noteq> i" using c(1) by auto
      then show ?thesis using 2 nth [of c] nth [of i] c i m mr largest_ge [of c i cnt E] div2_cases [OF c(1), of i] by auto
    next
      case 3
      have "cmp (E ! (m - 1)) (E ! (i div 2 - 1)) \<le> 0"
        using g 3 c(1,3) mr(1) md mr(3) by (auto simp: bridge_def)
      moreover have "i div 2 \<noteq> i" "i div 2 \<noteq> m" using 3 c(1,4) by auto
      ultimately show ?thesis using 3 nth [of i] nth [of "i div 2"] i d mr by simp
    next
      case 4
      then have "c \<noteq> m" using md by auto
      then show ?thesis using 4 nth [of c] nth [of "c div 2"] c d h by (simp add: heap_except_def)
    qed
  qed
  then have 1: "heap_except cmp s m cnt ?E" by (simp add: heap_except_def)
  have "cmp (?E ! (c - 1)) (?E ! (m div 2 - 1)) \<le> 0" if c: "2 \<le> c" "c \<le> cnt" "c div 2 = m" for c
  proof -
    have "c \<noteq> m" "c \<noteq> i" "m \<noteq> i" using c(1,3) mr(3) by auto
    moreover have "cmp (E ! (c - 1)) (E ! (m - 1)) \<le> 0"
      using h [unfolded heap_except_def, rule_format, of c] c i mr by simp
    ultimately show ?thesis using nth [of c] nth [of i] c i md by simp
  qed
  then have "bridge cmp s m cnt ?E" by (simp add: bridge_def)
  then show ?thesis using 1 by blast
qed

lemma heap_root_max:
  assumes h: "heap_from cmp 1 cnt E" and k: "1 \<le> k" "k \<le> cnt"
  shows "cmp (E ! (k - 1)) (E ! 0) \<le> 0"
  using k
proof (induction k rule: less_induct)
  case (less k)
  show ?case
  proof (cases "k = 1")
    case True
    then show ?thesis by (simp add: cmp_refl)
  next
    case False
    then have "cmp (E ! (k - 1)) (E ! (k div 2 - 1)) \<le> 0" using h less(2,3) by (auto simp: heap_except_def)
    moreover have "cmp (E ! (k div 2 - 1)) (E ! 0) \<le> 0" using less False by auto
    ultimately show ?thesis by (rule cmp_trans)
  qed
qed

end

section \<open>The code on heaps\<close>

lemma mset_list_swap:
  "i < length xs \<Longrightarrow> j < length xs \<Longrightarrow> mset (list_swap i j xs) = mset xs"
  by (simp add: list_swap_def mset_swap)

lemma list_swap_take_drop:
  assumes "i < cnt" "j < cnt" "cnt \<le> length xs"
  shows "take cnt (list_swap i j xs) = list_swap i j (take cnt xs)" "drop cnt (list_swap i j xs) = drop cnt xs"
  using assms by (simp_all add: list_swap_def take_update_swap)

lemma unat_double:
  assumes "unat (i :: u32) < 2 ^ 31"
  shows "unat (2 * i) = 2 * unat i" "unat (2 * i + 1) = 2 * unat i + 1"
  using assms by (simp_all add: unat_word_ariths)

lemma child_step:
  assumes ok: "array_ok arr n sz" and c: "1 \<le> unat c" and cnt: "unat cnt \<le> n"
    and mx: "1 \<le> unat mx" "unat mx \<le> unat cnt"
  shows "\<exists>r. (if c \<le> cnt then Some (bindR (do_compare arr c mx sz cmp) (\<lambda>d. Inr (if d > 0 then c else mx)))
      else okE mx) = okE r \<and>
    unat r = pick_child cmp (unat c) (unat mx) (unat cnt) (elems arr (unat sz) n) \<and>
    (r = c \<or> r = mx) \<and> 1 \<le> unat r \<and> unat r \<le> unat cnt"
proof (cases "c \<le> cnt")
  case True
  then have le: "unat c \<le> unat cnt" by (simp add: word_le_nat_alt)
  show ?thesis using True le do_compare_elems [OF ok c _ mx(1), of cmp] cnt mx c
    by (auto simp: pick_child_def)
next
  case False
  then have "\<not> unat c \<le> unat cnt" by (simp add: word_le_nat_alt)
  then show ?thesis using False mx by (simp add: pick_child_def)
qed

text \<open>The invariant of the second phase: the first \<open>c\<close> elements form a heap, the others are
  sorted and not smaller.\<close>

definition sort_inv :: "('a \<Rightarrow> 'a \<Rightarrow> int) \<Rightarrow> nat \<Rightarrow> 'a list \<Rightarrow> bool" where
  "sort_inv cmp c E \<longleftrightarrow> heap_from cmp 1 c E \<and> sorted_wrt (\<lambda>x y. cmp x y \<le> 0) (drop c E) \<and>
     (\<forall>x \<in> set (take c E). \<forall>y \<in> set (drop c E). cmp x y \<le> 0)"

locale elem_comparator = comparator cmp for cmp :: cmp_func
begin

lemma heapify_unfold:
  assumes ok: "array_ok arr n sz" and i: "1 \<le> unat i" "unat i \<le> unat cnt" "unat cnt \<le> n"
  shows "\<exists>mx. unat mx = largest cmp (unat i) (unat cnt) (elems arr (unat sz) n) \<and>
    heapify arr i cnt sz cmp = (if mx = i then okE arr
      else bindE (Some (do_swap arr i mx sz)) (\<lambda>arr. heapify arr mx cnt sz cmp))"
proof -
  have "unat i < 2 ^ 31" using i ok by (simp add: array_ok_def)
  note db = unat_double [OF this]
  obtain m1 where m1: "(if 2 * i \<le> cnt then Some (bindR (do_compare arr (2 * i) i sz cmp)
      (\<lambda>d. Inr (if d > 0 then 2 * i else i))) else okE i) = okE m1"
      "unat m1 = pick_child cmp (2 * unat i) (unat i) (unat cnt) (elems arr (unat sz) n)"
      "1 \<le> unat m1" "unat m1 \<le> unat cnt"
    using child_step [OF ok, of "2 * i" cnt i cmp] i unfolding db by auto
  obtain m2 where m2: "(if 2 * i + 1 \<le> cnt then Some (bindR (do_compare arr (2 * i + 1) m1 sz cmp)
      (\<lambda>d. Inr (if d > 0 then 2 * i + 1 else m1))) else okE m1) = okE m2"
      "unat m2 = pick_child cmp (2 * unat i + 1) (unat m1) (unat cnt) (elems arr (unat sz) n)"
    using child_step [OF ok, of "2 * i + 1" cnt m1 cmp] i(3) m1(3,4) unfolding db by auto
  have "heapify arr i cnt sz cmp = (if m2 = i then okE arr
      else bindE (Some (do_swap arr i m2 sz)) (\<lambda>arr. heapify arr m2 cnt sz cmp))"
    by (subst heapify.simps) (simp only: Let_def m1(1) m2(1) bindE_Inr)
  then show ?thesis using m1(2) m2(2) by (auto simp: largest_def)
qed

lemma heapify_heap:
  assumes "array_ok arr n sz" "1 \<le> unat i" "unat i \<le> unat cnt" "unat cnt \<le> n" "s \<le> unat i"
    and "heap_except cmp s (unat i) (unat cnt) (elems arr (unat sz) n)"
    and "bridge cmp s (unat i) (unat cnt) (elems arr (unat sz) n)"
  shows "\<exists>arr'. heapify arr i cnt sz cmp = okE arr' \<and> array_ok arr' n sz \<and>
    heap_from cmp s (unat cnt) (elems arr' (unat sz) n) \<and>
    mset (take (unat cnt) (elems arr' (unat sz) n)) = mset (take (unat cnt) (elems arr (unat sz) n)) \<and>
    drop (unat cnt) (elems arr' (unat sz) n) = drop (unat cnt) (elems arr (unat sz) n)"
  using assms
proof (induction "unat cnt - unat i" arbitrary: arr i rule: less_induct)
  case less
  let ?E = "elems arr (unat sz) n"
  obtain mx where mx: "unat mx = largest cmp (unat i) (unat cnt) ?E"
    "heapify arr i cnt sz cmp = (if mx = i then okE arr
      else bindE (Some (do_swap arr i mx sz)) (\<lambda>arr. heapify arr mx cnt sz cmp))"
    using heapify_unfold [OF less(2-5)] by blast
  show ?case
  proof (cases "mx = i")
    case True
    then show ?thesis using mx less(2) heap_done [OF less(7)] by auto
  next
    case False
    then have ne: "unat mx \<noteq> unat i" by (metis word_unat_eq_iff)
    have r: "1 \<le> unat mx" "unat mx \<le> unat cnt" "unat i < unat mx"
      using largest_range [OF less(3,4), of ?E] mx(1) ne less(3) by auto
    obtain arr1 where arr1: "do_swap arr i mx sz = Inr arr1" "array_ok arr1 n sz"
        "elems arr1 (unat sz) n = list_swap (unat i - 1) (unat mx - 1) ?E"
      using do_swap_elems [OF less(2), of i mx] False r less(3-5) by auto
    note sift = heap_sift [OF less(7,8,3,4,6) _ mx(1) ne, folded arr1(3)]
    have sw: "mset (take (unat cnt) (elems arr1 (unat sz) n)) = mset (take (unat cnt) ?E)"
      "drop (unat cnt) (elems arr1 (unat sz) n) = drop (unat cnt) ?E"
      using r less(3-5) by (simp_all add: arr1(3) list_swap_take_drop mset_list_swap)
    have "unat cnt - unat mx < unat cnt - unat i" using r by arith
    from less(1) [OF this arr1(2) r(1,2) less(5)] sift less(5,6) r
    obtain arr' where "heapify arr1 mx cnt sz cmp = okE arr'" "array_ok arr' n sz"
        "heap_from cmp s (unat cnt) (elems arr' (unat sz) n)"
        "mset (take (unat cnt) (elems arr' (unat sz) n)) = mset (take (unat cnt) (elems arr1 (unat sz) n))"
        "drop (unat cnt) (elems arr' (unat sz) n) = drop (unat cnt) (elems arr1 (unat sz) n)"
      by auto
    then show ?thesis using False mx(2) arr1(1) sw by auto
  qed
qed

lemma build_heap_heap:
  assumes "array_ok arr n sz" "unat cnt = n" "2 * i \<le> n"
    and "heap_from cmp (Suc i) n (elems arr (unat sz) n)"
  shows "\<exists>arr'. build_heap i arr cnt sz cmp = okE arr' \<and> array_ok arr' n sz \<and>
    heap_from cmp 1 n (elems arr' (unat sz) n) \<and> mset (elems arr' (unat sz) n) = mset (elems arr (unat sz) n)"
  using assms
proof (induction i arbitrary: arr)
  case (Suc i)
  have u: "unat (of_nat (Suc i) :: u32) = Suc i"
    using Suc(2,4) by (simp add: array_ok_def unat_of_nat del: of_nat_Suc)
  have h: "heap_except cmp (Suc i) (Suc i) n (elems arr (unat sz) n)"
    using Suc(5) unfolding heap_except_def by (metis Suc_leI le_neq_implies_less not_less_eq_eq zero_less_Suc less_numeral_extra(3))
  have g: "bridge cmp (Suc i) (Suc i) n (elems arr (unat sz) n)" by (auto simp: bridge_def)
  obtain arr1 where arr1: "heapify arr (of_nat (Suc i)) cnt sz cmp = okE arr1" "array_ok arr1 n sz"
      "heap_from cmp (Suc i) n (elems arr1 (unat sz) n)"
      "mset (elems arr1 (unat sz) n) = mset (elems arr (unat sz) n)"
    using heapify_heap [OF Suc(2), of "of_nat (Suc i)" cnt "Suc i"] h g Suc(3,4) unfolding u by auto
  show ?case using Suc(1) [OF arr1(2) Suc(3) _ arr1(3)] Suc(4) arr1(1,4) by auto
qed auto

lemma sort_inv_swap:
  assumes inv: "sort_inv cmp (Suc c) E" and c: "1 \<le> c" "Suc c \<le> length E"
  defines "E1 \<equiv> list_swap 0 c E"
  shows "heap_except cmp 1 1 c E1" "drop c E1 = E ! 0 # drop (Suc c) E"
    "set (take c E1) \<subseteq> set (take (Suc c) E)"
proof -
  have nth: "E1 ! k = E ! k" if "1 \<le> k" "k < c" for k
    using that c by (simp add: E1_def list_swap_def)
  show "heap_except cmp 1 1 c E1"
    unfolding heap_except_def
  proof (intro allI impI)
    fix k assume k: "2 \<le> k \<and> k \<le> c \<and> 1 \<le> k div 2 \<and> k div 2 \<noteq> 1"
    then have "E1 ! (k - 1) = E ! (k - 1)" "E1 ! (k div 2 - 1) = E ! (k div 2 - 1)"
      using nth [of "k - 1"] nth [of "k div 2 - 1"] by (auto simp: less_diff_conv2)
    then show "cmp (E1 ! (k - 1)) (E1 ! (k div 2 - 1)) \<le> 0"
      using inv k by (auto simp: sort_inv_def heap_except_def)
  qed
  have "drop c E1 = E1 ! c # drop (Suc c) E1"
    using c by (intro Cons_nth_drop_Suc [symmetric]) (simp add: E1_def list_swap_def)
  then show "drop c E1 = E ! 0 # drop (Suc c) E" using c by (simp add: E1_def list_swap_def)
  have "mset (take (Suc c) E1) = mset (take (Suc c) E)"
    unfolding E1_def using c by (simp add: list_swap_take_drop mset_list_swap)
  then have "set (take (Suc c) E1) = set (take (Suc c) E)" by (rule mset_eq_setD)
  moreover have "set (take c E1) \<subseteq> set (take (Suc c) E1)" by (rule set_take_subset_set_take) simp
  ultimately show "set (take c E1) \<subseteq> set (take (Suc c) E)" by blast
qed

lemma sort_inv_step:
  assumes inv: "sort_inv cmp (Suc c) E" and h: "heap_from cmp 1 c E2"
    and d: "drop c E2 = E ! 0 # drop (Suc c) E" and t: "set (take c E2) \<subseteq> set (take (Suc c) E)"
    and len: "Suc c \<le> length E"
  shows "sort_inv cmp c E2"
proof -
  have 0: "E ! 0 \<in> set (take (Suc c) E)" using len by (cases E) auto
  have root: "cmp x (E ! 0) \<le> 0" if x: "x \<in> set (take (Suc c) E)" for x
  proof -
    obtain k where k: "k < Suc c" "x = E ! k" using x len by (auto simp: in_set_conv_nth)
    then show ?thesis using heap_root_max [of "Suc c" E "Suc k"] inv by (simp add: sort_inv_def)
  qed
  have "sorted_wrt (\<lambda>x y. cmp x y \<le> 0) (drop c E2)" using inv 0 d by (simp add: sort_inv_def)
  moreover have "\<forall>x \<in> set (take c E2). \<forall>y \<in> set (drop c E2). cmp x y \<le> 0"
    using inv t root unfolding d sort_inv_def by auto
  ultimately show ?thesis using h by (simp add: sort_inv_def)
qed

lemma sort_heap_sorted:
  assumes "array_ok arr n sz" "c \<le> n" "sort_inv cmp c (elems arr (unat sz) n)"
  shows "\<exists>arr'. sort_heap c arr sz cmp = okE arr' \<and> array_ok arr' n sz \<and>
    sorted_wrt (\<lambda>x y. cmp x y \<le> 0) (elems arr' (unat sz) n) \<and>
    mset (elems arr' (unat sz) n) = mset (elems arr (unat sz) n)"
  using assms
proof (induction c arbitrary: arr)
  case 0
  then show ?case by (simp add: sort_inv_def)
next
  case (Suc c)
  let ?E = "elems arr (unat sz) n"
  show ?case
  proof (cases "c = 0")
    case True
    have "sorted_wrt (\<lambda>x y. cmp x y \<le> 0) (take (Suc 0) ?E @ drop (Suc 0) ?E)"
      using Suc(3,4) True unfolding sorted_wrt_append sort_inv_def by (cases ?E) auto
    then show ?thesis using True Suc(2) by simp
  next
    case False
    then obtain k where k: "c = Suc k" by (cases c) auto
    have lt: "Suc c < 2 ^ 32" using Suc(2,3) by (simp add: array_ok_def)
    have u: "unat (of_nat (Suc c) :: u32) = Suc c" "unat (of_nat (Suc c) - 1 :: u32) = c"
      using lt by (simp add: unat_of_nat del: of_nat_Suc) (use lt in \<open>simp add: unat_of_nat\<close>)
    have "(1 :: u32) \<noteq> of_nat (Suc c)" using u(1) False by (metis Suc_inject One_nat_def unat_1)
    then obtain arr1 where arr1: "do_swap arr 1 (of_nat (Suc c)) sz = Inr arr1" "array_ok arr1 n sz"
        "elems arr1 (unat sz) n = list_swap 0 c ?E"
      using do_swap_elems [OF Suc(2), of 1 "of_nat (Suc c)"] Suc(3) u by (auto simp del: of_nat_Suc)
    note sw = sort_inv_swap [OF Suc(4), unfolded length_elems, OF _ Suc(3), folded arr1(3)]
    have b: "bridge cmp 1 1 c (elems arr1 (unat sz) n)" by (simp add: bridge_def)
    obtain arr2 where arr2: "heapify arr1 1 (of_nat (Suc c) - 1) sz cmp = okE arr2" "array_ok arr2 n sz"
        "heap_from cmp 1 c (elems arr2 (unat sz) n)"
        "mset (take c (elems arr2 (unat sz) n)) = mset (take c (elems arr1 (unat sz) n))"
        "drop c (elems arr2 (unat sz) n) = drop c (elems arr1 (unat sz) n)"
      using heapify_heap [OF arr1(2), of 1 "of_nat (Suc c) - 1" 1] sw(1) b u(2) False Suc(3)
      by (auto simp del: of_nat_Suc)
    let ?E2 = "elems arr2 (unat sz) n"
    have d2: "drop c ?E2 = ?E ! 0 # drop (Suc c) ?E" using arr2(5) sw(2) False by simp
    have t2: "set (take c ?E2) \<subseteq> set (take (Suc c) ?E)"
      using mset_eq_setD [OF arr2(4)] sw(3) False by simp
    have "sort_inv cmp c ?E2" by (rule sort_inv_step [OF Suc(4) arr2(3) d2 t2]) (use Suc(3) in simp)
    from Suc(1) [OF arr2(2) _ this] Suc(3) obtain arr' where arr': "sort_heap c arr2 sz cmp = okE arr'"
      "array_ok arr' n sz" "sorted_wrt (\<lambda>x y. cmp x y \<le> 0) (elems arr' (unat sz) n)"
      "mset (elems arr' (unat sz) n) = mset ?E2" by auto
    have "mset ?E2 = mset (take c ?E2) + mset (drop c ?E2)" by (metis append_take_drop_id mset_append)
    also have "\<dots> = mset (elems arr1 (unat sz) n)"
      unfolding arr2(4,5) by (metis append_take_drop_id mset_append)
    also have "\<dots> = mset ?E" unfolding arr1(3) using Suc(3) by (intro mset_list_swap) simp_all
    finally have "mset (elems arr' (unat sz) n) = mset ?E" using arr'(4) by simp
    moreover have "sort_heap (Suc c) arr sz cmp = okE arr'"
      using arr1(1) arr2(1) arr'(1) by (simp add: k)
    ultimately show ?thesis using arr'(2,3) by blast
  qed
qed

lemma sort_correct:
  assumes ok: "array_ok arr n sz" and cnt: "unat cnt = n"
  shows "\<exists>arr'. sort arr cnt sz cmp = okE arr' \<and> array_ok arr' n sz \<and>
    sorted_wrt (\<lambda>x y. cmp x y \<le> 0) (elems arr' (unat sz) n) \<and>
    mset (elems arr' (unat sz) n) = mset (elems arr (unat sz) n)"
proof -
  have c2: "unat (cnt div 2) = n div 2" using cnt by (simp add: unat_div)
  have "heap_from cmp (Suc (n div 2)) n (elems arr (unat sz) n)" by (auto simp: heap_except_def)
  then obtain arr1 where arr1: "build_heap (n div 2) arr cnt sz cmp = okE arr1" "array_ok arr1 n sz"
      "heap_from cmp 1 n (elems arr1 (unat sz) n)"
      "mset (elems arr1 (unat sz) n) = mset (elems arr (unat sz) n)"
    using build_heap_heap [OF ok cnt, of "n div 2"] by auto
  have "sort_inv cmp n (elems arr1 (unat sz) n)" using arr1(3) by (simp add: sort_inv_def)
  from sort_heap_sorted [OF arr1(2) le_refl this] arr1 c2 cnt ok show ?thesis
    by (auto simp: sort_def array_ok_def word_less_nat_alt)
qed

lemma binary_search_loop_correct:
  assumes ok: "array_ok arr n sz" and srt: "sorted_wrt (\<lambda>x y. cmp x y \<le> 0) (elems arr (unat sz) n)"
    and "unat first = lo * unat sz" "unat lst = hi * unat sz" "lo \<le> hi" "hi \<le> n"
    and "\<forall>k < lo. cmp key (elems arr (unat sz) n ! k) > 0"
    and "\<forall>k < n. hi \<le> k \<longrightarrow> cmp key (elems arr (unat sz) n ! k) < 0"
  shows "\<exists>r. binary_search_loop arr key first lst sz cmp = okE r \<and>
    (case r of Some p \<Rightarrow> \<exists>k < n. unat p = k * unat sz \<and> cmp key (elems arr (unat sz) n ! k) = 0
     | None \<Rightarrow> \<forall>k < n. cmp key (elems arr (unat sz) n ! k) \<noteq> 0)"
  using assms(3-)
proof (induction "hi - lo" arbitrary: lo hi first lst rule: less_induct)
  case less
  let ?E = "elems arr (unat sz) n"
  have sz: "0 < unat sz" "length arr = n * unat sz" "length arr < 2 ^ 32" using ok by (auto simp: array_ok_def)
  show ?case
  proof (cases "lo = hi")
    case True
    then have "unat first = unat lst" using less(2,3) by simp
    then have "binary_search_loop arr key first lst sz cmp = okE None"
      by (subst binary_search_loop.simps) (simp add: word_less_nat_alt)
    moreover have "cmp key (?E ! k) \<noteq> 0" if "k < n" for k
      using less(6,7) that True by (cases "k < lo") (auto simp: less_le)
    ultimately show ?thesis by auto
  next
    case False
    define md where "md = lo + (hi - lo) div 2"
    have md: "lo \<le> md" "md < hi" "md < n" using False less(4,5) by (auto simp: md_def)
    have lt: "unat first < unat lst" using less(2-4) False sz(1) by simp
    have "unat (lst - first) = (hi - lo) * unat sz"
      using lt less(2,3) by (simp add: unat_sub word_le_nat_alt diff_mult_distrib)
    then have rg: "unat ((lst - first) div sz div 2) = (hi - lo) div 2"
      using sz(1) by (simp add: unat_div)
    have fit: "md * unat sz + unat sz \<le> length arr" using block_fits [OF md(3)] sz(2) by simp
    let ?mid = "first + (lst - first) div sz div 2 * sz"
    have "((hi - lo) div 2) * unat sz \<le> md * unat sz" by (simp add: md_def)
    then have "((hi - lo) div 2) * unat sz < 2 ^ 32" using fit sz(3) by linarith
    then have "unat ((lst - first) div sz div 2 * sz) = ((hi - lo) div 2) * unat sz"
      using rg by (simp add: unat_word_ariths(2))
    then have mid: "unat ?mid = md * unat sz"
      using less(2) fit sz(3) by (simp add: unat_word_ariths md_def add_mult_distrib)
    then have el: "elem_at arr ?mid sz = Inr (?E ! md)"
      using fit md(3) by (simp add: elem_at_def nth_elems)
    have step: "binary_search_loop arr key first lst sz cmp =
        (if cmp key (?E ! md) < 0 then binary_search_loop arr key first ?mid sz cmp
         else if cmp key (?E ! md) > 0 then binary_search_loop arr key (?mid + sz) lst sz cmp
         else okE (Some ?mid))"
      using lt el by (subst binary_search_loop.simps) (simp add: word_less_nat_alt Let_def)
    have mono: "cmp (?E ! j) (?E ! k) \<le> 0" if "j \<le> k" "k < n" for j k
      using srt that cmp_refl by (cases "j = k") (auto simp: sorted_wrt_iff_nth_less)
    consider "cmp key (?E ! md) < 0" | "cmp key (?E ! md) > 0" | "cmp key (?E ! md) = 0" by linarith
    then show ?thesis
    proof cases
      case 1
      have "cmp key (?E ! k) < 0" if "k < n" "md \<le> k" for k
        using cmp_trans [of "?E ! md" "?E ! k" key] mono [OF that(2,1)] 1 flip [of "?E ! md" key]
          flip [of "?E ! k" key] by linarith
      then show ?thesis using less(1) [of md lo first ?mid] less(2,6) mid md step 1 by auto
    next
      case 2
      have "cmp key (?E ! k) > 0" if "k < Suc md" for k
        using cmp_trans [of key "?E ! k" "?E ! md"] mono [of k md] that md(3) 2 by linarith
      moreover have "unat (?mid + sz) = Suc md * unat sz" using mid fit sz(3) by (simp add: unat_word_ariths)
      ultimately show ?thesis using less(1) [of hi "Suc md" "?mid + sz" lst] less(3,5,7) md step 2 by auto
    next
      case 3
      then show ?thesis using step mid md(3) by auto
    qed
  qed
qed

lemma binary_search_correct:
  assumes "array_ok arr n sz" "unat cnt = n" "sorted_wrt (\<lambda>x y. cmp x y \<le> 0) (elems arr (unat sz) n)"
  shows "\<exists>r. binary_search key arr cnt sz cmp = okE r \<and>
    (case r of Some p \<Rightarrow> \<exists>k < n. unat p = k * unat sz \<and> cmp key (elems arr (unat sz) n ! k) = 0
     | None \<Rightarrow> \<forall>k < n. cmp key (elems arr (unat sz) n ! k) \<noteq> 0)"
proof -
  have "unat sz * n < 2 ^ 32" using assms(1) by (simp add: array_ok_def mult.commute)
  then have e: "unat (sz * cnt) = n * unat sz"
    using assms(2) by (simp add: unat_word_ariths(2) mult.commute)
  show ?thesis unfolding binary_search_def
    by (rule binary_search_loop_correct [OF assms(1,3), where lo = 0 and hi = n]) (simp_all add: e)
qed

end

interpretation str_elems: elem_comparator str_order
  by (rule elem_comparator.intro) (rule str_cmp.comparator_axioms)

end
