(* ===== verification/Klib_Props.thy ===== *)
theory Klib_Props
  imports Kbitmap Khash Karith Kheapsort
begin

text \<open>
  The statements that make the library components correct (bitmaps, hash tables, 64-bit
  division, strings, sorting and searching), each with an instance on concrete data.
\<close>

section \<open>Bitmaps\<close>

text \<open>C24. \<^verbatim>\<open>bitmap_scan_and_flip\<close> for at least one bit returns. If it returns an index, the group
  of \<open>cnt\<close> bits there lies inside the bitmap, starts at or after \<open>start\<close>, had the value asked
  for in every bit, is the first such group, and is flipped while no other bit changes. If it
  returns \<open>BITMAP_ERROR\<close>, there is no such group and the bitmap is unchanged.\<close>

theorem bitmap_scan_and_flip_correct:
  assumes "bm_wf b" and "start \<le> bit_cnt b" and "0 < cnt"
  shows "\<exists>r b'. bitmap_scan_and_flip b start cnt v = okE (r, b') \<and> bm_wf b' \<and>
    bit_cnt b' = bit_cnt b \<and>
    (if r = BITMAP_ERROR
     then b' = b \<and>
       (\<forall>k. unat start \<le> k \<and> k + unat cnt \<le> unat (bit_cnt b) \<longrightarrow> \<not> group_at b (unat cnt) v k)
     else unat start \<le> unat r \<and> bm_range b r cnt \<and> group_at b (unat cnt) v (unat r) \<and>
       (\<forall>k. unat start \<le> k \<and> k < unat r \<longrightarrow> \<not> group_at b (unat cnt) v k) \<and>
       bm_bits b' = fill (unat r) (unat cnt) (\<not> v) (bm_bits b))"
  by (rule bitmap_scan_and_flip_bits [OF assms])

theorem bitmap_scan_and_flip_witness:
  "\<exists>r b'. bitmap_scan_and_flip \<lparr>bit_cnt = 40, bits = [0xFFFFFFFB, 0]\<rparr> 0 2 False = okE (r, b') \<and>
    bm_wf b' \<and> bit_cnt b' = 40"
  using bitmap_scan_and_flip_correct [of "\<lparr>bit_cnt = 40, bits = [0xFFFFFFFB, 0]\<rparr>" 0 2 False]
  by (auto simp: bm_wf_def)

text \<open>C28. \<^verbatim>\<open>bitmap_set\<close> and \<^verbatim>\<open>bitmap_test\<close> implement an array of bits: setting a bit inside the
  bitmap succeeds, testing it afterwards gives the value set, and testing any other bit gives
  what it gave before.\<close>

theorem bitmap_set_test:
  assumes "bm_wf b" and "idx < bit_cnt b" and "j < bit_cnt b"
  shows "\<exists>b'. bitmap_set b idx v = Inr b' \<and> bm_wf b' \<and> bit_cnt b' = bit_cnt b \<and>
    bitmap_test b' j = (if j = idx then Inr v else bitmap_test b j)"
proof -
  obtain b' where b': "bitmap_set b idx v = Inr b'" "bm_wf b'" "bit_cnt b' = bit_cnt b"
      "bm_bits b' = (bm_bits b)[unat idx := v]"
    using bitmap_set_bits [OF assms(1,2)] by blast
  then have "bitmap_test b' j = Inr ((bm_bits b)[unat idx := v] ! unat j)"
    using bitmap_test_bits [of b' j] assms(3) by simp
  moreover have "unat j = unat idx \<longleftrightarrow> j = idx" by (metis word_unat_eq_iff)
  ultimately show ?thesis using b' bitmap_test_bits [OF assms(1,3)] assms(2,3)
    by (auto simp: nth_list_update word_less_nat_alt)
qed

theorem bitmap_set_test_witness:
  "\<exists>b'. bitmap_set \<lparr>bit_cnt = 40, bits = [5, 0]\<rparr> 33 True = Inr b' \<and> bitmap_test b' 33 = Inr True"
  using bitmap_set_test [of "\<lparr>bit_cnt = 40, bits = [5, 0]\<rparr>" 33 33 True] by (auto simp: bm_wf_def)

section \<open>Hash tables\<close>

definition demo_hash :: "u32 \<Rightarrow> u32" where "demo_hash x = x * 7"

lemma demo_contract: "hash_contract (\<lambda>x y :: u32. x < y) demo_hash"
  by unfold_locales (auto simp: equiv_by_def)

definition demo_table :: "u32 hash" where
  "demo_table = \<lparr>elem_cnt = 2, bucket_cnt = 4, buckets = [[], [], [], [5, 1]]\<rparr>"

lemma demo_table_wf: "hash_wf demo_hash (\<lambda>x y. x < y) demo_table"
proof -
  have "hash_placed demo_hash demo_table"
    by (simp add: hash_placed_def demo_table_def demo_hash_def bucket_idx_def is_power_of_2_def
        turn_off_least_1bit_def All_less_Suc)
  then show ?thesis
    by (auto simp: hash_wf_def demo_table_def hash_elems_def equiv_by_def)
qed

text \<open>C22. Under the contract of the table's functions, \<^verbatim>\<open>hash_insert\<close> returns on a well-formed
  table, whether or not the allocation of a resized table succeeds; it returns the equal
  element that was there, if any, and then changes nothing, and otherwise adds exactly the new
  element; the table stays well formed and a search for the element then finds it or its equal.\<close>

theorem hash_insert_correct:
  assumes "hash_contract lt hf" and "hash_wf hf lt h"
  shows "\<exists>r h' x. hash_insert mem hf lt h e = okE (r, h') \<and> hash_find hf lt h e = Inr r \<and>
    hash_wf hf lt h' \<and>
    mset (hash_elems h') = (if r = None then add_mset e (mset (hash_elems h)) else mset (hash_elems h)) \<and>
    hash_find hf lt h' e = Inr (Some x) \<and> equiv_by lt x e"
proof -
  note wf = assms(2)
  obtain r h' where h': "hash_insert mem hf lt h e = okE (r, h')" "hash_find hf lt h e = Inr r"
      "hash_wf hf lt h'" "mset (hash_elems h') =
        (if r = None then add_mset e (mset (hash_elems h)) else mset (hash_elems h))"
    using hash_contract.insert_correct [OF assms] by blast
  have "\<exists>y \<in> set (hash_elems h'). equiv_by lt y e"
    using hash_contract.inserted_present [OF assms h'(2,4)] .
  then obtain x where "hash_find hf lt h' e = Inr (Some x)" "equiv_by lt x e"
    using hash_contract.find_correct [OF assms(1) h'(3), of e] by (auto split: option.splits)
  then show ?thesis using h' by blast
qed

theorem hash_insert_witness:
  "\<exists>r h' x. hash_insert True demo_hash (\<lambda>x y. x < y) demo_table 9 = okE (r, h') \<and>
    hash_wf demo_hash (\<lambda>x y. x < y) h' \<and> hash_find demo_hash (\<lambda>x y. x < y) h' 9 = Inr (Some x)"
  using hash_insert_correct [OF demo_contract demo_table_wf, of True 9] by blast

text \<open>C23. \<^verbatim>\<open>hash_delete\<close> returns on a well-formed table the element equal to its argument, if any,
  removes exactly that element, keeps the table well formed, and a search for it afterwards
  finds nothing.\<close>

theorem hash_delete_correct:
  assumes "hash_contract lt hf" and "hash_wf hf lt h"
  shows "\<exists>r h'. hash_delete mem hf lt h e = okE (r, h') \<and> hash_find hf lt h e = Inr r \<and>
    hash_wf hf lt h' \<and> hash_find hf lt h' e = Inr None \<and>
    mset (hash_elems h') = (case r of Some x \<Rightarrow> mset (hash_elems h) - {#x#} | None \<Rightarrow> mset (hash_elems h))"
proof -
  obtain r h' where h': "hash_delete mem hf lt h e = okE (r, h')" "hash_find hf lt h e = Inr r"
      "hash_wf hf lt h'"
      "mset (hash_elems h') = (case r of Some x \<Rightarrow> mset (hash_elems h) - {#x#} | None \<Rightarrow> mset (hash_elems h))"
    using hash_contract.delete_correct [OF assms] by blast
  have "\<forall>y \<in> set (hash_elems h'). \<not> equiv_by lt y e"
    using hash_contract.deleted_absent [OF assms h'(2,4)] .
  then have "hash_find hf lt h' e = Inr None"
    using hash_contract.find_correct [OF assms(1) h'(3), of e] by (auto split: option.splits)
  then show ?thesis using h' by blast
qed

theorem hash_delete_witness:
  "\<exists>r h'. hash_delete True demo_hash (\<lambda>x y. x < y) demo_table 5 = okE (r, h') \<and>
    hash_find demo_hash (\<lambda>x y. x < y) h' 5 = Inr None"
  using hash_delete_correct [OF demo_contract demo_table_wf, of True 5] by blast

text \<open>C29. The iteration idiom visits every element exactly once: from \<^verbatim>\<open>hash_first\<close>, repeated
  \<^verbatim>\<open>hash_next\<close> yields the elements of a well-formed table one after the other and then the
  null element, without failing on an assertion.\<close>

theorem hash_iteration_complete:
  assumes "hash_wf hf lt h"
  shows "hash_walk (Suc (length (hash_elems h))) h hash_first = Some (hash_elems h) \<and>
    distinct (hash_elems h)"
  using hash_walk_all [of hf h] assms by (simp add: hash_wf_def)

theorem hash_iteration_witness: "hash_walk 3 demo_table hash_first = Some [5, 1]"
  using hash_iteration_complete [OF demo_table_wf] by (simp add: demo_table_def hash_elems_def numeral_eq_Suc)

section \<open>64-bit division\<close>

text \<open>C30. The unsigned 64-bit division computed with 32-bit divisions returns the exact
  quotient, and stops on a division error for a zero divisor.\<close>

theorem udiv64_exact: "udiv64 n d = (if d = 0 then Inl Divide_error else Inr (n div d))"
  by (simp add: udiv64_correct udiv64_zero)



section \<open>Strings\<close>



text \<open>\<^verbatim>\<open>strcmp\<close> compares two strings in the lexicographic order of their unsigned bytes: it
  returns, with a negative, zero or positive number; zero exactly for equal strings; and
  exchanging the arguments changes the sign.\<close>

theorem strcmp_correct:
  assumes "a \<noteq> NULL" and "b \<noteq> NULL" and "str_at m a s" and "str_at m b t"
  shows "strcmp a b m = okE (str_order s t) \<and> strcmp b a m = okE (- str_order s t) \<and>
    (strcmp a b m = okE 0 \<longleftrightarrow> s = t)"
  using assms strcmp_loop_str [OF assms(3,4)] strcmp_loop_str [OF assms(4,3)] str_order_flip [of s t]
  by (auto simp: strcmp_def str_order_0)

definition demo_bytes :: bmem where
  "demo_bytes = (\<lambda>_. 0)(0x100 := 47, 0x101 := 97, 0x102 := 47, 0x103 := 98, 0x110 := 47)"

lemma demo_bytes_str:
  "str_at demo_bytes 0x100 [47, 97, 47, 98]" "str_at demo_bytes 0x102 [47, 98]"
  "delims_at demo_bytes 0x110 [47]"
  by (simp_all add: demo_bytes_def delims_at_def no_wrap_def)

theorem strcmp_witness: "strcmp 0x100 0x102 demo_bytes = okE (- 1)"
  using strcmp_correct [OF _ _ demo_bytes_str(1,2)] by simp

text \<open>\<^verbatim>\<open>strlcpy\<close> into a buffer of \<open>n > 0\<close> bytes leaves a terminated string, the source
  truncated to \<open>n - 1\<close> bytes, writes nothing outside the buffer, and returns the length of the
  source.\<close>

theorem strlcpy_correct:
  assumes "dst \<noteq> NULL" and "src \<noteq> NULL" and "str_at m src s" and "length s < 2 ^ 32" and "n > 0"
    and "disjoint_blocks dst src (if of_nat (length s) < n - 1 then of_nat (length s) else n - 1)"
  shows "\<exists>m'. strlcpy dst src n m = okE (of_nat (length s), m') \<and>
    str_at m' dst (take (unat n - 1) s) \<and> (\<forall>x. \<not> in_block x dst n \<longrightarrow> m' x = m x)"
  by (rule strlcpy_str [OF assms])

theorem strlcpy_witness:
  "\<exists>m'. strlcpy 0x200 0x100 3 demo_bytes = okE (4, m') \<and> str_at m' 0x200 [47, 97]"
proof -
  have two: "y < 2 \<longleftrightarrow> y = 0 \<or> y = 1" for y :: u32 by (auto simp: word_less_nat_alt word_unat_eq_iff)
  have "disjoint_blocks 0x200 0x100 2"
    by (auto simp: disjoint_blocks_def in_block_def two diff_eq_eq)
  then show ?thesis using strlcpy_correct [OF _ _ demo_bytes_str(1), where dst = "0x200" and n = 3] by auto
qed

text \<open>C33. \<^verbatim>\<open>strtok_r\<close> returns: a null pointer when only delimiters remain, otherwise a pointer to
  the next maximal run of non-delimiters, terminated in place, with the saved pointer at the
  text after the delimiter that ended it.\<close>

theorem strtok_r_correct:
  assumes "delims_at m d ds" and "str_at m p s" and "p \<noteq> NULL" and "length s < 2 ^ 32"
  shows "let t = dropWhile (\<lambda>c. c \<in> set ds) s; tok = takeWhile (\<lambda>c. c \<notin> set ds) t;
      q0 = p + of_nat (length s - length t) in
    if t = [] then \<exists>q. strtok_r p d sv m = okE (NULL, q, m) \<and> str_at m q []
    else \<exists>q m'. strtok_r p d sv m = okE (q0, q, m') \<and> str_at m' q0 tok \<and>
      str_at m' q (drop 1 (dropWhile (\<lambda>c. c \<notin> set ds) t))"
  using strtok_r_str [OF assms, of sv] by (simp only: Let_def)

theorem strtok_r_witness:
  "\<exists>q m'. strtok_r 0x100 0x110 0 demo_bytes = okE (0x101, q, m') \<and> str_at m' 0x101 [97] \<and> str_at m' q [98]"
  using strtok_r_correct [OF demo_bytes_str(3,1), where sv = 0] by simp

section \<open>Sorting and searching\<close>

text \<open>C34. \<^verbatim>\<open>sort\<close> returns for every comparison function that is a total preorder: the array is
  then a permutation of its elements in nondecreasing order.\<close>

theorem sort_sorts:
  assumes "elem_comparator cmp" and "array_ok arr n sz" and "unat cnt = n"
  shows "\<exists>arr'. sort arr cnt sz cmp = okE arr' \<and> array_ok arr' n sz \<and>
    sorted_wrt (\<lambda>x y. cmp x y \<le> 0) (elems arr' (unat sz) n) \<and>
    mset (elems arr' (unat sz) n) = mset (elems arr (unat sz) n)"
  by (rule elem_comparator.sort_correct [OF assms])

theorem sort_witness:
  "\<exists>arr'. sort [3, 1, 2] 3 1 str_order = okE arr' \<and> sorted_wrt (\<lambda>x y. str_order x y \<le> 0) (elems arr' 1 3)"
  using sort_sorts [OF str_elems.elem_comparator_axioms, of "[3, 1, 2]" 3 1 3]
  by (auto simp: array_ok_def)

text \<open>C35. \<^verbatim>\<open>binary_search\<close> on a sorted array returns: an element equal to the key if there is one,
  and a null pointer exactly when there is none.\<close>

theorem binary_search_finds:
  assumes "elem_comparator cmp" and "array_ok arr n sz" and "unat cnt = n"
    and "sorted_wrt (\<lambda>x y. cmp x y \<le> 0) (elems arr (unat sz) n)"
  shows "\<exists>r. binary_search key arr cnt sz cmp = okE r \<and>
    (case r of Some p \<Rightarrow> \<exists>k < n. unat p = k * unat sz \<and> cmp key (elems arr (unat sz) n ! k) = 0
     | None \<Rightarrow> \<forall>k < n. cmp key (elems arr (unat sz) n ! k) \<noteq> 0)"
  by (rule elem_comparator.binary_search_correct [OF assms])

theorem binary_search_witness: "\<exists>p. binary_search [2] [1, 2, 5] 3 1 str_order = okE (Some p)"
proof -
  have e: "elems [1, 2, 5] (unat (1 :: u32)) 3 = [[1], [2], [5 :: u8]]" by code_simp
  have "array_ok [1, 2, 5] 3 1" by (simp add: array_ok_def)
  from binary_search_finds [OF str_elems.elem_comparator_axioms this, of 3 "[2]", unfolded e]
  obtain r where r: "binary_search [2] [1, 2, 5] 3 1 str_order = okE r"
      "r = None \<longrightarrow> (\<forall>k < 3. str_order [2] ([[1], [2], [5 :: u8]] ! k) \<noteq> 0)"
    by (auto split: option.splits)
  from r(2) have "r \<noteq> None" by (auto dest: spec [of _ "1 :: nat"])
  then show ?thesis using r(1) by blast
qed

end
