(* ===== verification/Krandom.thy ===== *)
theory Krandom
  imports Khash
begin

text \<open>
  \<^verbatim>\<open>lib/random.c\<close> and \<^verbatim>\<open>tests/arc4.c\<close>: the pseudo-random generator and the stream cipher it is
  built on. The 256-entry state \<open>s\<close> is a map from byte to byte, so that every index a byte can
  take is in range. The lemmas show that the state stays a permutation, that the cipher undoes
  itself, and that the generator is the cipher's key stream for the bytes of the seed.
\<close>

section \<open>The generator\<close>

type_synonym sbox = "u8 \<Rightarrow> u8"

record rng =
  rng_s :: sbox
  s_i :: u8
  s_j :: u8
  inited :: bool

definition swap_byte :: "u8 \<Rightarrow> u8 \<Rightarrow> sbox \<Rightarrow> sbox" where
  "swap_byte a b s = (let t = s a; s = s(a := s b) in s(b := t))"

primrec random_init_loop :: "nat \<Rightarrow> u8 list \<Rightarrow> u8 \<Rightarrow> sbox \<Rightarrow> sbox" where
  "random_init_loop 0 seedp j s = s"
| "random_init_loop (Suc n) seedp j s = (let i = 255 - n;
     j = j + (s (of_nat i) + seedp ! (i mod 4))
     in random_init_loop n seedp j (swap_byte (of_nat i) j s))"

definition random_init :: "u32 \<Rightarrow> rng" where
  "random_init seed = \<lparr>rng_s = random_init_loop 256 (int_bytes seed) 0 (\<lambda>i. i),
     s_i = 0, s_j = 0, inited = True\<rparr>"

primrec random_bytes_loop :: "nat \<Rightarrow> rng \<Rightarrow> u8 list \<times> rng" where
  "random_bytes_loop 0 r = ([], r)"
| "random_bytes_loop (Suc n) r =
     (let i = s_i r + 1; j = s_j r + rng_s r i; s = swap_byte i j (rng_s r); k = s i + s j;
       (bs, r') = random_bytes_loop n (r\<lparr>rng_s := s, s_i := i, s_j := j\<rparr>)
      in (s k # bs, r'))"

definition random_bytes :: "nat \<Rightarrow> rng \<Rightarrow> u8 list \<times> rng" where
  "random_bytes sz r = random_bytes_loop sz (if \<not> inited r then random_init 0 else r)"

definition random_ulong :: "rng \<Rightarrow> u32 \<times> rng" where
  "random_ulong r = (let (bs, r) = random_bytes 4 r in (bytes_int bs, r))"

section \<open>The cipher\<close>

record arc4 =
  arc4_s :: sbox
  arc4_i :: u8
  arc4_j :: u8

primrec arc4_init_loop :: "nat \<Rightarrow> u8 list \<Rightarrow> nat \<Rightarrow> nat \<Rightarrow> u8 \<Rightarrow> sbox \<Rightarrow> sbox res" where
  "arc4_init_loop 0 key sz key_idx j s = Inr s"
| "arc4_init_loop (Suc n) key sz key_idx j s = (let i = 255 - n in
     if key_idx < length key
     then let j = j + s (of_nat i) + key ! key_idx
       in arc4_init_loop n key sz (if Suc key_idx \<ge> sz then 0 else Suc key_idx) j (swap_byte (of_nat i) j s)
     else Inl Bad_access)"

definition arc4_init :: "u8 list \<Rightarrow> nat \<Rightarrow> arc4 res" where
  "arc4_init key sz = bindR (arc4_init_loop 256 key sz 0 0 (\<lambda>i. i))
     (\<lambda>s. Inr \<lparr>arc4_s = s, arc4_i = 0, arc4_j = 0\<rparr>)"

fun arc4_crypt :: "arc4 \<Rightarrow> u8 list \<Rightarrow> u8 list \<times> arc4" where
  "arc4_crypt a [] = ([], a)"
| "arc4_crypt a (b # buf) =
     (let i = arc4_i a + 1; j = arc4_j a + arc4_s a i; s = swap_byte i j (arc4_s a);
       (buf', a') = arc4_crypt \<lparr>arc4_s = s, arc4_i = i, arc4_j = j\<rparr> buf
      in ((b XOR s (s i + s j)) # buf', a'))"

section \<open>The state is a permutation of the bytes\<close>

lemma swap_byte_bij:
  assumes "bij s"
  shows "bij (swap_byte a b s)"
proof -
  have "\<exists>x. y = swap_byte a b s x" for y
  proof -
    obtain x where "s x = y" using bij_is_surj [OF assms] by (metis surjD)
    then have "swap_byte a b s (if x = a then b else if x = b then a else x) = y"
      by (cases "x = a"; cases "x = b"; simp add: swap_byte_def Let_def)
    then show ?thesis by metis
  qed
  then have "surj (swap_byte a b s)" by (simp add: surj_def)
  moreover from this have "inj (swap_byte a b s)" by (rule finite_UNIV_surj_inj [OF finite])
  ultimately show ?thesis by (simp add: bij_def)
qed

lemma random_init_loop_bij: "bij s \<Longrightarrow> bij (random_init_loop n seedp j s)"
  by (induction n arbitrary: j s) (simp_all add: Let_def swap_byte_bij)

lemma random_init_bij: "bij (rng_s (random_init seed))"
  unfolding random_init_def by (simp add: random_init_loop_bij bij_id [unfolded id_def])

lemma random_bytes_loop_bij:
  "bij (rng_s r) \<Longrightarrow> bij (rng_s (snd (random_bytes_loop n r))) \<and> inited (snd (random_bytes_loop n r)) = inited r"
  by (induction n arbitrary: r) (auto simp: Let_def swap_byte_bij split_beta)

definition rng_ok :: "rng \<Rightarrow> bool" where
  "rng_ok r \<longleftrightarrow> (inited r \<longrightarrow> bij (rng_s r))"

lemma random_bytes_ok: "rng_ok r \<Longrightarrow> rng_ok (snd (random_bytes n r)) \<and> inited (snd (random_bytes n r))"
  using random_bytes_loop_bij [of r n] random_bytes_loop_bij [OF random_init_bij, of n 0]
  by (simp add: random_bytes_def rng_ok_def) (simp add: random_init_def)

lemma random_bytes_length: "length (fst (random_bytes n r)) = n"
proof -
  have "length (fst (random_bytes_loop n r)) = n" for r
    by (induction n arbitrary: r) (simp_all add: Let_def split_beta)
  then show ?thesis by (simp add: random_bytes_def)
qed

section \<open>The cipher undoes itself\<close>

lemma arc4_crypt_state:
  "length buf = length buf' \<Longrightarrow> snd (arc4_crypt a buf) = snd (arc4_crypt a buf')"
proof (induction buf buf' arbitrary: a rule: list_induct2)
  case (Cons x xs y ys)
  show ?case by (simp only: arc4_crypt.simps Let_def split_beta snd_conv Cons.IH)
qed simp

lemma arc4_crypt_undo: "fst (arc4_crypt a (fst (arc4_crypt a buf))) = buf"
  by (induction a buf rule: arc4_crypt.induct) (simp_all add: Let_def split_beta xor.assoc)

lemma arc4_crypt_append:
  "arc4_crypt a (xs @ ys) =
    (let (us, a') = arc4_crypt a xs; (vs, a'') = arc4_crypt a' ys in (us @ vs, a''))"
  by (induction a xs rule: arc4_crypt.induct) (simp_all add: Let_def split_beta)

section \<open>The generator is the key stream of the cipher\<close>

lemma random_init_arc4:
  assumes "n \<le> 256" "length key = 4"
  shows "arc4_init_loop n key 4 ((256 - n) mod 4) j s = Inr (random_init_loop n key j s)"
  using assms(1)
proof (induction n arbitrary: j s)
  case (Suc n)
  have i: "(256 - Suc n) mod 4 = (255 - n) mod 4" by simp
  have nx: "(if Suc ((255 - n) mod 4) \<ge> 4 then 0 else Suc ((255 - n) mod 4)) = (256 - n) mod 4"
    using Suc.prems mod_Suc [of "255 - n" 4] mod_less_divisor [of 4 "255 - n"]
    by (simp add: Suc_diff_le [symmetric]) linarith
  show ?case
    using Suc.IH [of "j + (s (of_nat (255 - n)) + key ! ((255 - n) mod 4))"] Suc.prems assms(2)
    by (simp only: arc4_init_loop.simps random_init_loop.simps Let_def i nx) (simp add: add.assoc)
qed simp

definition keyed_like :: "rng \<Rightarrow> arc4 \<Rightarrow> bool" where
  "keyed_like r a \<longleftrightarrow> rng_s r = arc4_s a \<and> s_i r = arc4_i a \<and> s_j r = arc4_j a"

lemma random_bytes_loop_arc4:
  "keyed_like r a \<Longrightarrow> fst (random_bytes_loop n r) = fst (arc4_crypt a (replicate n 0)) \<and>
    keyed_like (snd (random_bytes_loop n r)) (snd (arc4_crypt a (replicate n 0)))"
  by (induction n arbitrary: r a) (auto simp: Let_def split_beta keyed_like_def)

text \<open>C36. The generator seeded with \<open>seed\<close> produces the key stream of the cipher initialised with the
  four bytes of the seed, and its state stays a permutation of the bytes.\<close>

theorem random_is_arc4:
  "\<exists>a. arc4_init (int_bytes seed) 4 = Inr a \<and>
    fst (random_bytes n (random_init seed)) = fst (arc4_crypt a (replicate n 0)) \<and>
    bij (rng_s (snd (random_bytes n (random_init seed))))"
proof -
  let ?r = "random_init seed"
  let ?a = "\<lparr>arc4_s = rng_s ?r, arc4_i = 0, arc4_j = 0\<rparr>"
  have "arc4_init (int_bytes seed) 4 = Inr ?a"
    using random_init_arc4 [of 256 "int_bytes seed" 0 "\<lambda>i. i"]
    by (simp add: arc4_init_def random_init_def int_bytes_def)
  moreover have "keyed_like ?r ?a" "inited ?r" by (simp_all add: keyed_like_def random_init_def)
  ultimately show ?thesis
    using random_bytes_loop_arc4 [of ?r ?a n] random_bytes_loop_bij [OF random_init_bij, of n seed]
    by (simp add: random_bytes_def)
qed

text \<open>C37. Encrypting a buffer twice from the same cipher state gives the buffer back, and leaves the
  cipher in the state one encryption leaves it in.\<close>

theorem arc4_crypt_roundtrip:
  "arc4_crypt a (fst (arc4_crypt a buf)) = (buf, snd (arc4_crypt a buf))"
proof -
  have "length (fst (arc4_crypt a buf)) = length buf"
    by (induction a buf rule: arc4_crypt.induct) (simp_all add: Let_def split_beta)
  then show ?thesis using arc4_crypt_undo [of a buf] arc4_crypt_state [of "fst (arc4_crypt a buf)" buf a]
    by (simp add: prod_eq_iff)
qed

end
