(* ===== verification/Kselftest.thy ===== *)
theory Kselftest
  imports Klist_Props Kheapsort Krandom
begin

text \<open>
  The self tests of the list, sorting and searching code, \<^verbatim>\<open>tests/internal/list.c\<close> and
  \<^verbatim>\<open>tests/internal/stdlib.c\<close>: their comparison functions, which interpret the ordering locales of
  the library, their shuffle, and their checks. The theorems show that the checks never fail an
  assertion, for any state of the random generator.
\<close>

section \<open>The list test\<close>

definition value_less :: "(ptr \<Rightarrow> u32) \<Rightarrow> less_func" where
  "value_less val a b \<longleftrightarrow> sint (val a) < sint (val b)"

function verify_fwd_loop :: "(ptr \<Rightarrow> u32) \<Rightarrow> ptr \<Rightarrow> nat \<Rightarrow> nat \<Rightarrow> ptr \<Rightarrow> lmem \<Rightarrow> (nat \<times> ptr) res" where
  "verify_fwd_loop val l sz i e m = (if i < sz \<and> e \<noteq> tail_of l
     then require (of_nat i = val e) (bindR (list_next e m) (\<lambda>e. verify_fwd_loop val l sz (Suc i) e m))
     else Inr (i, e))"
  by pat_completeness auto
termination by (relation "measure (\<lambda>(val, l, sz, i, e, m). sz - i)") auto

definition verify_list_fwd :: "(ptr \<Rightarrow> u32) \<Rightarrow> ptr \<Rightarrow> nat \<Rightarrow> lmem \<Rightarrow> unit res" where
  "verify_list_fwd val l sz m =
     bindR (list_begin l m) (\<lambda>e.
     bindR (verify_fwd_loop val l sz 0 e m) (\<lambda>(i, e).
     require (i = sz) (require (e = tail_of l) (Inr ()))))"

function verify_bkwd_loop :: "(ptr \<Rightarrow> u32) \<Rightarrow> ptr \<Rightarrow> nat \<Rightarrow> nat \<Rightarrow> ptr \<Rightarrow> lmem \<Rightarrow> (nat \<times> ptr) res" where
  "verify_bkwd_loop val l sz i e m = (if i < sz \<and> e \<noteq> head_of l
     then require (of_nat i = val e) (bindR (list_prev e m) (\<lambda>e. verify_bkwd_loop val l sz (Suc i) e m))
     else Inr (i, e))"
  by pat_completeness auto
termination by (relation "measure (\<lambda>(val, l, sz, i, e, m). sz - i)") auto

definition verify_list_bkwd :: "(ptr \<Rightarrow> u32) \<Rightarrow> ptr \<Rightarrow> nat \<Rightarrow> lmem \<Rightarrow> unit res" where
  "verify_list_bkwd val l sz m =
     bindR (list_rbegin l m) (\<lambda>e.
     bindR (verify_bkwd_loop val l sz 0 e m) (\<lambda>(i, e).
     require (i = sz) (require (e = head_of l) (Inr ()))))"

definition sort_and_verify :: "(ptr \<Rightarrow> u32) \<Rightarrow> ptr \<Rightarrow> nat \<Rightarrow> lmem \<Rightarrow> lmem exec" where
  "sort_and_verify val l sz m =
     bindE (list_sort l (value_less val) m) (\<lambda>m.
     bindE (Some (verify_list_fwd val l sz m)) (\<lambda>_.
     bindE (list_reverse l m) (\<lambda>m.
     bindE (Some (verify_list_bkwd val l sz m)) (\<lambda>_. okE m))))"

interpretation value_order: list_order "value_less val" for val
  by unfold_locales (auto simp: value_less_def)

declare verify_fwd_loop.simps [simp del] verify_bkwd_loop.simps [simp del]

lemma verify_fwd_loop_rep:
  assumes "list_rep m l (pre @ xs)" "\<forall>k < length xs. val (xs ! k) = of_nat (i + k)"
  shows "verify_fwd_loop val l (i + length xs) i (list_first l xs) m = Inr (i + length xs, tail_of l)"
  using assms
proof (induction xs arbitrary: pre i)
  case (Cons x xs)
  have v: "val x = of_nat i" using Cons.prems(2) by fastforce
  have r: "list_rep m l ((pre @ [x]) @ xs)" using Cons.prems(1) by simp
  have "\<forall>k < length xs. val (xs ! k) = of_nat (Suc i + k)" using Cons.prems(2) by fastforce
  from Cons.IH [OF r this] show ?case
    using list_next_rep [OF Cons.prems(1)] list_rep_elem(1) [OF Cons.prems(1)] v
    by (subst verify_fwd_loop.simps) simp
qed (simp add: verify_fwd_loop.simps)

lemma list_prev_any:
  assumes "list_rep m l (xs @ y # ys)"
  shows "list_prev y m = Inr (last (head_of l # xs))"
  using assms list_prev_nodes [of m "[]" "head_of l" y "ys @ [tail_of l]"]
    list_prev_nodes [of m "head_of l # butlast xs" "last xs" y "ys @ [tail_of l]"]
  by (cases xs rule: rev_cases) (simp_all add: list_rep_def)

lemma list_rbegin_rep:
  assumes "list_rep m l xs"
  shows "list_rbegin l m = Inr (last (head_of l # xs))"
  using assms list_rep_facts(1) [OF assms] wf_nodes_mid(2) [of m "[]" "head_of l" "tail_of l" "[]"]
    wf_nodes_mid(2) [of m "head_of l # butlast xs" "last xs" "tail_of l" "[]"]
  by (cases xs rule: rev_cases) (simp_all add: list_rbegin_def list_rep_def)

lemma verify_bkwd_loop_rep:
  assumes "list_rep m l (xs @ post)" "\<forall>k < length xs. val (rev xs ! k) = of_nat (i + k)"
  shows "verify_bkwd_loop val l (i + length xs) i (last (head_of l # xs)) m = Inr (i + length xs, head_of l)"
  using assms
proof (induction xs arbitrary: post i rule: rev_induct)
  case (snoc x xs)
  have v: "val x = of_nat i" using snoc.prems(2) by fastforce
  have r: "list_rep m l (xs @ (x # post))" using snoc.prems(1) by simp
  have "\<forall>k < length xs. val (rev xs ! k) = of_nat (Suc i + k)" using snoc.prems(2) by fastforce
  from snoc.IH [OF r this] show ?case
    using list_prev_any [OF r] list_rep_elem(2) [OF r] v
    by (subst verify_bkwd_loop.simps) simp
qed (simp add: verify_bkwd_loop.simps)

lemma sint_small: "k < 2 ^ 31 \<Longrightarrow> sint (of_nat k :: u32) = int k"
  by (simp add: signed_of_nat signed_take_bit_int_eq_self_iff)

lemma sorted_ints:
  assumes "sorted (map sint vs)" "mset vs = mset (map of_nat [0..<n])" "n < 2 ^ 31"
  shows "vs = map (of_nat :: nat \<Rightarrow> u32) [0..<n]"
proof -
  have small: "sint (of_nat k :: u32) = int k" if "k < n" for k
    using that assms(3) by (simp add: sint_small)
  then have t: "map sint (map of_nat [0..<n] :: u32 list) = map int [0..<n]" by simp
  have "mset (map sint vs) = image_mset sint (mset vs)" by simp
  also have "\<dots> = mset (map int [0..<n])" unfolding assms(2) using t by (metis mset_map)
  finally have "map sint vs = map int [0..<n]"
    using properties_for_sort [OF _ assms(1)] sorted_sort_id [of "map int [0..<n]"]
    by (simp add: sorted_map)
  then have "map sint vs = map sint (map of_nat [0..<n] :: u32 list)" using t by simp
  then show ?thesis by (rule map_injective) (auto intro: injI signed_word_eqI)
qed

lemma sorted_values:
  assumes "sorted_by (value_less val) ys" "mset (map val ys) = mset (map of_nat [0..<n])" "n < 2 ^ 31"
  shows "map val ys = map of_nat [0..<n]"
proof -
  have "sorted (map sint (map val ys))"
    using assms(1) by (simp add: sorted_map value_less_def not_less)
  then show ?thesis using assms(2,3) by (rule sorted_ints)
qed

lemma values_nth:
  assumes "map val ys = map of_nat [0..<n]"
  shows "length ys = n" "\<forall>k < length ys. val (ys ! k) = of_nat k"
proof -
  show l: "length ys = n" using arg_cong [OF assms, of length] by simp
  show "\<forall>k < length ys. val (ys ! k) = of_nat k"
  proof (intro allI impI)
    fix k assume "k < length ys"
    then show "val (ys ! k) = of_nat k" using arg_cong [OF assms, of "\<lambda>xs. xs ! k"] l by simp
  qed
qed



section \<open>The sorting and searching test\<close>

definition int_of_elem :: "elem \<Rightarrow> int" where
  "int_of_elem e = sint (bytes_int e)"

definition compare_ints :: cmp_func where
  "compare_ints a b = (if int_of_elem a < int_of_elem b then - 1
     else if int_of_elem a > int_of_elem b then 1 else 0)"

function shuffle :: "u32 \<Rightarrow> u32 \<Rightarrow> u32 list \<Rightarrow> rng \<Rightarrow> (u32 list \<times> rng) res" where
  "shuffle i cnt array r = (if i < cnt
     then let (x, r) = random_ulong r; j = i + x mod (cnt - i) in
       if unat i < length array \<and> unat j < length array
       then let t = array ! unat j; array = array[unat j := array ! unat i]; array = array[unat i := t]
         in shuffle (i + 1) cnt array r
       else Inl Bad_access
     else Inr (array, r))"
  by pat_completeness auto
termination by (relation "measure (\<lambda>(i, cnt, array, r). unat cnt - unat i)") (auto simp: count_up)

fun verify_order :: "u8 list \<Rightarrow> nat list \<Rightarrow> unit res" where
  "verify_order arr [] = Inr ()"
| "verify_order arr (i # is) = bindR (elem_at arr (of_nat (4 * i)) 4) (\<lambda>e.
     require (int_of_elem e = int i) (verify_order arr is))"

fun verify_found :: "u8 list \<Rightarrow> u32 \<Rightarrow> nat list \<Rightarrow> unit exec" where
  "verify_found arr cnt [] = okE ()"
| "verify_found arr cnt (i # is) = bindE (bsearch (int_bytes (of_nat i)) arr cnt 4 compare_ints) (\<lambda>p.
     requireE (p = Some (of_nat (4 * i))) (verify_found arr cnt is))"

fun verify_absent :: "u8 list \<Rightarrow> u32 \<Rightarrow> u32 list \<Rightarrow> unit exec" where
  "verify_absent arr cnt [] = okE ()"
| "verify_absent arr cnt (v # vs) = bindE (bsearch (int_bytes v) arr cnt 4 compare_ints) (\<lambda>p.
     requireE (p = None) (verify_absent arr cnt vs))"

definition MAX_CNT :: nat where "MAX_CNT = 4096"

definition verify_bsearch :: "u8 list \<Rightarrow> nat \<Rightarrow> unit exec" where
  "verify_bsearch arr cnt = bindE (verify_found arr (of_nat cnt) [0..<cnt]) (\<lambda>_.
     verify_absent arr (of_nat cnt)
       [of_nat cnt, - 1, 0x7FFFFFFF, of_nat MAX_CNT, of_nat (MAX_CNT + 1), of_nat (MAX_CNT * 2)])"

definition stdlib_round :: "nat \<Rightarrow> rng \<Rightarrow> rng exec" where
  "stdlib_round cnt r =
     bindE (Some (shuffle 0 (of_nat cnt) (map of_nat [0..<cnt]) r)) (\<lambda>(values, r).
     bindE (qsort (concat (map int_bytes values)) (of_nat cnt) 4 compare_ints) (\<lambda>arr.
     bindE (Some (verify_order arr [0..<cnt])) (\<lambda>_.
     bindE (verify_bsearch arr cnt) (\<lambda>_. okE r))))"

interpretation int_order: elem_comparator compare_ints
  by unfold_locales (auto simp: compare_ints_def split: if_splits)

declare shuffle.simps [simp del]

lemma shuffle_permutes:
  assumes "length array = unat cnt"
  shows "\<exists>array' r'. shuffle i cnt array r = Inr (array', r') \<and> mset array' = mset array"
  using assms
proof (induction "unat cnt - unat i" arbitrary: i array r rule: less_induct)
  case less
  note len = less.prems
  show ?case
  proof (cases "i < cnt")
    case True
    obtain x r' where x: "random_ulong r = (x, r')" by fastforce
    let ?j = "i + x mod (cnt - i)"
    let ?a = "array[unat ?j := array ! unat i, unat i := array ! unat ?j]"
    have "unat (x mod (cnt - i)) < unat cnt - unat i"
      using True by (simp add: unat_mod unat_sub word_le_nat_alt word_less_nat_alt)
    then have j: "unat ?j < unat cnt" and i: "unat i < unat cnt"
      using True unat_lt2p [of cnt] by (simp_all add: unat_word_ariths word_less_nat_alt)
    have "mset ?a = mset array" using mset_swap [of "unat i" array "unat ?j"] i j len by simp
    moreover have "\<exists>array' r''. shuffle (i + 1) cnt ?a r' = Inr (array', r'') \<and> mset array' = mset ?a"
      using less.hyps [OF count_up [OF True], of ?a r'] len by simp
    ultimately show ?thesis using i j True x len by (subst shuffle.simps) (simp add: Let_def)
  qed (simp add: shuffle.simps)
qed

lemma encoded_elems: "elems (concat (map int_bytes vs)) 4 (length vs) = map int_bytes vs"
  by (rule nth_equalityI) (simp_all add: elems_def encoded_elem)

definition counting :: "u8 list \<Rightarrow> nat \<Rightarrow> bool" where
  "counting arr n \<longleftrightarrow> array_ok arr n 4 \<and> map bytes_int (elems arr 4 n) = map of_nat [0..<n] \<and> n < 2 ^ 12"

lemma counting_elem:
  assumes "counting arr n" "k < n"
  shows "int_of_elem (elems arr 4 n ! k) = int k" "elem_at arr (4 * of_nat k) 4 = Inr (elems arr 4 n ! k)"
proof -
  have "map bytes_int (elems arr 4 n) ! k = map of_nat [0..<n] ! k" using assms by (simp add: counting_def)
  then have "bytes_int (elems arr 4 n ! k) = of_nat k" using assms(2) by simp
  then show "int_of_elem (elems arr 4 n ! k) = int k"
    using assms by (simp add: int_of_elem_def sint_small counting_def)
  have "4 * k < 2 ^ 32" "length arr = n * 4" using assms by (simp_all add: counting_def array_ok_def)
  then have "unat (4 * of_nat k :: u32) = 4 * k" "length arr = n * 4"
    by (simp_all add: unat_word_ariths unat_of_nat)
  then show "elem_at arr (4 * of_nat k) 4 = Inr (elems arr 4 n ! k)"
    using assms(2) by (simp add: elem_at_def elems_def mult.commute)
qed

lemma verify_order_counting: "counting arr n \<Longrightarrow> set is \<subseteq> {..<n} \<Longrightarrow> verify_order arr is = Inr ()"
  by (induction "is") (simp_all add: counting_elem)

lemma counting_sorted:
  assumes "counting arr n"
  shows "sorted_wrt (\<lambda>x y. compare_ints x y \<le> 0) (elems arr 4 n)"
  using counting_elem(1) [OF assms] by (auto simp: sorted_wrt_iff_nth_less compare_ints_def)

lemma bsearch_counting:
  assumes c: "counting arr n"
  shows "bsearch (int_bytes v) arr (of_nat n) 4 compare_ints =
    okE (if 0 \<le> sint v \<and> sint v < int n then Some (4 * v) else None)"
proof -
  have ok: "array_ok arr n 4" and n: "n < 2 ^ 12" using c by (simp_all add: counting_def)
  have u: "unat (of_nat n :: u32) = n" using n by (simp add: unat_of_nat)
  have four: "unat (4 :: u32) = 4" by simp
  have v: "int_of_elem (int_bytes v) = sint v" by (simp add: int_of_elem_def)
  obtain r where r: "bsearch (int_bytes v) arr (of_nat n) 4 compare_ints = okE r"
      "case r of Some p \<Rightarrow> \<exists>k < n. unat p = k * 4 \<and> compare_ints (int_bytes v) (elems arr 4 n ! k) = 0
       | None \<Rightarrow> \<forall>k < n. compare_ints (int_bytes v) (elems arr 4 n ! k) \<noteq> 0"
    using int_order.binary_search_correct [OF ok u, of "int_bytes v", unfolded four] counting_sorted [OF c]
    by (auto simp: bsearch_def compare_thunk_def [abs_def])
  have eq: "compare_ints (int_bytes v) (elems arr 4 n ! k) = 0 \<longleftrightarrow> sint v = int k" if "k < n" for k
    using counting_elem(1) [OF c that] by (auto simp: compare_ints_def v)
  show ?thesis
  proof (cases r)
    case None
    then have "\<forall>k < n. sint v \<noteq> int k" using r(2) eq by simp
    then have "\<not> (0 \<le> sint v \<and> sint v < int n)" by (metis nat_0_le nat_less_iff)
    then show ?thesis using r(1) None by simp
  next
    case (Some p)
    then obtain k where k: "k < n" "unat p = k * 4" "sint v = int k" using r(2) eq by auto
    then have "sint v = sint (of_nat k :: u32)"
      using n by (simp add: sint_small)
    then have "v = of_nat k" by (rule signed_word_eqI)
    moreover have "unat (4 * of_nat k :: u32) = k * 4"
      using k(1) n by (simp add: unat_word_ariths unat_of_nat)
    ultimately have "unat p = unat (4 * v)" using k(2) by simp
    then have "p = 4 * v" by (simp only: word_unat_eq_iff)
    then show ?thesis using r(1) Some k by simp
  qed
qed

lemma verify_found_counting:
  assumes "counting arr n" "set is \<subseteq> {..<n}"
  shows "verify_found arr (of_nat n) is = okE ()"
proof -
  have "sint (of_nat i :: u32) = int i" if "i < n" for i
    using that assms(1) by (simp add: sint_small counting_def)
  then show ?thesis using assms(2) bsearch_counting [OF assms(1)] by (induction "is") simp_all
qed

lemma verify_absent_counting:
  assumes "counting arr n" "\<forall>v \<in> set vs. sint v < 0 \<or> int n \<le> sint v"
  shows "verify_absent arr (of_nat n) vs = okE ()"
  using assms(2) bsearch_counting [OF assms(1)] by (induction vs) auto

lemma verify_bsearch_counting:
  assumes "counting arr n"
  shows "verify_bsearch arr n = okE ()"
proof -
  have n: "n < 2 ^ 12" using assms by (simp add: counting_def)
  then have "sint (of_nat n :: u32) = int n" by (simp add: sint_small)
  then show ?thesis using n
      verify_found_counting [OF assms, of "[0..<n]"]
      verify_absent_counting [OF assms, of "[of_nat n, - 1, 0x7FFFFFFF, of_nat MAX_CNT, of_nat (MAX_CNT + 1), of_nat (MAX_CNT * 2)]"]
    by (simp add: verify_bsearch_def MAX_CNT_def atLeast0LessThan)
qed

text \<open>C40. The sorting and searching test passes for every array size it uses and every state of the
  random generator: a round of shuffling, sorting, checking the order and searching for present and
  absent numbers returns without a failed assertion or an access outside the array.\<close>

theorem stdlib_test_passes:
  assumes "cnt < MAX_CNT"
  shows "\<exists>r'. stdlib_round cnt r = okE r'"
proof -
  have u: "unat (of_nat cnt :: u32) = cnt" using assms by (simp add: unat_of_nat MAX_CNT_def)
  obtain vs r' where vs: "shuffle 0 (of_nat cnt) (map of_nat [0..<cnt]) r = Inr (vs, r')"
      "mset vs = mset (map of_nat [0..<cnt])"
    using shuffle_permutes [of "map of_nat [0..<cnt]" "of_nat cnt" 0 r] u by auto
  have len: "length vs = cnt" using mset_eq_length [OF vs(2)] by simp
  have ok: "array_ok (concat (map int_bytes vs)) cnt 4"
    using assms len by (simp add: array_ok_def encoded_length MAX_CNT_def)
  have four: "unat (4 :: u32) = 4" by simp
  obtain arr where arr: "qsort (concat (map int_bytes vs)) (of_nat cnt) 4 compare_ints = okE arr"
      "array_ok arr cnt 4" "sorted_wrt (\<lambda>x y. compare_ints x y \<le> 0) (elems arr 4 cnt)"
      "mset (elems arr 4 cnt) = mset (map int_bytes vs)"
    using int_order.sort_correct [OF ok u, unfolded four] encoded_elems [of vs] len
    by (auto simp: qsort_def compare_thunk_def [abs_def])
  have "sorted (map sint (map bytes_int (elems arr 4 cnt)))"
    using arr(3) unfolding sorted_map map_map
    by (rule sorted_wrt_mono_rel [rotated]) (simp add: compare_ints_def int_of_elem_def split: if_splits)
  moreover have "mset (map bytes_int (elems arr 4 cnt)) = mset (map of_nat [0..<cnt])"
  proof -
    have "mset (map bytes_int (elems arr 4 cnt)) = image_mset bytes_int (mset (map int_bytes vs))"
      using arr(4) by simp
    also have "\<dots> = mset vs" by (simp add: image_mset.compositionality o_def)
    finally show ?thesis using vs(2) by simp
  qed
  ultimately have "map bytes_int (elems arr 4 cnt) = map of_nat [0..<cnt]"
    using assms by (intro sorted_ints) (auto simp: MAX_CNT_def)
  then have c: "counting arr cnt" using arr(2) assms by (simp add: counting_def MAX_CNT_def)
  have "stdlib_round cnt r = okE r'"
    using vs(1) arr(1) verify_order_counting [OF c, of "[0..<cnt]"] verify_bsearch_counting [OF c]
    by (simp add: stdlib_round_def atLeast0LessThan)
  then show ?thesis by blast
qed

theorem stdlib_test_witness: "\<exists>r'. stdlib_round 100 (random_init 7) = okE r'"
  using stdlib_test_passes [of 100] by (simp add: MAX_CNT_def)

end
