(* ===== verification/Kcksum.thy ===== *)
theory Kcksum
  imports Prelude
begin

unbundle bit_operations_syntax

text \<open>
  \<^verbatim>\<open>tests/cksum.c\<close>: the table-driven checksum of POSIX, which the file-system tests compare file
  contents with. The lemmas show that the table holds the remainders of the generator
  polynomial and that the routine computes the bit-by-bit cyclic redundancy check.
\<close>

lemma shift_less: "n \<noteq> 0 \<Longrightarrow> unat (drop_bit 8 n) < unat n" for n :: u32
  by (simp add: drop_bit_eq_div unat_div word_unat_eq_iff)

section \<open>The routine\<close>

definition crctab :: "u32 list" where
  "crctab = [
    0x00000000, 0x04c11db7, 0x09823b6e, 0x0d4326d9, 0x130476dc, 0x17c56b6b, 0x1a864db2, 0x1e475005,
    0x2608edb8, 0x22c9f00f, 0x2f8ad6d6, 0x2b4bcb61, 0x350c9b64, 0x31cd86d3, 0x3c8ea00a, 0x384fbdbd,
    0x4c11db70, 0x48d0c6c7, 0x4593e01e, 0x4152fda9, 0x5f15adac, 0x5bd4b01b, 0x569796c2, 0x52568b75,
    0x6a1936c8, 0x6ed82b7f, 0x639b0da6, 0x675a1011, 0x791d4014, 0x7ddc5da3, 0x709f7b7a, 0x745e66cd,
    0x9823b6e0, 0x9ce2ab57, 0x91a18d8e, 0x95609039, 0x8b27c03c, 0x8fe6dd8b, 0x82a5fb52, 0x8664e6e5,
    0xbe2b5b58, 0xbaea46ef, 0xb7a96036, 0xb3687d81, 0xad2f2d84, 0xa9ee3033, 0xa4ad16ea, 0xa06c0b5d,
    0xd4326d90, 0xd0f37027, 0xddb056fe, 0xd9714b49, 0xc7361b4c, 0xc3f706fb, 0xceb42022, 0xca753d95,
    0xf23a8028, 0xf6fb9d9f, 0xfbb8bb46, 0xff79a6f1, 0xe13ef6f4, 0xe5ffeb43, 0xe8bccd9a, 0xec7dd02d,
    0x34867077, 0x30476dc0, 0x3d044b19, 0x39c556ae, 0x278206ab, 0x23431b1c, 0x2e003dc5, 0x2ac12072,
    0x128e9dcf, 0x164f8078, 0x1b0ca6a1, 0x1fcdbb16, 0x018aeb13, 0x054bf6a4, 0x0808d07d, 0x0cc9cdca,
    0x7897ab07, 0x7c56b6b0, 0x71159069, 0x75d48dde, 0x6b93dddb, 0x6f52c06c, 0x6211e6b5, 0x66d0fb02,
    0x5e9f46bf, 0x5a5e5b08, 0x571d7dd1, 0x53dc6066, 0x4d9b3063, 0x495a2dd4, 0x44190b0d, 0x40d816ba,
    0xaca5c697, 0xa864db20, 0xa527fdf9, 0xa1e6e04e, 0xbfa1b04b, 0xbb60adfc, 0xb6238b25, 0xb2e29692,
    0x8aad2b2f, 0x8e6c3698, 0x832f1041, 0x87ee0df6, 0x99a95df3, 0x9d684044, 0x902b669d, 0x94ea7b2a,
    0xe0b41de7, 0xe4750050, 0xe9362689, 0xedf73b3e, 0xf3b06b3b, 0xf771768c, 0xfa325055, 0xfef34de2,
    0xc6bcf05f, 0xc27dede8, 0xcf3ecb31, 0xcbffd686, 0xd5b88683, 0xd1799b34, 0xdc3abded, 0xd8fba05a,
    0x690ce0ee, 0x6dcdfd59, 0x608edb80, 0x644fc637, 0x7a089632, 0x7ec98b85, 0x738aad5c, 0x774bb0eb,
    0x4f040d56, 0x4bc510e1, 0x46863638, 0x42472b8f, 0x5c007b8a, 0x58c1663d, 0x558240e4, 0x51435d53,
    0x251d3b9e, 0x21dc2629, 0x2c9f00f0, 0x285e1d47, 0x36194d42, 0x32d850f5, 0x3f9b762c, 0x3b5a6b9b,
    0x0315d626, 0x07d4cb91, 0x0a97ed48, 0x0e56f0ff, 0x1011a0fa, 0x14d0bd4d, 0x19939b94, 0x1d528623,
    0xf12f560e, 0xf5ee4bb9, 0xf8ad6d60, 0xfc6c70d7, 0xe22b20d2, 0xe6ea3d65, 0xeba91bbc, 0xef68060b,
    0xd727bbb6, 0xd3e6a601, 0xdea580d8, 0xda649d6f, 0xc423cd6a, 0xc0e2d0dd, 0xcda1f604, 0xc960ebb3,
    0xbd3e8d7e, 0xb9ff90c9, 0xb4bcb610, 0xb07daba7, 0xae3afba2, 0xaafbe615, 0xa7b8c0cc, 0xa379dd7b,
    0x9b3660c6, 0x9ff77d71, 0x92b45ba8, 0x9675461f, 0x8832161a, 0x8cf30bad, 0x81b02d74, 0x857130c3,
    0x5d8a9099, 0x594b8d2e, 0x5408abf7, 0x50c9b640, 0x4e8ee645, 0x4a4ffbf2, 0x470cdd2b, 0x43cdc09c,
    0x7b827d21, 0x7f436096, 0x7200464f, 0x76c15bf8, 0x68860bfd, 0x6c47164a, 0x61043093, 0x65c52d24,
    0x119b4be9, 0x155a565e, 0x18197087, 0x1cd86d30, 0x029f3d35, 0x065e2082, 0x0b1d065b, 0x0fdc1bec,
    0x3793a651, 0x3352bbe6, 0x3e119d3f, 0x3ad08088, 0x2497d08d, 0x2056cd3a, 0x2d15ebe3, 0x29d4f654,
    0xc5a92679, 0xc1683bce, 0xcc2b1d17, 0xc8ea00a0, 0xd6ad50a5, 0xd26c4d12, 0xdf2f6bcb, 0xdbee767c,
    0xe3a1cbc1, 0xe760d676, 0xea23f0af, 0xeee2ed18, 0xf0a5bd1d, 0xf464a0aa, 0xf9278673, 0xfde69bc4,
    0x89b8fd09, 0x8d79e0be, 0x803ac667, 0x84fbdbd0, 0x9abc8bd5, 0x9e7d9662, 0x933eb0bb, 0x97ffad0c,
    0xafb010b1, 0xab710d06, 0xa6322bdf, 0xa2f33668, 0xbcb4666d, 0xb8757bda, 0xb5365d03, 0xb1f740b4]"

definition crc_step :: "u32 \<Rightarrow> u8 \<Rightarrow> u32 res" where
  "crc_step s c = (let k = unat (drop_bit 24 s XOR ucast c)
     in if k < length crctab then Inr (push_bit 8 s XOR crctab ! k) else Inl Bad_access)"

fun cksum_bytes :: "u32 \<Rightarrow> u8 list \<Rightarrow> u32 res" where
  "cksum_bytes s [] = Inr s"
| "cksum_bytes s (c # b) = bindR (crc_step s c) (\<lambda>s. cksum_bytes s b)"

function cksum_length :: "u32 \<Rightarrow> u32 \<Rightarrow> u32 res" where
  "cksum_length s n = (if n \<noteq> 0
     then bindR (crc_step s (ucast n)) (\<lambda>s. cksum_length s (drop_bit 8 n)) else Inr s)"
  by pat_completeness auto
termination by (relation "measure (\<lambda>(s, n). unat n)") (simp_all add: shift_less)

definition cksum :: "u8 list \<Rightarrow> u32 res" where
  "cksum b = bindR (cksum_bytes 0 b) (\<lambda>s. bindR (cksum_length s (of_nat (length b))) (\<lambda>s. Inr (NOT s)))"

section \<open>The check bit by bit\<close>

definition crc_bit :: "u32 \<Rightarrow> u32" where
  "crc_bit s = (if bit s 31 then push_bit 1 s XOR 0x04c11db7 else push_bit 1 s)"

definition crc_byte :: "u32 \<Rightarrow> u8 \<Rightarrow> u32" where
  "crc_byte s c = (crc_bit ^^ 8) (s XOR push_bit 24 (ucast c))"

function length_bytes :: "u32 \<Rightarrow> u8 list" where
  "length_bytes n = (if n \<noteq> 0 then ucast n # length_bytes (drop_bit 8 n) else [])"
  by pat_completeness auto
termination by (relation "measure unat") (simp_all add: shift_less)

lemma crctab_length [simp]: "length crctab = 256"
  by (simp add: crctab_def)

section \<open>The table computes eight steps at once\<close>

lemma crc_bit_xor: "crc_bit (a XOR b) = crc_bit a XOR crc_bit b"
  by (cases "bit a 31"; cases "bit b 31")
    (simp_all add: crc_bit_def bit_xor_iff xor.assoc xor.left_commute xor.commute)

lemma crc_bits_xor: "(crc_bit ^^ n) (a XOR b) = (crc_bit ^^ n) a XOR (crc_bit ^^ n) b"
  by (induction n) (simp_all add: crc_bit_xor)

lemma crc_bits_low: "k \<le> 8 \<Longrightarrow> (crc_bit ^^ k) (take_bit 24 s) = push_bit k (take_bit 24 s)"
proof (induction k)
  case (Suc k)
  then have "\<not> 31 - k < 24" by simp
  then have "\<not> bit (push_bit k (take_bit 24 s)) 31" by (simp only: bit_push_bit_iff bit_take_bit_iff) blast
  then show ?case using Suc by (simp add: crc_bit_def push_bit_add [symmetric])
qed simp

fun evens :: "'a list \<Rightarrow> 'a list" where
  "evens (x # y # zs) = x # evens zs"
| "evens _ = []"

fun odds :: "'a list \<Rightarrow> 'a list" where
  "odds (x # y # zs) = y # odds zs"
| "odds _ = []"

lemma evens_nth: "2 * i < length xs \<Longrightarrow> even (length xs) \<Longrightarrow> evens xs ! i = xs ! (2 * i)"
proof (induction xs arbitrary: i rule: evens.induct)
  case (1 x y zs)
  then show ?case by (cases i) auto
qed auto

lemma odds_nth: "2 * i < length xs \<Longrightarrow> even (length xs) \<Longrightarrow> odds xs ! i = xs ! Suc (2 * i)"
proof (induction xs arbitrary: i rule: odds.induct)
  case (1 x y zs)
  then show ?case by (cases i) auto
qed auto

lemma crctab_evens: "evens crctab = map crc_bit (take 128 crctab)"
  by (simp add: crctab_def crc_bit_def)

lemma crctab_odds: "odds crctab = map (\<lambda>t. t XOR 0x04c11db7) (evens crctab)"
  by (simp add: crctab_def)

lemma evens_length: "even (length xs) \<Longrightarrow> length (evens xs) = length xs div 2"
  by (induction xs rule: evens.induct) auto

lemma of_nat_odd_xor: "(of_nat (Suc (2 * h)) :: u32) = of_nat (2 * h) XOR 1"
proof (rule bit_word_eqI)
  fix k
  show "bit (of_nat (Suc (2 * h)) :: u32) k \<longleftrightarrow> bit (of_nat (2 * h) XOR 1 :: u32) k"
    by (simp only: bit_xor_iff bit_1_iff bit_of_nat_iff possible_bit_word) (cases k; simp add: bit_Suc bit_0)
qed

lemma funpow_8: "(f ^^ 8) x = f (f (f (f (f (f (f (f x)))))))"
  by (simp add: numeral_eq_Suc)

lemma crctab_nth: "i < 256 \<Longrightarrow> crctab ! i = (crc_bit ^^ 8) (push_bit 24 (of_nat i))"
proof (induction i rule: less_induct)
  case (less i)
  consider "i = 0" | "i = 1" | "i > 1" by linarith
  then show ?case
  proof cases
    case 3
    let ?h = "i div 2"
    have h: "?h < i" "?h < 128" "0 < ?h" using 3 less.prems by simp_all
    have "\<not> bit (push_bit 24 (of_nat ?h) :: u32) 31"
    proof -
      have "take_bit 7 ?h = ?h" using h(2) by (simp add: take_bit_nat_eq_self_iff)
      then have "\<not> bit ?h 7" by (metis bit_take_bit_iff less_irrefl)
      then show ?thesis by (simp add: bit_push_bit_iff bit_of_nat_iff)
    qed
    then have c: "crc_bit (push_bit 24 (of_nat ?h)) = push_bit 24 (of_nat (2 * ?h))"
      by (simp add: crc_bit_def push_bit_eq_mult)
    have "crctab ! ?h = (crc_bit ^^ 8) (push_bit 24 (of_nat ?h))" using less.IH [OF h(1)] h(2) by simp
    then have e: "(crc_bit ^^ 8) (push_bit 24 (of_nat (2 * ?h))) = crc_bit (crctab ! ?h)"
      by (simp only: c [symmetric] funpow_swap1)
    have ev: "crctab ! (2 * ?h) = crc_bit (crctab ! ?h)"
      using h(2) evens_nth [of ?h crctab] by (simp add: crctab_evens)
    show ?thesis
    proof (cases "even i")
      case True
      then show ?thesis using e ev by simp
    next
      case False
      then have i: "i = Suc (2 * ?h)" by simp
      have "push_bit 24 (of_nat i :: u32) = push_bit 24 (of_nat (2 * ?h)) XOR push_bit 24 1"
        by (subst i) (simp only: of_nat_odd_xor push_bit_xor)
      moreover have "(crc_bit ^^ 8) (push_bit 24 1) = 0x04c11db7" by (simp add: crc_bit_def funpow_8)
      moreover have "crctab ! i = crctab ! (2 * ?h) XOR 0x04c11db7"
        using h(2) odds_nth [of ?h crctab] evens_nth [of ?h crctab] evens_length [of crctab] i
        by (simp add: crctab_odds)
      ultimately show ?thesis using e ev by (simp add: crc_bits_xor)
    qed
  qed (simp_all add: crctab_def crc_bit_def funpow_8)
qed

lemma crc_split: "s XOR push_bit 24 c = push_bit 24 (drop_bit 24 s XOR c) XOR take_bit 24 s" for s :: u32
  by (rule bit_word_eqI) (auto simp: bit_simps)

lemma crc_step_byte: "crc_step s c = Inr (crc_byte s c)"
proof -
  let ?k = "drop_bit 24 s XOR ucast c :: u32"
  have k: "unat ?k < 256"
  proof -
    have "take_bit 8 ?k = ?k" by (rule bit_word_eqI) (auto simp: bit_simps dest: bit_imp_le_length)
    then have "unat ?k < 2 ^ 8" by (metis take_bit_int_less_exp unsigned_take_bit_eq take_bit_nat_less_exp)
    then show ?thesis by simp
  qed
  have "crctab ! unat ?k = (crc_bit ^^ 8) (push_bit 24 ?k)"
    using crctab_nth [OF k] by simp
  moreover have "(crc_bit ^^ 8) (take_bit 24 s) = push_bit 8 s"
    by (subst crc_bits_low) (auto intro!: bit_word_eqI simp: bit_simps)
  ultimately have "crc_byte s c = push_bit 8 s XOR crctab ! unat ?k"
    by (simp only: crc_byte_def crc_split [of s "ucast c"] crc_bits_xor xor.commute)
  then show ?thesis using k by (simp add: crc_step_def Let_def)
qed

lemma cksum_bytes_fold: "cksum_bytes s b = Inr (foldl crc_byte s b)"
  by (induction b arbitrary: s) (simp_all add: crc_step_byte)

lemma cksum_length_fold: "cksum_length s n = Inr (foldl crc_byte s (length_bytes n))"
  by (induction s n rule: cksum_length.induct)
    (subst cksum_length.simps, subst length_bytes.simps, simp add: crc_step_byte del: cksum_length.simps length_bytes.simps)

text \<open>C38. The table-driven checksum never indexes outside its table and equals the bitwise check of
  the bytes followed by the significant bytes of their number, complemented.\<close>

theorem cksum_bitwise:
  "cksum b = Inr (NOT (foldl crc_byte 0 (b @ length_bytes (of_nat (length b)))))"
  by (simp add: cksum_def cksum_bytes_fold cksum_length_fold del: cksum_length.simps length_bytes.simps)

end
