(* ===== verification/Kvaddr.thy ===== *)
theory Kvaddr
  imports Prelude
begin

text \<open>
  \<^verbatim>\<open>threads/vaddr.h\<close> and \<^verbatim>\<open>threads/pte.h\<close>: virtual addresses, the one-to-one mapping of physical
  memory at \<open>PHYS_BASE\<close>, and the format of page directory and page table entries. The lemmas
  give the algebra of these functions that the page allocator and the page tables rely on:
  rounding, splitting an address into its two indexes and its offset, and reading back what
  an entry was created from.
\<close>

section \<open>Virtual addresses\<close>

definition PGBITS :: nat where "PGBITS = 12"
definition PGSIZE :: u32 where "PGSIZE = push_bit PGBITS 1"
definition BITMASK :: "nat \<Rightarrow> nat \<Rightarrow> u32" where
  "BITMASK shift cnt = push_bit shift (push_bit cnt 1 - 1)"
definition PGMASK :: u32 where "PGMASK = BITMASK 0 PGBITS"

definition pg_ofs :: "ptr \<Rightarrow> u32" where "pg_ofs va = va AND PGMASK"
definition pg_no :: "ptr \<Rightarrow> u32" where "pg_no va = drop_bit PGBITS va"
definition pg_round_up :: "ptr \<Rightarrow> ptr" where "pg_round_up va = (va + PGSIZE - 1) AND NOT PGMASK"
definition pg_round_down :: "ptr \<Rightarrow> ptr" where "pg_round_down va = va AND NOT PGMASK"

definition PHYS_BASE :: ptr where "PHYS_BASE = 0xc0000000"

definition is_user_vaddr :: "ptr \<Rightarrow> bool" where "is_user_vaddr va \<longleftrightarrow> va < PHYS_BASE"
definition is_kernel_vaddr :: "ptr \<Rightarrow> bool" where "is_kernel_vaddr va \<longleftrightarrow> va \<ge> PHYS_BASE"

definition ptov :: "u32 \<Rightarrow> ptr res" where
  "ptov paddr = require (paddr < PHYS_BASE) (Inr (paddr + PHYS_BASE))"

definition vtop :: "ptr \<Rightarrow> u32 res" where
  "vtop va = require (is_kernel_vaddr va) (Inr (va - PHYS_BASE))"

section \<open>Page table entries\<close>

definition PTSHIFT :: nat where "PTSHIFT = PGBITS"
definition PTBITS :: nat where "PTBITS = 10"
definition PTMASK :: u32 where "PTMASK = BITMASK PTSHIFT PTBITS"
definition PDSHIFT :: nat where "PDSHIFT = PTSHIFT + PTBITS"

definition pt_no :: "ptr \<Rightarrow> u32" where "pt_no va = drop_bit PTSHIFT (va AND PTMASK)"
definition pd_no :: "ptr \<Rightarrow> u32" where "pd_no va = drop_bit PDSHIFT va"

definition PTE_ADDR :: u32 where "PTE_ADDR = 0xfffff000"
definition PTE_P :: u32 where "PTE_P = 0x1"
definition PTE_W :: u32 where "PTE_W = 0x2"
definition PTE_U :: u32 where "PTE_U = 0x4"
definition PTE_A :: u32 where "PTE_A = 0x20"
definition PTE_D :: u32 where "PTE_D = 0x40"

definition pde_create :: "ptr \<Rightarrow> u32 res" where
  "pde_create pt = require (pg_ofs pt = 0)
     (bindR (vtop pt) (\<lambda>pa. Inr (pa OR PTE_U OR PTE_P OR PTE_W)))"

definition pde_get_pt :: "u32 \<Rightarrow> ptr res" where
  "pde_get_pt pde = require (pde AND PTE_P \<noteq> 0) (ptov (pde AND PTE_ADDR))"

definition pte_create_kernel :: "ptr \<Rightarrow> bool \<Rightarrow> u32 res" where
  "pte_create_kernel page writable = require (pg_ofs page = 0)
     (bindR (vtop page) (\<lambda>pa. Inr (pa OR PTE_P OR (if writable then PTE_W else 0))))"

definition pte_create_user :: "ptr \<Rightarrow> bool \<Rightarrow> u32 res" where
  "pte_create_user page writable = bindR (pte_create_kernel page writable) (\<lambda>e. Inr (e OR PTE_U))"

definition pte_get_page :: "u32 \<Rightarrow> ptr res" where
  "pte_get_page pte = ptov (pte AND PTE_ADDR)"

section \<open>Rounding and splitting\<close>

lemmas vaddr_defs = PGBITS_def PGSIZE_def BITMASK_def PGMASK_def PTSHIFT_def PTBITS_def PTMASK_def
  PDSHIFT_def PHYS_BASE_def

lemma PGMASK_eq: "PGMASK = mask 12"
  by (simp add: vaddr_defs mask_eq_exp_minus_1)

lemma PTMASK_eq: "PTMASK = push_bit 12 (mask 10)"
  by (simp add: vaddr_defs mask_eq_exp_minus_1)

lemma PTE_ADDR_eq: "PTE_ADDR = NOT (mask 12)"
  by (simp add: PTE_ADDR_def mask_eq_exp_minus_1)

lemma PGSIZE_eq: "PGSIZE = 4096" "unat PGSIZE = 4096"
  by (simp_all add: vaddr_defs)

lemma pg_ofs_take: "pg_ofs va = take_bit 12 va"
  by (simp add: pg_ofs_def PGMASK_eq take_bit_eq_mask)

lemma pg_ofs_mod: "unat (pg_ofs va) = unat va mod 4096"
  by (simp add: pg_ofs_take take_bit_eq_mod unat_mod)

lemma pg_no_div: "unat (pg_no va) = unat va div 4096"
  by (simp add: pg_no_def PGBITS_def drop_bit_eq_div unat_div)

lemma pg_round_down_push: "pg_round_down va = push_bit 12 (pg_no va)"
  by (rule bit_word_eqI) (auto simp: pg_round_down_def pg_no_def PGMASK_eq PGBITS_def bit_simps)

lemma unat_pg_round_down: "unat (pg_round_down va) = unat va div 4096 * 4096"
proof -
  have "unat va div 4096 * 4096 < 2 ^ 32" using unat_lt2p [of va] by simp
  then show ?thesis
    by (simp add: pg_round_down_push push_bit_eq_mult unat_word_ariths(2) pg_no_div)
qed

lemma pg_round_down_aligned [simp]: "pg_ofs (pg_round_down va) = 0"
  by (rule bit_word_eqI) (simp add: pg_ofs_def pg_round_down_def bit_simps)

lemma pg_round_down_idem: "pg_ofs va = 0 \<longleftrightarrow> pg_round_down va = va"
proof
  assume "pg_ofs va = 0"
  then have "unat va mod 4096 = 0" using pg_ofs_mod [of va] by simp
  then have "unat (pg_round_down va) = unat va" by (simp add: unat_pg_round_down mod_0_imp_dvd)
  then show "pg_round_down va = va" by (simp add: word_unat_eq_iff)
next
  assume "pg_round_down va = va"
  then show "pg_ofs va = 0" using pg_round_down_aligned [of va] by simp
qed

lemma pg_split: "pg_round_down va + pg_ofs va = va"
proof -
  have "unat (pg_round_down va) + unat (pg_ofs va) = unat va"
    by (simp add: unat_pg_round_down pg_ofs_mod)
  then show ?thesis using unat_lt2p [of va] by (simp add: word_unat_eq_iff unat_word_ariths)
qed

lemma unat_pg_round_up:
  assumes "unat va \<le> 2 ^ 32 - 4096"
  shows "unat (pg_round_up va) = (unat va + 4095) div 4096 * 4096"
proof -
  have "pg_round_up va = pg_round_down (va + 4095)"
    by (simp add: pg_round_up_def pg_round_down_def PGSIZE_eq add.commute)
  moreover have "unat (va + 4095) = unat va + 4095" using assms by (simp add: unat_word_ariths)
  ultimately show ?thesis by (simp add: unat_pg_round_down)
qed

lemma unat_pt_no: "unat (pt_no va) = unat va div 4096 mod 1024"
proof -
  have "pt_no va = take_bit 10 (pg_no va)"
    by (rule bit_word_eqI)
      (auto simp: pt_no_def pg_no_def PTMASK_eq PTSHIFT_def PGBITS_def bit_simps)
  then show ?thesis by (simp add: take_bit_eq_mod unat_mod pg_no_div)
qed

lemma unat_pd_no: "unat (pd_no va) = unat va div 4194304"
  by (simp add: pd_no_def PDSHIFT_def PTSHIFT_def PTBITS_def PGBITS_def drop_bit_eq_div unat_div)

lemma page_index_inj:
  assumes "pd_no va = pd_no vb" "pt_no va = pt_no vb"
  shows "pg_round_down va = pg_round_down vb"
proof -
  have "unat va div 4096 div 1024 = unat vb div 4096 div 1024"
    using arg_cong [OF assms(1), of unat] by (simp add: unat_pd_no div_mult2_eq [symmetric])
  moreover have "unat va div 4096 mod 1024 = unat vb div 4096 mod 1024"
    using arg_cong [OF assms(2), of unat] by (simp add: unat_pt_no)
  ultimately have "unat va div 4096 = unat vb div 4096" by (metis div_mult_mod_eq)
  then show ?thesis by (simp add: word_unat_eq_iff unat_pg_round_down)
qed

lemma ptov_vtop: "vtop va = Inr pa \<Longrightarrow> is_kernel_vaddr va \<and> pa = va - PHYS_BASE"
  by (simp add: vtop_def)

section \<open>Entries read back\<close>

lemma aligned_or_flags:
  assumes "pg_ofs pa = 0"
  shows "(pa OR f) AND PTE_ADDR = pa OR (f AND PTE_ADDR)"
proof -
  have "pa AND NOT (mask 12) = pa"
    using assms by (simp add: pg_round_down_idem pg_round_down_def PGMASK_eq)
  then show ?thesis by (simp add: PTE_ADDR_eq bit.conj_disj_distrib2)
qed

lemma aligned_offset:
  assumes "pg_ofs page = 0" "is_kernel_vaddr page"
  shows "pg_ofs (page - PHYS_BASE) = 0" "page - PHYS_BASE < PHYS_BASE"
proof -
  have k: "unat PHYS_BASE \<le> unat page" using assms(2) by (simp add: is_kernel_vaddr_def word_le_nat_alt)
  then have d: "unat (page - PHYS_BASE) = unat page - unat PHYS_BASE"
    by (simp add: unat_sub word_le_nat_alt)
  moreover have "unat PHYS_BASE = 3221225472" by (simp add: PHYS_BASE_def)
  ultimately have "unat (page - PHYS_BASE) mod 4096 = 0" "unat (page - PHYS_BASE) < unat PHYS_BASE"
    using assms(1) k unat_lt2p [of page] pg_ofs_mod [of page] by (auto simp: mod_diff_eq mod_eq_0_iff_dvd dvd_diff_nat)
  then show "pg_ofs (page - PHYS_BASE) = 0" "page - PHYS_BASE < PHYS_BASE"
    using pg_ofs_mod [of "page - PHYS_BASE"] by (simp_all add: word_unat_eq_iff word_less_nat_alt)
qed

lemma flag_bits: "x AND PTE_P \<noteq> 0 \<longleftrightarrow> bit x 0" "x AND PTE_W \<noteq> 0 \<longleftrightarrow> bit x 1"
  "x AND PTE_U \<noteq> 0 \<longleftrightarrow> bit x 2" "x AND PTE_A \<noteq> 0 \<longleftrightarrow> bit x 5" "x AND PTE_D \<noteq> 0 \<longleftrightarrow> bit x 6"
  using and_exp_eq_0_iff_not_bit [of x 0] and_exp_eq_0_iff_not_bit [of x 1]
    and_exp_eq_0_iff_not_bit [of x 2] and_exp_eq_0_iff_not_bit [of x 5]
    and_exp_eq_0_iff_not_bit [of x 6]
  by (simp_all add: PTE_P_def PTE_W_def PTE_U_def PTE_A_def PTE_D_def)

lemma flag_masks: "bit PTE_P n \<longleftrightarrow> n = 0" "bit PTE_W n \<longleftrightarrow> n = 1" "bit PTE_U n \<longleftrightarrow> n = 2"
  "bit PTE_A n \<longleftrightarrow> n = 5" "bit PTE_D n \<longleftrightarrow> n = 6"
proof -
  have p: "PTE_P = 2 ^ 0" "PTE_W = 2 ^ 1" "PTE_U = 2 ^ 2" "PTE_A = 2 ^ 5" "PTE_D = 2 ^ 6"
    by (simp_all add: PTE_P_def PTE_W_def PTE_U_def PTE_A_def PTE_D_def)
  show "bit PTE_P n \<longleftrightarrow> n = 0" "bit PTE_W n \<longleftrightarrow> n = 1" "bit PTE_U n \<longleftrightarrow> n = 2"
    "bit PTE_A n \<longleftrightarrow> n = 5" "bit PTE_D n \<longleftrightarrow> n = 6"
    unfolding p bit_exp_iff by auto
qed

lemma aligned_bit: "pg_ofs pa = 0 \<Longrightarrow> n < 12 \<Longrightarrow> \<not> bit pa n"
  by (metis bit_take_bit_iff pg_ofs_take bit_0_eq bot_apply bot_bool_def)

lemma entry_address:
  assumes "pg_ofs page = 0" "is_kernel_vaddr page" "f AND PTE_ADDR = 0"
  shows "ptov (((page - PHYS_BASE) OR f) AND PTE_ADDR) = Inr page"
  using aligned_offset [OF assms(1,2)] assms(3) by (simp add: aligned_or_flags ptov_def)

lemma pte_get_page_create:
  assumes "pg_ofs page = 0" "is_kernel_vaddr page"
  shows "\<exists>e. pte_create_user page w = Inr e \<and> pte_get_page e = Inr page \<and>
    e AND PTE_P \<noteq> 0 \<and> e AND PTE_U \<noteq> 0 \<and> (e AND PTE_W \<noteq> 0 \<longleftrightarrow> w) \<and> e AND PTE_D = 0 \<and> e AND PTE_A = 0"
proof -
  let ?f = "PTE_P OR (if w then PTE_W else 0) OR PTE_U"
  let ?e = "(page - PHYS_BASE) OR ?f"
  have "pte_create_user page w = Inr ?e"
    using assms by (simp add: pte_create_user_def pte_create_kernel_def vtop_def or.assoc)
  moreover have "pte_get_page ?e = Inr page"
    unfolding pte_get_page_def
    by (rule entry_address [OF assms]) (simp add: PTE_P_def PTE_W_def PTE_U_def PTE_ADDR_def)
  moreover have "\<not> bit (page - PHYS_BASE) n" if "n < 12" for n
    using aligned_bit [OF aligned_offset(1) [OF assms] that] .
  then have "bit ?e 0" "bit ?e 2" "bit ?e 1 \<longleftrightarrow> w" "\<not> bit ?e 5" "\<not> bit ?e 6"
    by (simp_all add: bit_or_iff flag_masks)
  ultimately show ?thesis using flag_bits [of ?e] by metis
qed

lemma pde_get_pt_create:
  assumes "pg_ofs pt = 0" "is_kernel_vaddr pt"
  shows "\<exists>e. pde_create pt = Inr e \<and> e \<noteq> 0 \<and> pde_get_pt e = Inr pt"
proof -
  let ?f = "PTE_U OR PTE_P OR PTE_W"
  let ?e = "(pt - PHYS_BASE) OR ?f"
  have "pde_create pt = Inr ?e" using assms by (simp add: pde_create_def vtop_def or.assoc)
  moreover have "?e AND PTE_P \<noteq> 0" unfolding flag_bits(1) by (simp add: bit_or_iff flag_masks)
  moreover from this have "?e \<noteq> 0" by (metis and_zero_eq zero_and_eq)
  moreover have "ptov (?e AND PTE_ADDR) = Inr pt"
    by (rule entry_address [OF assms]) (simp add: PTE_P_def PTE_W_def PTE_U_def PTE_ADDR_def)
  ultimately show ?thesis by (simp add: pde_get_pt_def)
qed

lemma present_flag_address:
  assumes "m AND PTE_ADDR = 0"
  shows "pte_get_page (e OR m) = pte_get_page e" "pte_get_page (e AND NOT m) = pte_get_page e"
proof -
  have a: "bit m n \<Longrightarrow> \<not> bit PTE_ADDR n" for n using arg_cong [OF assms, of "\<lambda>x. bit x n"] by (simp add: bit_and_iff)
  have "(e OR m) AND PTE_ADDR = e AND PTE_ADDR" "(e AND NOT m) AND PTE_ADDR = e AND PTE_ADDR"
    using a by (auto intro!: bit_word_eqI simp: bit_simps)
  then show "pte_get_page (e OR m) = pte_get_page e" "pte_get_page (e AND NOT m) = pte_get_page e"
    by (simp_all add: pte_get_page_def)
qed

end
