(* ===== verification/Ksched.thy ===== *)
theory Ksched
  imports Kvaddr
begin

text \<open>
  \<^verbatim>\<open>threads/interrupt.c\<close> and the scheduler of \<^verbatim>\<open>threads/thread.c\<close> on one processor. The state
  \<open>kernel\<close> holds every \<^verbatim>\<open>struct thread\<close> by its address, the run queue (the sequence that
  \<^verbatim>\<open>lib/kernel/list.c\<close> represents), the thread whose stack the processor runs on, and the interrupt
  flag. A switched-out thread has left its kernel stack behind in \<^verbatim>\<open>switch_threads\<close>; what it still
  has to do when it runs again is the sequence \<open>pend\<close> of \<open>action\<close>s. Calls that return in another
  thread's context therefore end here with the machine in that other thread, and the rest of
  the call is the first action of the thread that made it.
\<close>

section \<open>Threads and the machine\<close>

datatype thread_status = THREAD_RUNNING | THREAD_READY | THREAD_BLOCKED | THREAD_DYING
datatype intr_level = INTR_OFF | INTR_ON

text \<open>
  What remains of a call: the loop of \<^verbatim>\<open>sema_down\<close> on a semaphore, the final
  \<^verbatim>\<open>intr_set_level\<close>, the assignment of the holder in \<^verbatim>\<open>lock_acquire\<close>, and the calls of
  \<^verbatim>\<open>sema_up\<close>, \<^verbatim>\<open>sema_down\<close> and \<^verbatim>\<open>lock_acquire\<close> that \<^verbatim>\<open>lock_release\<close> and \<^verbatim>\<open>cond_wait\<close> still have
  to make.
\<close>

datatype action = Down ptr | Restore intr_level | Hold ptr | Call_up ptr | Call_down ptr | Call_acquire ptr

record thread =
  t_tid :: u32
  t_status :: thread_status
  t_priority :: int
  t_stack :: ptr
  t_pagedir :: ptr
  t_children :: "ptr list"
  t_child_infos :: "ptr list"
  t_parent :: ptr
  t_exit_status :: int
  t_info :: ptr
  t_magic :: u32

record kernel =
  thr :: "ptr \<Rightarrow> thread"
  ready_list :: "ptr list"
  running :: ptr
  idle_thread :: ptr
  initial_thread :: ptr
  next_tid :: u32
  level :: intr_level
  in_external_intr :: bool
  yield_on_return :: bool
  thread_ticks :: u32
  idle_ticks :: u64
  kernel_ticks :: u64
  user_ticks :: u64
  ticks :: u64
  pend :: "ptr \<Rightarrow> action list"
  freed_pages :: "ptr list"

definition THREAD_MAGIC :: u32 where "THREAD_MAGIC = 0xcd6abf4b"
definition TIME_SLICE :: u32 where "TIME_SLICE = 4"
definition TID_ERROR :: u32 where "TID_ERROR = - 1"
definition PRI_MIN :: int where "PRI_MIN = 0"
definition PRI_DEFAULT :: int where "PRI_DEFAULT = 31"
definition PRI_MAX :: int where "PRI_MAX = 63"

section \<open>Interrupts\<close>

definition intr_get_level :: "'a kernel_scheme \<Rightarrow> intr_level" where
  "intr_get_level k = level k"

definition intr_context :: "'a kernel_scheme \<Rightarrow> bool" where
  "intr_context k = in_external_intr k"

definition intr_enable :: "'a kernel_scheme \<Rightarrow> (intr_level \<times> 'a kernel_scheme) res" where
  "intr_enable k = (let old_level = intr_get_level k in
     require (\<not> intr_context k) (Inr (old_level, k\<lparr>level := INTR_ON\<rparr>)))"

definition intr_disable :: "'a kernel_scheme \<Rightarrow> intr_level \<times> 'a kernel_scheme" where
  "intr_disable k = (intr_get_level k, k\<lparr>level := INTR_OFF\<rparr>)"

definition intr_set_level :: "intr_level \<Rightarrow> 'a kernel_scheme \<Rightarrow> (intr_level \<times> 'a kernel_scheme) res" where
  "intr_set_level l k = (if l = INTR_ON then intr_enable k else Inr (intr_disable k))"

definition intr_yield_on_return :: "'a kernel_scheme \<Rightarrow> 'a kernel_scheme res" where
  "intr_yield_on_return k = require (intr_context k) (Inr (k\<lparr>yield_on_return := True\<rparr>))"

section \<open>Scheduling\<close>

definition is_thread :: "ptr \<Rightarrow> 'a kernel_scheme \<Rightarrow> bool" where
  "is_thread t k \<longleftrightarrow> t \<noteq> NULL \<and> t_magic (thr k t) = THREAD_MAGIC"

definition set_status :: "ptr \<Rightarrow> thread_status \<Rightarrow> 'a kernel_scheme \<Rightarrow> 'a kernel_scheme" where
  "set_status t s k = k\<lparr>thr := (thr k)(t := (thr k t)\<lparr>t_status := s\<rparr>)\<rparr>"

definition running_thread :: "'a kernel_scheme \<Rightarrow> ptr" where
  "running_thread k = running k"

definition thread_current :: "'a kernel_scheme \<Rightarrow> ptr res" where
  "thread_current k = (let t = running_thread k in
     require (is_thread t k) (require (t_status (thr k t) = THREAD_RUNNING) (Inr t)))"

definition next_thread_to_run :: "'a kernel_scheme \<Rightarrow> ptr \<times> 'a kernel_scheme" where
  "next_thread_to_run k = (case ready_list k of
     [] \<Rightarrow> (idle_thread k, k) | t # ts \<Rightarrow> (t, k\<lparr>ready_list := ts\<rparr>))"

text \<open>Freeing a page fills it with \<open>0xcc\<close>, the magic number of the thread included.\<close>

definition free_thread :: "ptr \<Rightarrow> 'a kernel_scheme \<Rightarrow> 'a kernel_scheme" where
  "free_thread t k = k\<lparr>thr := (thr k)(t := (thr k t)\<lparr>t_magic := 0xcccccccc\<rparr>),
     freed_pages := t # freed_pages k\<rparr>"

definition schedule_tail :: "ptr \<Rightarrow> 'a kernel_scheme \<Rightarrow> 'a kernel_scheme res" where
  "schedule_tail prev k = (let curr = running_thread k in
     require (intr_get_level k = INTR_OFF)
     (let k = set_status curr THREAD_RUNNING k; k = k\<lparr>thread_ticks := 0\<rparr> in
      if prev \<noteq> NULL \<and> t_status (thr k prev) = THREAD_DYING \<and> prev \<noteq> initial_thread k
      then require (prev \<noteq> curr) (Inr (free_thread prev k))
      else Inr k))"

definition switch_threads :: "ptr \<Rightarrow> ptr \<Rightarrow> 'a kernel_scheme \<Rightarrow> ptr \<times> 'a kernel_scheme" where
  "switch_threads cur nxt k = (cur, k\<lparr>running := nxt\<rparr>)"

definition schedule :: "'a kernel_scheme \<Rightarrow> 'a kernel_scheme res" where
  "schedule k = (let curr = running_thread k; (nxt, k) = next_thread_to_run k in
     require (intr_get_level k = INTR_OFF)
     (require (t_status (thr k curr) \<noteq> THREAD_RUNNING)
     (require (is_thread nxt k)
     (let (prev, k) = (if curr \<noteq> nxt then switch_threads curr nxt k else (NULL, k))
      in schedule_tail prev k))))"

definition thread_block :: "'a kernel_scheme \<Rightarrow> 'a kernel_scheme res" where
  "thread_block k = require (\<not> intr_context k) (require (intr_get_level k = INTR_OFF)
     (bindR (thread_current k) (\<lambda>t. schedule (set_status t THREAD_BLOCKED k))))"

definition thread_unblock :: "ptr \<Rightarrow> 'a kernel_scheme \<Rightarrow> 'a kernel_scheme res" where
  "thread_unblock t k = require (is_thread t k)
     (let (old_level, k) = intr_disable k in
      require (t_status (thr k t) = THREAD_BLOCKED)
      (let k = k\<lparr>ready_list := ready_list k @ [t]\<rparr>; k = set_status t THREAD_READY k
       in bindR (intr_set_level old_level k) (\<lambda>(_, k). Inr k)))"

definition push_action :: "ptr \<Rightarrow> action \<Rightarrow> 'a kernel_scheme \<Rightarrow> 'a kernel_scheme" where
  "push_action t a k = k\<lparr>pend := (pend k)(t := a # pend k t)\<rparr>"

definition pop_action :: "ptr \<Rightarrow> 'a kernel_scheme \<Rightarrow> 'a kernel_scheme" where
  "pop_action t k = k\<lparr>pend := (pend k)(t := tl (pend k t))\<rparr>"

definition thread_yield :: "'a kernel_scheme \<Rightarrow> 'a kernel_scheme res" where
  "thread_yield k = bindR (thread_current k) (\<lambda>curr. require (\<not> intr_context k)
     (let (old_level, k) = intr_disable k;
          k = (if curr \<noteq> idle_thread k then k\<lparr>ready_list := ready_list k @ [curr]\<rparr> else k);
          k = set_status curr THREAD_READY k;
          k = push_action curr (Restore old_level) k
      in schedule k))"

definition thread_tick :: "'a kernel_scheme \<Rightarrow> 'a kernel_scheme res" where
  "thread_tick k = bindR (thread_current k) (\<lambda>t.
     (let k = (if t = idle_thread k then k\<lparr>idle_ticks := idle_ticks k + 1\<rparr>
               else if t_pagedir (thr k t) \<noteq> NULL then k\<lparr>user_ticks := user_ticks k + 1\<rparr>
               else k\<lparr>kernel_ticks := kernel_ticks k + 1\<rparr>);
          k = k\<lparr>thread_ticks := thread_ticks k + 1\<rparr>
      in if thread_ticks k \<ge> TIME_SLICE then intr_yield_on_return k else Inr k))"

definition timer_interrupt :: "'a kernel_scheme \<Rightarrow> 'a kernel_scheme res" where
  "timer_interrupt k = thread_tick (k\<lparr>ticks := ticks k + 1\<rparr>)"

text \<open>
  An external interrupt. The processor enters the gate with interrupts off and \<^verbatim>\<open>iret\<close> restores
  the flag at the end; when the handler asks for it, the interrupted thread yields first. The
  acknowledgement of the interrupt controller is a port write.
\<close>

definition intr_handler_ext ::
    "('a kernel_scheme \<Rightarrow> 'a kernel_scheme res) \<Rightarrow> 'a kernel_scheme \<Rightarrow> 'a kernel_scheme res" where
  "intr_handler_ext handler k =
     require (intr_get_level k = INTR_OFF) (require (\<not> intr_context k)
     (let k = k\<lparr>in_external_intr := True, yield_on_return := False\<rparr> in
      bindR (handler k) (\<lambda>k.
      require (intr_get_level k = INTR_OFF) (require (intr_context k)
      (let k = k\<lparr>in_external_intr := False\<rparr> in
       if yield_on_return k then thread_yield k else Inr k)))))"

definition external_interrupt ::
    "('a kernel_scheme \<Rightarrow> 'a kernel_scheme res) \<Rightarrow> 'a kernel_scheme \<Rightarrow> 'a kernel_scheme res" where
  "external_interrupt handler k = (let t = running k in
     intr_handler_ext handler (push_action t (Restore INTR_ON) (k\<lparr>level := INTR_OFF\<rparr>)))"

section \<open>Creating threads\<close>

definition init_thread :: "ptr \<Rightarrow> int \<Rightarrow> 'a kernel_scheme \<Rightarrow> 'a kernel_scheme res" where
  "init_thread t priority k = require (t \<noteq> NULL) (require (PRI_MIN \<le> priority \<and> priority \<le> PRI_MAX)
     (Inr (k\<lparr>thr := (thr k)(t := \<lparr>t_tid = 0, t_status = THREAD_BLOCKED, t_priority = priority,
        t_stack = t + PGSIZE, t_pagedir = NULL, t_children = [], t_child_infos = [], t_parent = NULL,
        t_exit_status = 0, t_info = NULL, t_magic = THREAD_MAGIC\<rparr>)\<rparr>)))"

definition alloc_frame :: "ptr \<Rightarrow> u32 \<Rightarrow> 'a kernel_scheme \<Rightarrow> (ptr \<times> 'a kernel_scheme) res" where
  "alloc_frame t sz k = require (is_thread t k) (require (sz mod 4 = 0)
     (let sp = t_stack (thr k t) - sz
      in Inr (sp, k\<lparr>thr := (thr k)(t := (thr k t)\<lparr>t_stack := sp\<rparr>)\<rparr>)))"

text \<open>The increment runs under \<^verbatim>\<open>tid_lock\<close>, so it is one step.\<close>

definition allocate_tid :: "'a kernel_scheme \<Rightarrow> u32 \<times> 'a kernel_scheme" where
  "allocate_tid k = (next_tid k, k\<lparr>next_tid := next_tid k + 1\<rparr>)"

text \<open>
  The three stack frames of a new thread take 12, 4 and 28 bytes; it starts in
  \<^verbatim>\<open>kernel_thread\<close>, which enables interrupts.
\<close>

definition thread_launch :: "ptr \<Rightarrow> 'a kernel_scheme \<Rightarrow> 'a kernel_scheme res" where
  "thread_launch t k =
     bindR (alloc_frame t 12 k) (\<lambda>(_, k).
     bindR (alloc_frame t 4 k) (\<lambda>(_, k).
     bindR (alloc_frame t 28 k) (\<lambda>(_, k).
     thread_unblock t (k\<lparr>pend := (pend k)(t := [Restore INTR_ON])\<rparr>))))"

definition upd_thread :: "ptr \<Rightarrow> (thread \<Rightarrow> thread) \<Rightarrow> 'a kernel_scheme \<Rightarrow> 'a kernel_scheme" where
  "upd_thread t f k = k\<lparr>thr := (thr k)(t := f (thr k t))\<rparr>"

definition thread_set_priority :: "int \<Rightarrow> 'a kernel_scheme \<Rightarrow> 'a kernel_scheme res" where
  "thread_set_priority p k = bindR (thread_current k) (\<lambda>t.
     Inr (k\<lparr>thr := (thr k)(t := (thr k t)\<lparr>t_priority := p\<rparr>)\<rparr>))"

definition thread_get_priority :: "'a kernel_scheme \<Rightarrow> int res" where
  "thread_get_priority k = bindR (thread_current k) (\<lambda>t. Inr (t_priority (thr k t)))"

definition thread_tid :: "'a kernel_scheme \<Rightarrow> u32 res" where
  "thread_tid k = bindR (thread_current k) (\<lambda>t. Inr (t_tid (thr k t)))"

end
