(* ===== verification/Ksynch.thy ===== *)
theory Ksynch
  imports Ksched
begin

text \<open>
  \<^verbatim>\<open>threads/synch.c\<close>: semaphores, locks and condition variables over the scheduler. A semaphore or
  lock is named by its address; the semaphore inside a lock lies four bytes into it, the one
  inside a waiter of a condition eight bytes into it. Every point at which a thread can lose
  the processor inside a call is a separate step: \<open>run_action\<close> performs the next pending piece
  of the running thread's call.
\<close>

section \<open>Synchronisation objects\<close>

record semaphore =
  sema_value :: u32
  waiters :: "ptr list"

record thread_info =
  i_tid :: u32
  i_load_success :: bool
  i_exit_status :: int
  i_waited :: bool
  i_killed :: bool

record ksync = kernel +
  semas :: "ptr \<Rightarrow> semaphore"
  holders :: "ptr \<Rightarrow> ptr"
  conds :: "ptr \<Rightarrow> ptr list"
  infos :: "ptr \<Rightarrow> thread_info"

definition sema_of_lock :: "ptr \<Rightarrow> ptr" where "sema_of_lock l = l + 4"
definition sema_of_waiter :: "ptr \<Rightarrow> ptr" where "sema_of_waiter w = w + 8"
definition wait_sema_of :: "ptr \<Rightarrow> ptr" where "wait_sema_of i = i + 12"
definition exec_sema_of :: "ptr \<Rightarrow> ptr" where "exec_sema_of i = i + 32"
definition sup_page_sema_of :: "ptr \<Rightarrow> ptr" where "sup_page_sema_of t = t + 172"

section \<open>Semaphores\<close>

definition sema_init :: "ptr \<Rightarrow> u32 \<Rightarrow> ksync \<Rightarrow> ksync res" where
  "sema_init s v k = require (s \<noteq> NULL)
     (Inr (k\<lparr>semas := (semas k)(s := \<lparr>sema_value = v, waiters = []\<rparr>)\<rparr>))"

definition push_actions :: "action list \<Rightarrow> ksync \<Rightarrow> ksync" where
  "push_actions as k = k\<lparr>pend := (pend k)(running k := as @ pend k (running k))\<rparr>"

definition sema_down :: "ptr \<Rightarrow> ksync \<Rightarrow> ksync res" where
  "sema_down s k = require (s \<noteq> NULL) (require (\<not> intr_context k)
     (let (old_level, k) = intr_disable k in Inr (push_actions [Down s, Restore old_level] k)))"

definition sema_down_loop :: "ptr \<Rightarrow> ksync \<Rightarrow> ksync res" where
  "sema_down_loop s k =
     (if sema_value (semas k s) = 0
      then bindR (thread_current k) (\<lambda>t.
        thread_block (k\<lparr>semas := (semas k)(s := (semas k s)\<lparr>waiters := waiters (semas k s) @ [t]\<rparr>)\<rparr>))
      else Inr (pop_action (running k)
        (k\<lparr>semas := (semas k)(s := (semas k s)\<lparr>sema_value := sema_value (semas k s) - 1\<rparr>)\<rparr>)))"

definition sema_try_down :: "ptr \<Rightarrow> ksync \<Rightarrow> (bool \<times> ksync) res" where
  "sema_try_down s k = require (s \<noteq> NULL)
     (let (old_level, k) = intr_disable k;
          (success, k) = (if sema_value (semas k s) > 0
            then (True, k\<lparr>semas := (semas k)(s := (semas k s)\<lparr>sema_value := sema_value (semas k s) - 1\<rparr>)\<rparr>)
            else (False, k))
      in bindR (intr_set_level old_level k) (\<lambda>(_, k). Inr (success, k)))"

definition sema_up :: "ptr \<Rightarrow> ksync \<Rightarrow> ksync res" where
  "sema_up s k = require (s \<noteq> NULL)
     (let (old_level, k) = intr_disable k in
      bindR (case waiters (semas k s) of [] \<Rightarrow> Inr k
             | t # ts \<Rightarrow> thread_unblock t (k\<lparr>semas := (semas k)(s := (semas k s)\<lparr>waiters := ts\<rparr>)\<rparr>)) (\<lambda>k.
      let k = k\<lparr>semas := (semas k)(s := (semas k s)\<lparr>sema_value := sema_value (semas k s) + 1\<rparr>)\<rparr>
      in bindR (intr_set_level old_level k) (\<lambda>(_, k). Inr k)))"

section \<open>Locks\<close>

definition lock_init :: "ptr \<Rightarrow> ksync \<Rightarrow> ksync res" where
  "lock_init l k = require (l \<noteq> NULL)
     (sema_init (sema_of_lock l) 1 (k\<lparr>holders := (holders k)(l := NULL)\<rparr>))"

definition lock_held_by_current_thread :: "ptr \<Rightarrow> ksync \<Rightarrow> bool res" where
  "lock_held_by_current_thread l k = require (l \<noteq> NULL)
     (bindR (thread_current k) (\<lambda>t. Inr (holders k l = t)))"

definition lock_acquire :: "ptr \<Rightarrow> ksync \<Rightarrow> ksync res" where
  "lock_acquire l k = require (l \<noteq> NULL) (require (\<not> intr_context k)
     (bindR (lock_held_by_current_thread l k) (\<lambda>held. require (\<not> held)
     (sema_down (sema_of_lock l) (push_actions [Hold l] k)))))"

definition lock_try_acquire :: "ptr \<Rightarrow> ksync \<Rightarrow> (bool \<times> ksync) res" where
  "lock_try_acquire l k = require (l \<noteq> NULL)
     (bindR (lock_held_by_current_thread l k) (\<lambda>held. require (\<not> held)
     (bindR (sema_try_down (sema_of_lock l) k) (\<lambda>(success, k).
      if success then bindR (thread_current k) (\<lambda>t. Inr (True, k\<lparr>holders := (holders k)(l := t)\<rparr>))
      else Inr (False, k)))))"

definition lock_release :: "ptr \<Rightarrow> ksync \<Rightarrow> ksync res" where
  "lock_release l k = require (l \<noteq> NULL)
     (bindR (lock_held_by_current_thread l k) (\<lambda>held. require held
     (Inr (push_actions [Call_up (sema_of_lock l)] (k\<lparr>holders := (holders k)(l := NULL)\<rparr>)))))"

section \<open>Condition variables\<close>

definition cond_init :: "ptr \<Rightarrow> ksync \<Rightarrow> ksync res" where
  "cond_init c k = require (c \<noteq> NULL) (Inr (k\<lparr>conds := (conds k)(c := [])\<rparr>))"

definition cond_wait :: "ptr \<Rightarrow> ptr \<Rightarrow> ptr \<Rightarrow> ksync \<Rightarrow> ksync res" where
  "cond_wait w c l k = require (c \<noteq> NULL) (require (l \<noteq> NULL) (require (\<not> intr_context k)
     (bindR (lock_held_by_current_thread l k) (\<lambda>held. require held
     (bindR (sema_init (sema_of_waiter w) 0 k) (\<lambda>k.
      let k = k\<lparr>conds := (conds k)(c := conds k c @ [w])\<rparr>;
          k = push_actions [Call_down (sema_of_waiter w), Call_acquire l] k
      in lock_release l k))))))"

definition cond_signal :: "ptr \<Rightarrow> ptr \<Rightarrow> ksync \<Rightarrow> ksync res" where
  "cond_signal c l k = require (c \<noteq> NULL) (require (l \<noteq> NULL) (require (\<not> intr_context k)
     (bindR (lock_held_by_current_thread l k) (\<lambda>held. require held
     (case conds k c of [] \<Rightarrow> Inr k
      | w # ws \<Rightarrow> sema_up (sema_of_waiter w) (k\<lparr>conds := (conds k)(c := ws)\<rparr>))))))"

fun cond_broadcast_loop :: "nat \<Rightarrow> ptr \<Rightarrow> ptr \<Rightarrow> ksync \<Rightarrow> ksync res" where
  "cond_broadcast_loop 0 c l k = Inr k"
| "cond_broadcast_loop (Suc n) c l k = (if conds k c \<noteq> []
     then bindR (cond_signal c l k) (cond_broadcast_loop n c l) else Inr k)"

text \<open>Each round takes one waiter off the list, so as many rounds as there are waiters are enough.\<close>

definition cond_broadcast :: "ptr \<Rightarrow> ptr \<Rightarrow> ksync \<Rightarrow> ksync res" where
  "cond_broadcast c l k = require (c \<noteq> NULL) (require (l \<noteq> NULL)
     (cond_broadcast_loop (length (conds k c)) c l k))"

section \<open>Creating and ending threads\<close>

text \<open>
  The thread's page comes from the page allocator (\<open>page\<close>, a null pointer when it fails) and the
  record that outlives it from \<^verbatim>\<open>malloc\<close> (\<open>info\<close>), whose result is used unchecked. The thread's table of
  supplemental pages belongs to the paging component.
\<close>

definition thread_create :: "ptr \<Rightarrow> ptr \<Rightarrow> int \<Rightarrow> ksync \<Rightarrow> (u32 \<times> ksync) res" where
  "thread_create page info priority k = (let t = page in
     if t = NULL then Inr (TID_ERROR, k)
     else bindR (init_thread t priority k) (\<lambda>k.
       let (tid, k) = allocate_tid k in
       bindR (thread_current k) (\<lambda>cur.
       let k = upd_thread t (\<lambda>x. x\<lparr>t_tid := tid, t_parent := cur\<rparr>) k;
           k = upd_thread cur (\<lambda>x. x\<lparr>t_children := t_children x @ [t]\<rparr>) k
       in if info = NULL then Inl Bad_access else
       let k = k\<lparr>infos := (infos k)(info := (infos k info)
             \<lparr>i_tid := tid, i_load_success := True, i_waited := False, i_killed := False\<rparr>)\<rparr> in
       bindR (sema_init (wait_sema_of info) 0 k) (\<lambda>k.
       bindR (sema_init (exec_sema_of info) 0 k) (\<lambda>k.
       let k = upd_thread cur (\<lambda>x. x\<lparr>t_child_infos := t_child_infos x @ [info]\<rparr>) k;
           k = upd_thread t (\<lambda>x. x\<lparr>t_info := info\<rparr>) k
       in bindR (sema_init (sup_page_sema_of t) 1 k) (\<lambda>k.
       bindR (thread_launch t k) (\<lambda>k. Inr (tid, k))))))))"

text \<open>
  The end of a thread after \<^verbatim>\<open>process_exit\<close> and the closing of its executable, which belong to the
  process component. The initial thread has no record of its own.
\<close>

definition thread_exit :: "ksync \<Rightarrow> ksync res" where
  "thread_exit k = require (\<not> intr_context k)
     (let (_, k) = intr_disable k in
      bindR (thread_current k) (\<lambda>t.
      if t_info (thr k t) = NULL then Inl Bad_access else
      bindR (sema_up (exec_sema_of (t_info (thr k t))) k) (\<lambda>k.
      bindR (thread_current k) (\<lambda>t.
      bindR (sema_up (wait_sema_of (t_info (thr k t))) k) (\<lambda>k.
      bindR (thread_current k) (\<lambda>t. schedule (set_status t THREAD_DYING k)))))))"

section \<open>The next piece of the running thread's call\<close>

definition run_action :: "ksync \<Rightarrow> ksync res" where
  "run_action k = (let t = running k in
     case pend k t of
       [] \<Rightarrow> Inr k
     | a # _ \<Rightarrow> (case a of
         Down s \<Rightarrow> sema_down_loop s k
       | Restore l \<Rightarrow> bindR (intr_set_level l (pop_action t k)) (\<lambda>(_, k). Inr k)
       | Hold l \<Rightarrow> bindR (thread_current k) (\<lambda>c. Inr (pop_action t (k\<lparr>holders := (holders k)(l := c)\<rparr>)))
       | Call_up s \<Rightarrow> sema_up s (pop_action t k)
       | Call_down s \<Rightarrow> sema_down s (pop_action t k)
       | Call_acquire l \<Rightarrow> lock_acquire l (pop_action t k)))"

section \<open>Steps of the machine\<close>

text \<open>
  \<open>L\<close> is the set of locks. Between calls the running thread may make any call; a semaphore it
  uses directly is not the one inside a lock, memory for a new thread holds no semaphore in use, and
  a thread exits without holding a lock. With
  interrupts on, the timer or a device whose handler ups a semaphore may interrupt it. The idle
  thread only blocks itself.
\<close>

definition plain_sema :: "ptr set \<Rightarrow> ptr \<Rightarrow> bool" where
  "plain_sema L s \<longleftrightarrow> s \<noteq> NULL \<and> (\<forall>l \<in> L. s \<noteq> sema_of_lock l)"

definition between_calls :: "ksync \<Rightarrow> bool" where
  "between_calls k \<longleftrightarrow> pend k (running k) = [] \<and> running k \<noteq> idle_thread k"

definition new_semas :: "ptr set \<Rightarrow> ptr \<Rightarrow> ptr \<Rightarrow> ksync \<Rightarrow> bool" where
  "new_semas L page info k \<longleftrightarrow> (\<forall>s \<in> {wait_sema_of info, exec_sema_of info, sup_page_sema_of page}.
     plain_sema L s \<and> waiters (semas k s) = [])"

definition own_info :: "ptr set \<Rightarrow> ksync \<Rightarrow> bool" where
  "own_info L k \<longleftrightarrow> (let info = t_info (thr k (running k)) in
     plain_sema L (wait_sema_of info) \<and> plain_sema L (exec_sema_of info))"

inductive step :: "ptr set \<Rightarrow> ksync \<Rightarrow> ksync \<Rightarrow> bool" for L where
  act: "pend k (running k) \<noteq> [] \<Longrightarrow> run_action k = Inr k' \<Longrightarrow> step L k k'"
| down: "between_calls k \<Longrightarrow> plain_sema L s \<Longrightarrow> sema_down s k = Inr k' \<Longrightarrow> step L k k'"
| up: "between_calls k \<Longrightarrow> plain_sema L s \<Longrightarrow> sema_up s k = Inr k' \<Longrightarrow> step L k k'"
| try_down: "between_calls k \<Longrightarrow> plain_sema L s \<Longrightarrow> sema_try_down s k = Inr (b, k') \<Longrightarrow> step L k k'"
| acquire: "between_calls k \<Longrightarrow> l \<in> L \<Longrightarrow> lock_acquire l k = Inr k' \<Longrightarrow> step L k k'"
| try_acquire: "between_calls k \<Longrightarrow> l \<in> L \<Longrightarrow> lock_try_acquire l k = Inr (b, k') \<Longrightarrow> step L k k'"
| release: "between_calls k \<Longrightarrow> l \<in> L \<Longrightarrow> lock_release l k = Inr k' \<Longrightarrow> step L k k'"
| wait: "between_calls k \<Longrightarrow> l \<in> L \<Longrightarrow> plain_sema L (sema_of_waiter w) \<Longrightarrow>
    waiters (semas k (sema_of_waiter w)) = [] \<Longrightarrow> cond_wait w c l k = Inr k' \<Longrightarrow> step L k k'"
| signal: "between_calls k \<Longrightarrow> l \<in> L \<Longrightarrow> \<forall>w \<in> set (conds k c). plain_sema L (sema_of_waiter w) \<Longrightarrow>
    cond_signal c l k = Inr k' \<Longrightarrow> step L k k'"
| yield: "pend k (running k) = [] \<Longrightarrow> thread_yield k = Inr k' \<Longrightarrow> step L k k'"
| idle: "pend k (running k) = [] \<Longrightarrow> running k = idle_thread k \<Longrightarrow>
    thread_block (push_actions [Restore INTR_ON] (k\<lparr>level := INTR_OFF\<rparr>)) = Inr k' \<Longrightarrow> step L k k'"
| exit: "between_calls k \<Longrightarrow> \<forall>l \<in> L. holders k l \<noteq> running k \<Longrightarrow> own_info L k \<Longrightarrow>
    thread_exit k = Inr k' \<Longrightarrow> step L k k'"
| create: "between_calls k \<Longrightarrow> \<not> is_thread page k \<Longrightarrow> new_semas L page info k \<Longrightarrow>
    thread_create page info priority k = Inr (tid, k') \<Longrightarrow> step L k k'"
| timer: "level k = INTR_ON \<Longrightarrow> external_interrupt timer_interrupt k = Inr k' \<Longrightarrow> step L k k'"
| device: "level k = INTR_ON \<Longrightarrow> plain_sema L s \<Longrightarrow>
    external_interrupt (sema_up s) k = Inr k' \<Longrightarrow> step L k k'"

end
