(* ===== verification/Ksynch_Inv.thy ===== *)
theory Ksynch_Inv
  imports Ksynch
begin

text \<open>
  The invariant of the scheduler and the synchronisation objects under every interleaving of
  calls and interrupts: the run queue and the wait lists hold exactly the threads they should,
  no scheduler assertion fails, and a lock has at most one owner.
\<close>

section \<open>The invariant\<close>

abbreviation stat :: "ksync \<Rightarrow> ptr \<Rightarrow> thread_status" where
  "stat k t \<equiv> t_status (thr k t)"

definition queue_ok :: "ksync \<Rightarrow> bool" where
  "queue_ok k \<longleftrightarrow> is_thread (idle_thread k) k \<and> distinct (ready_list k) \<and>
     idle_thread k \<notin> set (ready_list k) \<and>
     (\<forall>t \<in> set (ready_list k). is_thread t k \<and> stat k t = THREAD_READY) \<and>
     (\<forall>t. is_thread t k \<and> stat k t = THREAD_READY \<longrightarrow> t \<in> set (ready_list k) \<or> t = idle_thread k)"

definition running_ok :: "ksync \<Rightarrow> bool" where
  "running_ok k \<longleftrightarrow> is_thread (running k) k \<and> stat k (running k) = THREAD_RUNNING \<and>
     (\<forall>t. is_thread t k \<and> stat k t = THREAD_RUNNING \<longrightarrow> t = running k)"

definition wait_ok :: "ksync \<Rightarrow> bool" where
  "wait_ok k \<longleftrightarrow> (\<forall>s. distinct (waiters (semas k s))) \<and>
     (\<forall>s. \<forall>t \<in> set (waiters (semas k s)). is_thread t k \<and> stat k t = THREAD_BLOCKED \<and>
        t \<noteq> idle_thread k \<and> (\<exists>as. pend k t = Down s # as)) \<and>
     (\<forall>t. is_thread t k \<and> stat k t = THREAD_BLOCKED \<and> t \<noteq> idle_thread k \<longrightarrow>
        (\<exists>s. t \<in> set (waiters (semas k s))))"

fun core :: "action list \<Rightarrow> action list" where
  "core [] = []"
| "core (Restore l # as) = core as"
| "core (a # as) = a # core as"

definition shape :: "ptr set \<Rightarrow> action list \<Rightarrow> bool" where
  "shape L p \<longleftrightarrow> (\<forall>s. Down s \<notin> set (tl p)) \<and> (core p = [] \<or> (\<exists>s. plain_sema L s \<and> core p = [Down s]) \<or>
     (\<exists>l \<in> L. core p = [Down (sema_of_lock l), Hold l] \<or> core p = [Hold l] \<or>
        core p = [Call_up (sema_of_lock l)]) \<or>
     (\<exists>l \<in> L. \<exists>s. plain_sema L s \<and>
        (core p = [Call_up (sema_of_lock l), Call_down s, Call_acquire l] \<or>
         core p = [Call_down s, Call_acquire l] \<or> core p = [Down s, Call_acquire l])) \<or>
     (\<exists>l \<in> L. core p = [Call_acquire l]))"

definition at_down :: "action list \<Rightarrow> bool" where
  "at_down p \<longleftrightarrow> (\<exists>s as. p = Down s # as)"

definition pend_ok :: "ptr set \<Rightarrow> ksync \<Rightarrow> bool" where
  "pend_ok L k \<longleftrightarrow> (\<forall>t. shape L (pend k t)) \<and> core (pend k (idle_thread k)) = [] \<and>
     (\<forall>t. \<not> is_thread t k \<longrightarrow> core (pend k t) = []) \<and>
     (at_down (pend k (running k)) \<longrightarrow> level k = INTR_OFF)"

text \<open>
  A thread owns a lock from the moment it has taken the lock's semaphore, while it has still to
  record itself as the holder, until it gives the semaphore back.
\<close>

definition holding :: "ptr \<Rightarrow> action list \<Rightarrow> bool" where
  "holding l p \<longleftrightarrow> (\<exists>r. core p = Hold l # r)"

definition releasing :: "ptr \<Rightarrow> action list \<Rightarrow> bool" where
  "releasing l p \<longleftrightarrow> (\<exists>r. core p = Call_up (sema_of_lock l) # r)"

definition away :: "ptr \<Rightarrow> action list \<Rightarrow> bool" where
  "away l p \<longleftrightarrow> releasing l p \<or> Call_acquire l \<in> set (core p)"

definition owns :: "ksync \<Rightarrow> ptr \<Rightarrow> ptr \<Rightarrow> bool" where
  "owns k t l \<longleftrightarrow> t \<noteq> NULL \<and> holders k l = t \<or> holding l (pend k t) \<or> releasing l (pend k t)"

definition lock_ok :: "ksync \<Rightarrow> ptr \<Rightarrow> bool" where
  "lock_ok k l \<longleftrightarrow> (holders k l \<noteq> NULL \<longrightarrow> is_thread (holders k l) k) \<and>
     (\<forall>t. away l (pend k t) \<longrightarrow> t = NULL \<or> holders k l \<noteq> t) \<and>
     (if sema_value (semas k (sema_of_lock l)) = 0 then \<exists>!t. owns k t l
      else sema_value (semas k (sema_of_lock l)) = 1 \<and> (\<forall>t. \<not> owns k t l))"

definition valid_locks :: "ptr set \<Rightarrow> bool" where
  "valid_locks L \<longleftrightarrow> (\<forall>l \<in> L. l \<noteq> NULL \<and> sema_of_lock l \<noteq> NULL)"

definition sched_inv :: "ptr set \<Rightarrow> ksync \<Rightarrow> bool" where
  "sched_inv L k \<longleftrightarrow> valid_locks L \<and> queue_ok k \<and> running_ok k \<and> wait_ok k \<and> pend_ok L k"

definition sync_inv :: "ptr set \<Rightarrow> ksync \<Rightarrow> bool" where
  "sync_inv L k \<longleftrightarrow> \<not> in_external_intr k \<and> sched_inv L k \<and> (\<forall>l \<in> L. lock_ok k l)"

section \<open>What a switch changes\<close>

definition next_thread :: "'a kernel_scheme \<Rightarrow> ptr" where
  "next_thread k = (if ready_list k = [] then idle_thread k else hd (ready_list k))"

definition reaped :: "'a kernel_scheme \<Rightarrow> ptr \<Rightarrow> bool" where
  "reaped k t \<longleftrightarrow> t = running k \<and> t \<noteq> next_thread k \<and> t \<noteq> NULL \<and>
     t_status (thr k t) = THREAD_DYING \<and> t \<noteq> initial_thread k"

text \<open>The fields of the state that a switch leaves alone.\<close>

definition same_sync :: "ksync \<Rightarrow> ksync \<Rightarrow> bool" where
  "same_sync k k' \<longleftrightarrow> idle_thread k' = idle_thread k \<and> pend k' = pend k \<and> semas k' = semas k \<and>
     holders k' = holders k \<and> conds k' = conds k \<and> in_external_intr k' = in_external_intr k"

lemma next_thread_to_run_eq:
  "next_thread_to_run k = (next_thread k, k\<lparr>ready_list := tl (ready_list k)\<rparr>)"
  by (cases k; cases "ready_list k") (simp_all add: next_thread_to_run_def next_thread_def)

lemma schedule_tail_result:
  assumes "level k = INTR_OFF" "prev = running k \<longrightarrow> prev = NULL"
  shows "\<exists>k'. schedule_tail prev k = Inr k' \<and> same_sync k k' \<and> level k' = INTR_OFF \<and>
    running k' = running k \<and> ready_list k' = ready_list k \<and>
    (\<forall>t. is_thread t k' \<longleftrightarrow> is_thread t k \<and>
       \<not> (t = prev \<and> prev \<noteq> NULL \<and> stat k prev = THREAD_DYING \<and> prev \<noteq> initial_thread k)) \<and>
    (\<forall>t. stat k' t = (if t = running k then THREAD_RUNNING else stat k t))"
  using assms
  by (auto simp: schedule_tail_def set_status_def running_thread_def intr_get_level_def free_thread_def
      same_sync_def is_thread_def THREAD_MAGIC_def Let_def)

lemma schedule_result:
  assumes "level k = INTR_OFF" "stat k (running k) \<noteq> THREAD_RUNNING" "is_thread (next_thread k) k"
  shows "\<exists>k'. schedule k = Inr k' \<and> same_sync k k' \<and> level k' = INTR_OFF \<and>
    running k' = next_thread k \<and> ready_list k' = tl (ready_list k) \<and>
    (\<forall>t. is_thread t k' \<longleftrightarrow> is_thread t k \<and> \<not> reaped k t) \<and>
    (\<forall>t. stat k' t = (if t = next_thread k then THREAD_RUNNING else stat k t))"
proof -
  let ?n = "next_thread k"
  let ?p = "if running k \<noteq> ?n then running k else NULL"
  let ?k = "k\<lparr>ready_list := tl (ready_list k), running := ?n\<rparr>"
  have r: "k\<lparr>ready_list := xs, running := n\<rparr> = k\<lparr>ready_list := xs\<rparr>" if "running k = n" for xs n
    using that by (cases k) simp
  have "schedule k = schedule_tail ?p ?k"
    using assms by (auto simp: r schedule_def next_thread_to_run_eq running_thread_def
        intr_get_level_def switch_threads_def is_thread_def)
  moreover have "?p = running ?k \<longrightarrow> ?p = NULL" by simp
  ultimately show ?thesis
    using schedule_tail_result [of ?k ?p] assms(1)
    by (auto simp: same_sync_def is_thread_def reaped_def)
qed

text \<open>
  The state in which a thread calls \<^verbatim>\<open>schedule\<close>: the invariant except that no thread is running, and
  a dying caller has nothing left to do and holds no lock.
\<close>

definition mid_ok :: "ptr set \<Rightarrow> ksync \<Rightarrow> bool" where
  "mid_ok L k \<longleftrightarrow> \<not> in_external_intr k \<and> valid_locks L \<and> level k = INTR_OFF \<and>
     stat k (running k) \<noteq> THREAD_RUNNING \<and> (\<forall>t. is_thread t k \<longrightarrow> stat k t \<noteq> THREAD_RUNNING) \<and>
     queue_ok k \<and> wait_ok k \<and> pend_ok L k \<and> (\<forall>l \<in> L. lock_ok k l) \<and>
     (stat k (running k) = THREAD_DYING \<longrightarrow> running k \<noteq> idle_thread k \<and>
        core (pend k (running k)) = [] \<and> (\<forall>l \<in> L. holders k l \<noteq> running k))"

lemma next_thread_ok:
  assumes "queue_ok k"
  shows "is_thread (next_thread k) k"
    "next_thread k = idle_thread k \<or> stat k (next_thread k) = THREAD_READY"
    "next_thread k \<notin> set (tl (ready_list k))"
  using assms by (cases "ready_list k"; auto simp: queue_ok_def next_thread_def)+

lemma schedule_queue_ok:
  assumes q: "queue_ok k" and i: "\<not> reaped k (idle_thread k)"
    and r: "\<And>t. is_thread t k' \<longleftrightarrow> is_thread t k \<and> \<not> reaped k t"
    and s: "\<And>t. stat k' t = (if t = next_thread k then THREAD_RUNNING else stat k t)"
    and f: "ready_list k' = tl (ready_list k)" "idle_thread k' = idle_thread k"
  shows "queue_ok k'"
proof -
  note n = next_thread_ok [OF q]
  have "\<not> reaped k t" if "t \<in> set (ready_list k)" for t
    using that q by (auto simp: reaped_def queue_ok_def)
  moreover have "set (ready_list k) \<subseteq> insert (next_thread k) (set (tl (ready_list k)))"
    "set (tl (ready_list k)) \<subseteq> set (ready_list k)"
    by (cases "ready_list k"; auto simp: next_thread_def)+
  ultimately show ?thesis
    using q n(3) i
    by (simp add: queue_ok_def r s f distinct_tl) blast
qed

lemma schedule_running_ok:
  assumes q: "queue_ok k" and no: "\<And>t. is_thread t k \<Longrightarrow> stat k t \<noteq> THREAD_RUNNING"
    and r: "\<And>t. is_thread t k' \<longleftrightarrow> is_thread t k \<and> \<not> reaped k t"
    and s: "\<And>t. stat k' t = (if t = next_thread k then THREAD_RUNNING else stat k t)"
    and f: "running k' = next_thread k"
  shows "running_ok k'"
  using no next_thread_ok(1) [OF q] by (auto simp: running_ok_def r s f reaped_def)

lemma schedule_wait_ok:
  assumes q: "queue_ok k" and w: "wait_ok k"
    and r: "\<And>t. is_thread t k' \<longleftrightarrow> is_thread t k \<and> \<not> reaped k t"
    and s: "\<And>t. stat k' t = (if t = next_thread k then THREAD_RUNNING else stat k t)"
    and f: "same_sync k k'"
  shows "wait_ok k'"
proof -
  note n = next_thread_ok [OF q]
  have "t \<noteq> next_thread k \<and> \<not> reaped k t" if "t \<in> set (waiters (semas k x))" for t x
    using that w n by (auto simp: reaped_def wait_ok_def)
  then show ?thesis using w f unfolding wait_ok_def same_sync_def by (auto simp: r s split: if_splits)
qed

lemma lock_ok_cong:
  assumes lk: "lock_ok k l" and hd: "\<And>t. holding l (pend k' t) = holding l (pend k t)"
    and rl: "\<And>t. releasing l (pend k' t) = releasing l (pend k t)"
    and aw: "\<And>t. away l (pend k' t) \<Longrightarrow> away l (pend k t)"
    and h: "holders k' l = holders k l"
    and v: "sema_value (semas k' (sema_of_lock l)) = sema_value (semas k (sema_of_lock l))"
    and th: "holders k l \<noteq> NULL \<Longrightarrow> is_thread (holders k l) k \<Longrightarrow> is_thread (holders k l) k'"
  shows "lock_ok k' l"
proof -
  have o: "owns k' t l = owns k t l" for t by (simp add: owns_def hd rl h)
  show ?thesis using lk th aw unfolding lock_ok_def o h v by blast
qed

lemma schedule_inv:
  assumes m: "mid_ok L k"
  shows "\<exists>k'. schedule k = Inr k' \<and> sync_inv L k' \<and> same_sync k k' \<and>
    running k' = next_thread k \<and> ready_list k' = tl (ready_list k)"
proof -
  have q: "queue_ok k" and w: "wait_ok k" and p: "pend_ok L k" and lk: "\<And>l. l \<in> L \<Longrightarrow> lock_ok k l"
    and lv: "level k = INTR_OFF" and st: "stat k (running k) \<noteq> THREAD_RUNNING"
    and no: "\<And>t. is_thread t k \<Longrightarrow> stat k t \<noteq> THREAD_RUNNING"
    using m by (simp_all add: mid_ok_def)
  have reap: "core (pend k t) = [] \<and> t \<noteq> idle_thread k \<and> (\<forall>l \<in> L. holders k l \<noteq> t)" if "reaped k t" for t
    using that m by (auto simp: reaped_def mid_ok_def)
  obtain k' where k': "schedule k = Inr k'" "same_sync k k'" "level k' = INTR_OFF"
      "running k' = next_thread k" "ready_list k' = tl (ready_list k)"
      and r: "\<And>t. is_thread t k' \<longleftrightarrow> is_thread t k \<and> \<not> reaped k t"
      and s: "\<And>t. stat k' t = (if t = next_thread k then THREAD_RUNNING else stat k t)"
    using schedule_result [OF lv st next_thread_ok(1) [OF q]] by blast
  have same: "idle_thread k' = idle_thread k" "pend k' = pend k" "semas k' = semas k" "holders k' = holders k"
    using k'(2) by (simp_all add: same_sync_def)
  have "queue_ok k'" using schedule_queue_ok [OF q _ r s k'(5) same(1)] reap by blast
  moreover have "running_ok k'" using schedule_running_ok [OF q no r s k'(4)] .
  moreover have "wait_ok k'" using schedule_wait_ok [OF q w r s k'(2)] .
  moreover have "pend_ok L k'" using p reap by (auto simp: pend_ok_def same k'(3) r)
  moreover have "lock_ok k' l" if l: "l \<in> L" for l
    by (rule lock_ok_cong [OF lk [OF l]]) (use same r reap l in auto)
  moreover have "\<not> in_external_intr k'" "valid_locks L" using m k'(2) by (simp_all add: mid_ok_def same_sync_def)
  ultimately show ?thesis using k' by (simp add: sync_inv_def sched_inv_def)
qed

section \<open>Using the invariant\<close>

lemma queue_okD:
  assumes "queue_ok k"
  shows "is_thread (idle_thread k) k" "distinct (ready_list k)" "idle_thread k \<notin> set (ready_list k)"
    "t \<in> set (ready_list k) \<Longrightarrow> is_thread t k" "t \<in> set (ready_list k) \<Longrightarrow> stat k t = THREAD_READY"
    "is_thread t k \<Longrightarrow> stat k t = THREAD_READY \<Longrightarrow> t \<in> set (ready_list k) \<or> t = idle_thread k"
  using assms by (simp_all add: queue_ok_def)

lemma running_okD:
  assumes "running_ok k"
  shows "is_thread (running k) k" "stat k (running k) = THREAD_RUNNING"
    "is_thread t k \<Longrightarrow> stat k t = THREAD_RUNNING \<Longrightarrow> t = running k"
  using assms by (simp_all add: running_ok_def)

lemma wait_okD:
  assumes "wait_ok k"
  shows "distinct (waiters (semas k s))" "t \<in> set (waiters (semas k s)) \<Longrightarrow> is_thread t k"
    "t \<in> set (waiters (semas k s)) \<Longrightarrow> stat k t = THREAD_BLOCKED"
    "t \<in> set (waiters (semas k s)) \<Longrightarrow> t \<noteq> idle_thread k"
    "t \<in> set (waiters (semas k s)) \<Longrightarrow> \<exists>as. pend k t = Down s # as"
    "is_thread t k \<Longrightarrow> stat k t = THREAD_BLOCKED \<Longrightarrow> t \<noteq> idle_thread k \<Longrightarrow>
      \<exists>s. t \<in> set (waiters (semas k s))"
  using assms unfolding wait_ok_def by blast+

lemma queue_okI:
  assumes "is_thread (idle_thread k) k" "distinct (ready_list k)" "idle_thread k \<notin> set (ready_list k)"
    and "\<And>t. t \<in> set (ready_list k) \<Longrightarrow> is_thread t k \<and> stat k t = THREAD_READY"
    and "\<And>t. is_thread t k \<Longrightarrow> stat k t = THREAD_READY \<Longrightarrow> t \<in> set (ready_list k) \<or> t = idle_thread k"
  shows "queue_ok k"
  using assms by (simp add: queue_ok_def)

lemma wait_okI:
  assumes "\<And>s. distinct (waiters (semas k s))"
    and "\<And>s t. t \<in> set (waiters (semas k s)) \<Longrightarrow> is_thread t k \<and> stat k t = THREAD_BLOCKED \<and>
      t \<noteq> idle_thread k \<and> (\<exists>as. pend k t = Down s # as)"
    and "\<And>t. is_thread t k \<Longrightarrow> stat k t = THREAD_BLOCKED \<Longrightarrow> t \<noteq> idle_thread k \<Longrightarrow>
      \<exists>s. t \<in> set (waiters (semas k s))"
  shows "wait_ok k"
  using assms unfolding wait_ok_def by blast

lemma sched_invD:
  assumes "sched_inv L k"
  shows "valid_locks L" "queue_ok k" "running_ok k" "wait_ok k" "pend_ok L k"
  using assms by (simp_all add: sched_inv_def)

lemma sync_invD:
  assumes "sync_inv L k"
  shows "\<not> in_external_intr k" "sched_inv L k" "l \<in> L \<Longrightarrow> lock_ok k l"
  using assms by (simp_all add: sync_inv_def)

lemma pend_okD:
  assumes "pend_ok L k"
  shows "shape L (pend k t)" "core (pend k (idle_thread k)) = []" "\<not> is_thread t k \<Longrightarrow> core (pend k t) = []"
    "at_down (pend k (running k)) \<Longrightarrow> level k = INTR_OFF"
  using assms by (simp_all add: pend_ok_def)

lemma thread_current_inv: "sched_inv L k \<Longrightarrow> thread_current k = Inr (running k)"
  by (simp add: sched_inv_def running_ok_def thread_current_def running_thread_def)

lemma running_not_waiting:
  assumes "sched_inv L k"
  shows "running k \<notin> set (waiters (semas k s))" "running k \<notin> set (ready_list k)"
  using running_okD(2) [OF sched_invD(3) [OF assms]] wait_okD(3) [OF sched_invD(4) [OF assms], of "running k" s]
    queue_okD(5) [OF sched_invD(2) [OF assms], of "running k"]
  by auto

lemma core_Down: "Down s \<in> set p \<Longrightarrow> Down s \<in> set (core p)"
  by (induction p rule: core.induct) auto

lemma at_down_simps [simp]: "\<not> at_down []" "at_down (Down s # as)" "\<not> at_down (Restore l # as)"
  "\<not> at_down (Hold x # as)" "\<not> at_down (Call_up s # as)" "\<not> at_down (Call_down s # as)"
  "\<not> at_down (Call_acquire x # as)"
  by (simp_all add: at_down_def)

lemma shape_restore [simp]: "shape L (Restore l # p) \<longleftrightarrow> shape L p \<and> \<not> at_down p"
proof -
  have "(\<forall>s. Down s \<notin> set p) \<longleftrightarrow> (\<forall>s. Down s \<notin> set (tl p)) \<and> \<not> at_down p"
    by (cases p) (auto simp: at_down_def)
  then show ?thesis by (simp add: shape_def) blast
qed

lemma shape_nil [simp]: "core p = [] \<Longrightarrow> shape L p"
  using core_Down [of _ p] by (cases p) (auto simp: shape_def)

lemma core_nil_at_down [simp]: "core p = [] \<Longrightarrow> \<not> at_down p"
  by (auto simp: at_down_def)

lemma holding_restore [simp]: "holding l (Restore x # p) = holding l p" "releasing l (Restore x # p) = releasing l p"
  "away l (Restore x # p) = away l p"
  by (simp_all add: holding_def releasing_def away_def)

section \<open>Leaving the processor\<close>

text \<open>
  A thread gives up the processor by yielding, by blocking on semaphore \<open>s\<close>, by ending, or, for
  the idle thread, by blocking outside every list.
\<close>

lemma leaving_mid:
  assumes inv: "sync_inv L k" and st: "st \<noteq> THREAD_RUNNING"
    and f: "idle_thread k1 = idle_thread k" "holders k1 = holders k" "running k1 = running k"
      "level k1 = INTR_OFF" "in_external_intr k1 = in_external_intr k" "\<And>t. is_thread t k1 = is_thread t k"
      "\<And>t. stat k1 t = (if t = running k then st else stat k t)" "pend k1 = (pend k)(running k := p)"
      "\<And>x. sema_value (semas k1 x) = sema_value (semas k x)"
      "ready_list k1 = ready_list k @ (if st = THREAD_READY \<and> running k \<noteq> idle_thread k then [running k] else [])"
      "\<And>x. waiters (semas k1 x) = waiters (semas k x) @
        (if st = THREAD_BLOCKED \<and> running k \<noteq> idle_thread k \<and> x = s then [running k] else [])"
    and p: "shape L p" "core p = core (pend k (running k))"
    and blk: "st = THREAD_BLOCKED \<Longrightarrow> running k \<noteq> idle_thread k \<Longrightarrow> \<exists>as. p = Down s # as"
    and dy: "st = THREAD_DYING \<Longrightarrow> running k \<noteq> idle_thread k \<and> core p = [] \<and> (\<forall>l \<in> L. holders k l \<noteq> running k)"
  shows "mid_ok L k1"
proof -
  note si = sync_invD(2) [OF inv]
  note nw = running_not_waiting [OF si]
  note q = sched_invD(2) [OF si] and r = sched_invD(3) [OF si] and w = sched_invD(4) [OF si]
    and pd = sched_invD(5) [OF si]
  note rt = running_okD(1) [OF r]
  have "queue_ok k1"
  proof (rule queue_okI, unfold f)
    fix t
    show "is_thread t k \<and> (if t = running k then st else stat k t) = THREAD_READY"
      if "t \<in> set (ready_list k @ (if st = THREAD_READY \<and> running k \<noteq> idle_thread k then [running k] else []))"
      using that queue_okD(4,5) [OF q, of t] nw(2) rt by (auto split: if_splits)
    show "t \<in> set (ready_list k @ (if st = THREAD_READY \<and> running k \<noteq> idle_thread k then [running k] else [])) \<or>
        t = idle_thread k"
      if "is_thread t k" "(if t = running k then st else stat k t) = THREAD_READY"
      using that queue_okD(6) [OF q, of t] by (auto split: if_splits)
  qed (use queue_okD(1-3) [OF q] nw(2) in auto)
  moreover have "wait_ok k1"
  proof (rule wait_okI, unfold f)
    fix t x
    let ?new = "\<lambda>x. if st = THREAD_BLOCKED \<and> running k \<noteq> idle_thread k \<and> x = s then [running k] else []"
    show "distinct (waiters (semas k x) @ ?new x)" using wait_okD(1) [OF w, of x] nw(1) [of x] by auto
    show "is_thread t k \<and> (if t = running k then st else stat k t) = THREAD_BLOCKED \<and> t \<noteq> idle_thread k \<and>
        (\<exists>as. ((pend k)(running k := p)) t = Down x # as)" if "t \<in> set (waiters (semas k x) @ ?new x)"
      using that wait_okD(2-5) [OF w, of t x] nw(1) [of x] rt blk by (auto split: if_splits)
    show "\<exists>x. t \<in> set (waiters (semas k x) @ ?new x)"
      if a: "is_thread t k" "(if t = running k then st else stat k t) = THREAD_BLOCKED" "t \<noteq> idle_thread k"
    proof (cases "t = running k")
      case True
      then show ?thesis using a by (intro exI [of _ s]) simp
    next
      case False
      then obtain x where "t \<in> set (waiters (semas k x))" using a wait_okD(6) [OF w, of t] by auto
      then show ?thesis by (intro exI [of _ x]) simp
    qed
  qed
  moreover have "pend_ok L k1"
    using pend_okD [OF pd] p rt unfolding pend_ok_def f by (auto split: if_splits)
  moreover have "lock_ok k1 l" if "l \<in> L" for l
    by (rule lock_ok_cong [OF sync_invD(3) [OF inv that]])
      (auto simp: f p(2) holding_def releasing_def away_def split: if_splits)
  moreover have "\<forall>t. is_thread t k \<longrightarrow> stat k1 t \<noteq> THREAD_RUNNING"
    using running_okD(3) [OF r] st by (auto simp: f)
  ultimately show ?thesis
    using sync_invD(1) [OF inv] sched_invD(1) [OF si] st dy by (simp add: mid_ok_def f)
qed

definition yielding :: "intr_level \<Rightarrow> ksync \<Rightarrow> ksync" where
  "yielding old k = k\<lparr>level := INTR_OFF,
     ready_list := (if running k = idle_thread k then ready_list k else ready_list k @ [running k]),
     thr := (thr k)(running k := (thr k (running k))\<lparr>t_status := THREAD_READY\<rparr>),
     pend := (pend k)(running k := Restore old # pend k (running k))\<rparr>"

lemma thread_yield_inv:
  assumes inv: "sync_inv L k" and nd: "\<not> at_down (pend k (running k))"
  shows "\<exists>k'. thread_yield k = Inr k' \<and> sync_inv L k' \<and> same_sync (yielding (level k) k) k' \<and>
    running k' = next_thread (yielding (level k) k) \<and> ready_list k' = tl (ready_list (yielding (level k) k))"
proof -
  note si = sync_invD(2) [OF inv]
  have "thread_yield k = schedule (yielding (level k) k)"
    using sync_invD(1) [OF inv]
    by (simp add: thread_yield_def thread_current_inv [OF si] intr_context_def intr_disable_def
        intr_get_level_def set_status_def push_action_def yielding_def)
  moreover have "mid_ok L (yielding (level k) k)"
    by (rule leaving_mid [OF inv, where st = THREAD_READY and p = "Restore (level k) # pend k (running k)"])
      (use nd pend_okD(1) [OF sched_invD(5) [OF si], of "running k"] in \<open>auto simp: yielding_def is_thread_def\<close>)
  ultimately show ?thesis using schedule_inv by fastforce
qed

definition blocking :: "ptr \<Rightarrow> ksync \<Rightarrow> ksync" where
  "blocking s k = k\<lparr>semas := (semas k)(s := (semas k s)\<lparr>waiters := waiters (semas k s) @ [running k]\<rparr>),
     thr := (thr k)(running k := (thr k (running k))\<lparr>t_status := THREAD_BLOCKED\<rparr>)\<rparr>"

lemma blocking_mid:
  assumes inv: "sync_inv L k" and p: "pend k (running k) = Down s # as"
  shows "mid_ok L (blocking s k)"
proof -
  note pd = sched_invD(5) [OF sync_invD(2) [OF inv]]
  have "running k \<noteq> idle_thread k" using pend_okD(2) [OF pd] p by auto
  moreover have "level k = INTR_OFF" using pend_okD(4) [OF pd] p by simp
  ultimately show ?thesis
    by (intro leaving_mid [OF inv, where st = THREAD_BLOCKED and s = s and p = "pend k (running k)"])
      (use p pend_okD(1) [OF pd, of "running k"] in \<open>auto simp: blocking_def is_thread_def\<close>)
qed

section \<open>Steps inside a call\<close>

text \<open>A change of the running thread's pending actions, of levels, holders and values only.\<close>

lemma sched_pend_update:
  assumes si: "sched_inv L k"
    and f: "thr k' = thr k" "ready_list k' = ready_list k" "running k' = running k"
      "idle_thread k' = idle_thread k"
      "\<And>s. waiters (semas k' s) = waiters (semas k s)" "pend k' = (pend k)(running k := p)"
    and p: "shape L p" "running k = idle_thread k \<Longrightarrow> core p = []" "at_down p \<Longrightarrow> level k' = INTR_OFF"
  shows "sched_inv L k'"
proof -
  note r = sched_invD(3) [OF si] and w = sched_invD(4) [OF si] and pd = sched_invD(5) [OF si]
  have th: "is_thread t k' = is_thread t k" for t by (simp add: is_thread_def f)
  have "queue_ok k'" using sched_invD(2) [OF si] by (simp add: queue_ok_def th f)
  moreover have "running_ok k'" using r by (simp add: running_ok_def th f)
  moreover have "wait_ok k'"
  proof (rule wait_okI, unfold th f)
    fix t x
    show "is_thread t k \<and> stat k t = THREAD_BLOCKED \<and> t \<noteq> idle_thread k \<and>
        (\<exists>as. ((pend k)(running k := p)) t = Down x # as)" if "t \<in> set (waiters (semas k x))"
      using wait_okD(2-5) [OF w that] running_not_waiting(1) [OF si, of x] that by auto
  qed (use wait_okD(1,6) [OF w] in blast)+
  moreover have "pend_ok L k'"
    using pd p running_okD(1) [OF r] by (auto simp: pend_ok_def th f)
  ultimately show ?thesis using sched_invD(1) [OF si] by (simp add: sched_inv_def)
qed

text \<open>A thread whose call does not touch lock \<open>l\<close> at this point.\<close>

definition quiet :: "ptr \<Rightarrow> action list \<Rightarrow> bool" where
  "quiet l p \<longleftrightarrow> \<not> holding l p \<and> \<not> releasing l p"

lemma quiet_simps [simp]: "core p = [] \<Longrightarrow> quiet l p" "quiet l (Down s # p)" "quiet l (Call_down s # p)"
  "quiet l (Call_acquire x # p)" "quiet l (Restore v # p) = quiet l p" "quiet l (Hold x # p) \<longleftrightarrow> x \<noteq> l"
  "quiet l (Call_up s # p) \<longleftrightarrow> s \<noteq> sema_of_lock l"
  by (auto simp: quiet_def holding_def releasing_def)

lemma lock_quiet:
  assumes "lock_ok k l" "pend k' = (pend k)(t := p)" "quiet l (pend k t)" "quiet l p" "thr k' = thr k"
    "Call_acquire l \<in> set (core p) \<Longrightarrow> Call_acquire l \<in> set (core (pend k t))"
    "holders k' l = holders k l" "sema_value (semas k' (sema_of_lock l)) = sema_value (semas k (sema_of_lock l))"
  shows "lock_ok k' l"
  using assms by (intro lock_ok_cong [OF assms(1)]) (auto simp: quiet_def is_thread_def away_def split: if_splits)

lemma sema_of_lock_inj [simp]: "sema_of_lock l = sema_of_lock l' \<longleftrightarrow> l = l'"
  by (simp add: sema_of_lock_def)

lemma shape_down:
  assumes "shape L (Down s # as)"
  shows "(plain_sema L s \<and> (core as = [] \<or> (\<exists>l \<in> L. core as = [Call_acquire l]))) \<or>
    (\<exists>l \<in> L. s = sema_of_lock l \<and> core as = [Hold l])"
  using assms by (simp add: shape_def) blast

lemma shape_tl:
  assumes "shape L (a # as)"
  shows "\<not> at_down as" "Down s \<notin> set (tl as)"
  using assms by (cases as; auto simp: shape_def at_down_def)+

lemma lock_takenI:
  assumes "sema_value (semas k (sema_of_lock l)) = 0" "\<And>t. owns k t l \<longleftrightarrow> t = x"
    "\<And>t. away l (pend k t) \<Longrightarrow> t \<noteq> NULL \<Longrightarrow> holders k l \<noteq> t" "holders k l \<noteq> NULL \<Longrightarrow> is_thread (holders k l) k"
  shows "lock_ok k l"
  using assms by (auto simp: lock_ok_def)

lemma lock_freeI:
  assumes "sema_value (semas k (sema_of_lock l)) = 1" "\<And>t. \<not> owns k t l"
  shows "lock_ok k l"
  using assms(1) assms(2) [of "holders k l"] assms(2) by (auto simp: lock_ok_def owns_def)

lemma lock_okD:
  assumes "lock_ok k l"
  shows "sema_value (semas k (sema_of_lock l)) \<noteq> 0 \<Longrightarrow> sema_value (semas k (sema_of_lock l)) = 1 \<and> \<not> owns k t l"
    "owns k t l \<Longrightarrow> sema_value (semas k (sema_of_lock l)) = 0 \<and> (\<forall>u. owns k u l \<longleftrightarrow> u = t)"
    "away l (pend k t) \<Longrightarrow> t = NULL \<or> holders k l \<noteq> t" "holders k l \<noteq> NULL \<Longrightarrow> is_thread (holders k l) k"
  using assms by (auto simp: lock_ok_def split: if_splits)

lemma down_take_inv:
  assumes inv: "sync_inv L k" and p: "pend k (running k) = Down s # as" and v: "sema_value (semas k s) \<noteq> 0"
    and k': "k' = pop_action (running k)
      (k\<lparr>semas := (semas k)(s := (semas k s)\<lparr>sema_value := sema_value (semas k s) - 1\<rparr>)\<rparr>)"
  shows "sync_inv L k'"
proof -
  note si = sync_invD(2) [OF inv]
  note pd = sched_invD(5) [OF si]
  have sh: "shape L (Down s # as)" using pend_okD(1) [OF pd, of "running k"] p by simp
  have ni: "running k \<noteq> idle_thread k" using pend_okD(2) [OF pd] p by auto
  note sd = shape_down [OF sh]
  have sa: "shape L as" using sd shape_tl(2) [OF sh] by (auto simp: shape_def)
  have f: "thr k' = thr k" "ready_list k' = ready_list k" "running k' = running k" "holders k' = holders k"
    "idle_thread k' = idle_thread k" "in_external_intr k' = in_external_intr k"
    "pend k' = (pend k)(running k := as)"
    by (simp_all add: k' pop_action_def p)
  have w: "waiters (semas k' x) = waiters (semas k x)"
    "sema_value (semas k' x) = (if x = s then sema_value (semas k s) - 1 else sema_value (semas k x))" for x
    by (simp_all add: k' pop_action_def)
  have th: "is_thread t k' = is_thread t k" for t by (simp add: is_thread_def f)
  have "sched_inv L k'"
    by (rule sched_pend_update [OF si f(1,2,3,5) w(1) f(7)]) (use sa ni shape_tl [OF sh] in auto)
  moreover have "lock_ok k' l" if l: "l \<in> L" for l
  proof (cases "s = sema_of_lock l")
    case True
    note lk = lock_okD [OF sync_invD(3) [OF inv l]]
    have one: "sema_value (semas k s) = 1" and no: "\<And>t. \<not> owns k t l" using lk(1) v True by auto
    have ca: "core as = [Hold l]" using sd l True by (auto simp: plain_sema_def)
    show ?thesis
    proof (rule lock_takenI)
      show "owns k' t l \<longleftrightarrow> t = running k" for t
        using no [of t] ca by (auto simp: owns_def f holding_def)
      show "holders k' l \<noteq> t" if "away l (pend k' t)" "t \<noteq> NULL" for t
        using that(2) no [of t] by (auto simp: owns_def f)
    qed (use True one lk(4) in \<open>auto simp: w f th\<close>)
  next
    case False
    then have "quiet l as" using sd by (auto simp: quiet_def holding_def releasing_def)
    then show ?thesis
      using False by (intro lock_quiet [OF sync_invD(3) [OF inv l] f(7)]) (simp_all add: p f w)
  qed
  ultimately show ?thesis using sync_invD(1) [OF inv] by (simp add: sync_inv_def f)
qed

lemma sema_down_loop_inv:
  assumes inv: "sync_inv L k" and p: "pend k (running k) = Down s # as"
  shows "\<exists>k'. sema_down_loop s k = Inr k' \<and> sync_inv L k' \<and>
    (if sema_value (semas k s) = 0 then same_sync (blocking s k) k' \<and> running k' = next_thread k \<and>
       ready_list k' = tl (ready_list k)
     else running k' = running k \<and> ready_list k' = ready_list k)"
proof (cases "sema_value (semas k s) = 0")
  case True
  have "level k = INTR_OFF" "\<not> in_external_intr k"
    using pend_okD(4) [OF sched_invD(5) [OF sync_invD(2) [OF inv]]] p sync_invD(1) [OF inv] by simp_all
  moreover have "thread_current (k\<lparr>semas := x\<rparr>) = Inr (running k)" for x
    using thread_current_inv [OF sync_invD(2) [OF inv]]
    by (simp add: thread_current_def running_thread_def is_thread_def)
  ultimately have "sema_down_loop s k = schedule (blocking s k)"
    using True thread_current_inv [OF sync_invD(2) [OF inv]]
    by (simp add: sema_down_loop_def thread_block_def intr_context_def intr_get_level_def
        set_status_def blocking_def)
  moreover have "next_thread (blocking s k) = next_thread k" "ready_list (blocking s k) = ready_list k"
    by (simp_all add: next_thread_def blocking_def)
  ultimately show ?thesis using schedule_inv [OF blocking_mid [OF inv p]] True by auto
next
  case False
  then show ?thesis using down_take_inv [OF inv p False refl]
    by (simp add: sema_down_loop_def pop_action_def)
qed

lemma intr_set_level_ok:
  assumes "\<not> in_external_intr k \<or> l = INTR_OFF"
  shows "intr_set_level l k = Inr (level k, k\<lparr>level := l\<rparr>)"
  using assms by (cases l)
    (simp_all add: intr_set_level_def intr_enable_def intr_disable_def intr_context_def intr_get_level_def)

lemma restore_inv:
  assumes inv: "sync_inv L k" and p: "pend k (running k) = Restore lv # as"
    and k': "k' = (pop_action (running k) k)\<lparr>level := lv\<rparr>"
  shows "sync_inv L k'"
proof -
  note si = sync_invD(2) [OF inv]
  note pd = sched_invD(5) [OF si]
  have sh: "shape L as" "\<not> at_down as" using pend_okD(1) [OF pd, of "running k"] p by simp_all
  have f: "thr k' = thr k" "ready_list k' = ready_list k" "running k' = running k" "holders k' = holders k"
    "idle_thread k' = idle_thread k" "in_external_intr k' = in_external_intr k" "semas k' = semas k"
    "pend k' = (pend k)(running k := as)"
    by (simp_all add: k' pop_action_def p)
  have "sched_inv L k'"
    by (rule sched_pend_update [OF si f(1,2,3,5) _ f(8)]) (use sh pend_okD(2) [OF pd] p f in auto)
  moreover have "lock_ok k' l" if l: "l \<in> L" for l
    by (rule lock_ok_cong [OF sync_invD(3) [OF inv l]]) (use p in \<open>auto simp: f is_thread_def split: if_splits\<close>)
  ultimately show ?thesis using sync_invD(1) [OF inv] by (simp add: sync_inv_def f)
qed

lemma hold_inv:
  assumes inv: "sync_inv L k" and p: "pend k (running k) = Hold l # as"
    and k': "k' = pop_action (running k) (k\<lparr>holders := (holders k)(l := running k)\<rparr>)"
  shows "sync_inv L k'"
proof -
  note si = sync_invD(2) [OF inv]
  note pd = sched_invD(5) [OF si]
  have "shape L (Hold l # as)" using pend_okD(1) [OF pd, of "running k"] p by simp
  then have sh: "core as = []" "l \<in> L" by (auto simp: shape_def)
  have f: "thr k' = thr k" "ready_list k' = ready_list k" "running k' = running k"
    "idle_thread k' = idle_thread k" "in_external_intr k' = in_external_intr k" "semas k' = semas k"
    "pend k' = (pend k)(running k := as)" "holders k' = (holders k)(l := running k)"
    by (simp_all add: k' pop_action_def p)
  have th: "is_thread t k' = is_thread t k" for t by (simp add: is_thread_def f)
  have r: "is_thread (running k) k" using running_okD(1) [OF sched_invD(3) [OF si]] .
  have "sched_inv L k'"
    by (rule sched_pend_update [OF si f(1,2,3,4) _ f(7)]) (use sh f in auto)
  moreover have "lock_ok k' x" if x: "x \<in> L" for x
  proof (cases "x = l")
    case True
    have h: "holding l (pend k (running k))" using p by (simp add: holding_def)
    note lk = lock_okD [OF sync_invD(3) [OF inv sh(2)]]
    have o: "sema_value (semas k (sema_of_lock l)) = 0" "\<And>u. owns k u l \<longleftrightarrow> u = running k"
      using lk(2) [of "running k"] h by (auto simp: owns_def)
    have nr: "\<not> releasing l (pend k' t)" for t
      using o(2) [of t] sh(1) by (auto simp: owns_def f releasing_def split: if_splits)
    have na: "\<not> away l (pend k' (running k))" using sh(1) by (simp add: f away_def releasing_def)
    have nh: "\<not> holding l (pend k' t)" for t
      using o(2) [of t] sh(1) by (auto simp: owns_def f holding_def split: if_splits)
    show ?thesis unfolding True
      by (rule lock_takenI [where x = "running k"])
        (use o(1) nr nh na r in \<open>auto simp: f owns_def th is_thread_def\<close>)
  next
    case False
    then show ?thesis
      by (intro lock_quiet [OF sync_invD(3) [OF inv x] f(7)]) (use sh p in \<open>simp_all add: f\<close>)
  qed
  ultimately show ?thesis using sync_invD(1) [OF inv] by (simp add: sync_inv_def f)
qed

section \<open>Giving a semaphore back\<close>

definition upped :: "ptr \<Rightarrow> ksync \<Rightarrow> ksync" where
  "upped s k = k\<lparr>semas := (semas k)(s := \<lparr>sema_value = sema_value (semas k s) + 1, waiters = tl (waiters (semas k s))\<rparr>),
     ready_list := ready_list k @ take 1 (waiters (semas k s)),
     thr := (\<lambda>t. if t \<in> set (take 1 (waiters (semas k s))) then (thr k t)\<lparr>t_status := THREAD_READY\<rparr> else thr k t)\<rparr>"

lemma upped_Nil: "waiters (semas k s) = [] \<Longrightarrow>
    upped s k = k\<lparr>semas := (semas k)(s := (semas k s)\<lparr>sema_value := sema_value (semas k s) + 1\<rparr>)\<rparr>"
  by (cases k; cases "semas k s") (simp add: upped_def)

lemma upped_Cons: "waiters (semas k s) = t # ts \<Longrightarrow>
    upped s k = k\<lparr>semas := (semas k)(s := (semas k s)\<lparr>waiters := ts, sema_value := sema_value (semas k s) + 1\<rparr>),
      ready_list := ready_list k @ [t], thr := (thr k)(t := (thr k t)\<lparr>t_status := THREAD_READY\<rparr>)\<rparr>"
  by (cases k; cases "semas k s") (auto simp: upped_def fun_eq_iff)

lemma restored_level: "k\<lparr>level := l, semas := a, level := level k\<rparr> = k\<lparr>semas := a\<rparr>"
  "k\<lparr>level := l, semas := a, ready_list := b, thr := c, semas := d, level := level k\<rparr> =
    k\<lparr>semas := d, ready_list := b, thr := c\<rparr>"
  for k :: ksync by (cases k; simp)+

lemma sema_up_result:
  assumes si: "sched_inv L k" and s: "s \<noteq> NULL" and l: "\<not> in_external_intr k \<or> level k = INTR_OFF"
  shows "sema_up s k = Inr (upped s k)"
proof (cases "waiters (semas k s)")
  case Nil
  have "sema_up s k = Inr (k\<lparr>level := INTR_OFF,
      semas := (semas k)(s := (semas k s)\<lparr>sema_value := sema_value (semas k s) + 1\<rparr>), level := level k\<rparr>)"
    using s l Nil by (simp add: sema_up_def intr_disable_def intr_get_level_def intr_set_level_ok)
  then show ?thesis by (simp only: restored_level upped_Nil [OF Nil])
next
  case (Cons t ts)
  note w = sched_invD(4) [OF si]
  have t: "is_thread t k" "stat k t = THREAD_BLOCKED" using wait_okD(2,3) [OF w, of t s] Cons by simp_all
  let ?k = "k\<lparr>level := INTR_OFF, semas := (semas k)(s := (semas k s)\<lparr>waiters := ts\<rparr>)\<rparr>"
  have "thread_unblock t ?k = Inr (?k\<lparr>ready_list := ready_list k @ [t],
      thr := (thr k)(t := (thr k t)\<lparr>t_status := THREAD_READY\<rparr>)\<rparr>)"
    using t by (simp add: thread_unblock_def is_thread_def set_status_def intr_disable_def intr_get_level_def
        intr_set_level_ok)
  then have "sema_up s k = Inr (k\<lparr>level := INTR_OFF, semas := (semas k)(s := (semas k s)\<lparr>waiters := ts\<rparr>),
      ready_list := ready_list k @ [t], thr := (thr k)(t := (thr k t)\<lparr>t_status := THREAD_READY\<rparr>),
      semas := (semas k)(s := (semas k s)\<lparr>waiters := ts, sema_value := sema_value (semas k s) + 1\<rparr>),
      level := level k\<rparr>)"
    using s l Cons by (simp add: sema_up_def intr_disable_def intr_get_level_def intr_set_level_ok)
  then show ?thesis by (simp only: restored_level upped_Cons [OF Cons])
qed

lemma upped_fields:
  "pend (upped s k) = pend k" "holders (upped s k) = holders k" "conds (upped s k) = conds k"
  "level (upped s k) = level k" "in_external_intr (upped s k) = in_external_intr k"
  "yield_on_return (upped s k) = yield_on_return k" "running (upped s k) = running k"
  "idle_thread (upped s k) = idle_thread k" "is_thread t (upped s k) = is_thread t k"
  "sema_value (semas (upped s k) x) = (if x = s then sema_value (semas k s) + 1 else sema_value (semas k x))"
  "waiters (semas (upped s k) x) = (if x = s then tl (waiters (semas k s)) else waiters (semas k x))"
  "ready_list (upped s k) = ready_list k @ take 1 (waiters (semas k s))"
  "stat (upped s k) t = (if t \<in> set (take 1 (waiters (semas k s))) then THREAD_READY else stat k t)"
  by (simp_all add: upped_def is_thread_def)

lemma upped_inv:
  assumes si: "sched_inv L k"
  shows "sched_inv L (upped s k)"
proof -
  note q = sched_invD(2) [OF si] and r = sched_invD(3) [OF si] and w = sched_invD(4) [OF si]
    and pd = sched_invD(5) [OF si]
  let ?new = "take 1 (waiters (semas k s))"
  have new: "is_thread t k" "stat k t = THREAD_BLOCKED" "t \<noteq> idle_thread k" "\<exists>as. pend k t = Down s # as"
    if "t \<in> set ?new" for t
    using wait_okD(2-5) [OF w in_set_takeD [OF that]] by blast+
  have nr: "t \<notin> set (ready_list k)" "t \<noteq> running k" if "t \<in> set ?new" for t
    using new(2) [OF that] queue_okD(5) [OF q, of t] running_okD(2) [OF r] by auto
  have "queue_ok (upped s k)"
  proof (rule queue_okI, unfold upped_fields)
    show "is_thread (idle_thread k) k" "idle_thread k \<notin> set (ready_list k @ ?new)"
      using queue_okD(1,3) [OF q] new(3) by auto
    show "distinct (ready_list k @ ?new)"
      using queue_okD(2) [OF q] nr(1) wait_okD(1) [OF w, of s] by (auto simp: distinct_take)
    fix t
    show "is_thread t k \<and> (if t \<in> set ?new then THREAD_READY else stat k t) = THREAD_READY"
      if "t \<in> set (ready_list k @ ?new)"
      using that queue_okD(4,5) [OF q, of t] new(1) [of t] by auto
    show "t \<in> set (ready_list k @ ?new) \<or> t = idle_thread k"
      if "is_thread t k" "(if t \<in> set ?new then THREAD_READY else stat k t) = THREAD_READY"
      using that queue_okD(6) [OF q, of t] by (auto split: if_splits)
  qed
  moreover have "running_ok (upped s k)"
    unfolding running_ok_def upped_fields
  proof (intro conjI allI impI)
    show "(if running k \<in> set ?new then THREAD_READY else stat k (running k)) = THREAD_RUNNING"
      using running_okD(2) [OF r] nr(2) by auto
    fix t assume "is_thread t k \<and> (if t \<in> set ?new then THREAD_READY else stat k t) = THREAD_RUNNING"
    then show "t = running k" using running_okD(3) [OF r, of t] by (auto split: if_splits)
  qed (rule running_okD(1) [OF r])
  moreover have "wait_ok (upped s k)"
  proof (rule wait_okI, unfold upped_fields)
    fix t x
    show "distinct (if x = s then tl (waiters (semas k s)) else waiters (semas k x))"
      using wait_okD(1) [OF w, of s] wait_okD(1) [OF w, of x] by (simp add: distinct_tl)
    show "is_thread t k \<and> (if t \<in> set ?new then THREAD_READY else stat k t) = THREAD_BLOCKED \<and>
        t \<noteq> idle_thread k \<and> (\<exists>as. pend k t = Down x # as)"
      if a: "t \<in> set (if x = s then tl (waiters (semas k s)) else waiters (semas k x))"
    proof -
      have m: "t \<in> set (waiters (semas k x))"
        using a by (cases "waiters (semas k s)") (auto split: if_splits)
      have "t \<notin> set ?new"
      proof
        assume n: "t \<in> set ?new"
        then have "x = s" using new(4) wait_okD(5) [OF w m] by fastforce
        then show False using n a wait_okD(1) [OF w, of s] by (cases "waiters (semas k s)") auto
      qed
      then show ?thesis using wait_okD(2-5) [OF w m] by auto
    qed
    show "\<exists>x. t \<in> set (if x = s then tl (waiters (semas k s)) else waiters (semas k x))"
      if a: "is_thread t k" "(if t \<in> set ?new then THREAD_READY else stat k t) = THREAD_BLOCKED" "t \<noteq> idle_thread k"
    proof -
      have n: "t \<notin> set ?new" "stat k t = THREAD_BLOCKED" using a(2) by (auto split: if_splits)
      obtain x where x: "t \<in> set (waiters (semas k x))" using wait_okD(6) [OF w a(1) n(2) a(3)] by blast
      then have "t \<in> set (if x = s then tl (waiters (semas k s)) else waiters (semas k x))"
        using n(1) by (cases "waiters (semas k s)") auto
      then show ?thesis by blast
    qed
  qed
  moreover have "pend_ok L (upped s k)" using pd unfolding pend_ok_def upped_fields .
  ultimately show ?thesis using sched_invD(1) [OF si] by (simp add: sched_inv_def)
qed

lemma plain_value: "plain_sema L s \<Longrightarrow> l \<in> L \<Longrightarrow> sema_of_lock l \<noteq> s"
  by (auto simp: plain_sema_def)

lemma upped_lock:
  assumes "lock_ok k l" "sema_of_lock l \<noteq> s"
  shows "lock_ok (upped s k) l"
  by (rule lock_ok_cong [OF assms(1)]) (use assms(2) in \<open>simp_all add: upped_fields\<close>)

lemma up_inv:
  assumes inv: "sync_inv L k" and p: "plain_sema L s"
  shows "sema_up s k = Inr (upped s k) \<and> sync_inv L (upped s k)"
  using sema_up_result [OF sync_invD(2) [OF inv], of s] upped_inv [OF sync_invD(2) [OF inv], of s]
    sync_invD(1,3) [OF inv] upped_lock plain_value [OF p] p
  by (auto simp: sync_inv_def upped_fields plain_sema_def)

lemma call_up_inv:
  assumes inv: "sync_inv L k" and p: "pend k (running k) = Call_up s # as"
  shows "\<exists>k'. sema_up s (pop_action (running k) k) = Inr k' \<and> sync_inv L k' \<and> running k' = running k \<and>
    ready_list k' = ready_list k @ take 1 (waiters (semas k s))"
proof -
  note si = sync_invD(2) [OF inv]
  note pd = sched_invD(5) [OF si]
  have sh: "shape L (Call_up s # as)" using pend_okD(1) [OF pd, of "running k"] p by simp
  then obtain l where l: "l \<in> L" "s = sema_of_lock l"
      "core as = [] \<or> (\<exists>x. plain_sema L x \<and> core as = [Call_down x, Call_acquire l])"
    by (auto simp: shape_def)
  have ni: "running k \<noteq> idle_thread k" using pend_okD(2) [OF pd] p by auto
  have sa: "shape L as" using l shape_tl(2) [OF sh] by (auto simp: shape_def)
  define k1 where "k1 = pop_action (running k) k"
  have f: "thr k1 = thr k" "ready_list k1 = ready_list k" "running k1 = running k" "holders k1 = holders k"
    "idle_thread k1 = idle_thread k" "in_external_intr k1 = in_external_intr k" "semas k1 = semas k"
    "pend k1 = (pend k)(running k := as)"
    by (simp_all add: k1_def pop_action_def p)
  have s1: "sched_inv L k1"
    by (rule sched_pend_update [OF si f(1,2,3,5) _ f(8)]) (use sa ni shape_tl(1) [OF sh] f in auto)
  have n: "s \<noteq> NULL" using sched_invD(1) [OF si] l by (simp add: valid_locks_def)
  have qa: "quiet x as" for x using l(3) by (auto simp: quiet_def holding_def releasing_def)
  have rel: "releasing l (pend k (running k))" using p l(2) by (simp add: releasing_def)
  note lk = lock_okD [OF sync_invD(3) [OF inv l(1)]]
  have o: "sema_value (semas k s) = 0" "\<And>u. owns k u l \<longleftrightarrow> u = running k"
    using lk(2) [of "running k"] rel l(2) by (auto simp: owns_def)
  have "running k \<noteq> NULL" using running_okD(1) [OF sched_invD(3) [OF si]] by (simp add: is_thread_def)
  then have hn: "holders k l \<noteq> running k" using lk(3) [of "running k"] rel by (simp add: away_def)
  have "lock_ok (upped s k1) l"
  proof (rule lock_freeI)
    show "sema_value (semas (upped s k1) (sema_of_lock l)) = 1" using o(1) l(2) by (simp add: upped_fields f)
    show "\<not> owns (upped s k1) t l" for t
      using o(2) [of t] qa [of l] hn by (auto simp: owns_def upped_fields f quiet_def)
  qed
  moreover have "lock_ok (upped s k1) x" if x: "x \<in> L" "x \<noteq> l" for x
    using x l(2) p qa
    by (intro upped_lock lock_quiet [OF sync_invD(3) [OF inv x(1)] f(8)]) (auto simp: f)
  ultimately have "sync_inv L (upped s k1)"
    using upped_inv [OF s1, of s] sync_invD(1) [OF inv] by (auto simp: sync_inv_def upped_fields f)
  moreover have "sema_up s k1 = Inr (upped s k1)"
    using sema_up_result [OF s1 n] sync_invD(1) [OF inv] f(6) by simp
  ultimately show ?thesis by (auto simp: k1_def [symmetric] upped_fields f)
qed

section \<open>Calls\<close>

lemma push_down_inv:
  assumes inv: "sync_inv L k" and ni: "running k \<noteq> idle_thread k"
    and f: "thr k' = thr k" "ready_list k' = ready_list k" "running k' = running k" "holders k' = holders k"
      "idle_thread k' = idle_thread k" "in_external_intr k' = in_external_intr k"
      "\<And>x. waiters (semas k' x) = waiters (semas k x)"
      "\<And>l. l \<in> L \<Longrightarrow> sema_value (semas k' (sema_of_lock l)) = sema_value (semas k (sema_of_lock l))"
      "pend k' = (pend k)(running k := Down s # as)" "level k' = INTR_OFF"
    and sh: "shape L (Down s # as)" and q: "\<And>l. l \<in> L \<Longrightarrow> quiet l (pend k (running k))"
    and a: "\<And>l. Call_acquire l \<in> set (core as) \<Longrightarrow> Call_acquire l \<in> set (core (pend k (running k)))"
  shows "sync_inv L k'"
proof -
  have "sched_inv L k'"
    by (rule sched_pend_update [OF sync_invD(2) [OF inv] f(1,2,3,5,7,9)]) (use sh ni f(10) in auto)
  moreover have "lock_ok k' l" if l: "l \<in> L" for l
    by (rule lock_quiet [OF sync_invD(3) [OF inv l] f(9)]) (use q [OF l] a f l in auto)
  ultimately show ?thesis using sync_invD(1) [OF inv] f(6) by (simp add: sync_inv_def)
qed

lemma sema_down_inv:
  assumes inv: "sync_inv L k" and ni: "running k \<noteq> idle_thread k" and s: "plain_sema L s"
    and p: "pend k (running k) = [] \<and> as = [] \<or>
      pend k (running k) = Call_down s # as \<and> (\<exists>l \<in> L. core as = [Call_acquire l])"
  shows "\<exists>k'. sema_down s (k\<lparr>pend := (pend k)(running k := as)\<rparr>) = Inr k' \<and> sync_inv L k' \<and>
    running k' = running k \<and> ready_list k' = ready_list k"
proof -
  let ?k = "k\<lparr>pend := (pend k)(running k := Down s # Restore (level k) # as), level := INTR_OFF\<rparr>"
  have nd: "\<forall>x. Down x \<notin> set as"
  proof
    fix x
    show "Down x \<notin> set as" using p core_Down [of x as] by auto
  qed
  have "sync_inv L ?k"
    by (rule push_down_inv [OF inv ni, where s = s and as = "Restore (level k) # as"])
      (use p s nd in \<open>auto simp: shape_def\<close>)
  moreover have "sema_down s (k\<lparr>pend := (pend k)(running k := as)\<rparr>) = Inr ?k"
    using s sync_invD(1) [OF inv]
    by (simp add: sema_down_def plain_sema_def intr_context_def intr_disable_def intr_get_level_def push_actions_def)
  ultimately show ?thesis by auto
qed

lemma lock_acquire_inv:
  assumes inv: "sync_inv L k" and ni: "running k \<noteq> idle_thread k" and l: "l \<in> L"
    and p: "pend k (running k) = [] \<and> as = [] \<or> pend k (running k) = Call_acquire l # as \<and> core as = []"
    and h: "holders k l \<noteq> running k"
  shows "\<exists>k'. lock_acquire l (k\<lparr>pend := (pend k)(running k := as)\<rparr>) = Inr k' \<and> sync_inv L k' \<and>
    running k' = running k \<and> ready_list k' = ready_list k"
proof -
  let ?p = "Down (sema_of_lock l) # Restore (level k) # Hold l # as"
  let ?k = "k\<lparr>pend := (pend k)(running k := ?p), level := INTR_OFF\<rparr>"
  have c: "core as = []" using p by auto
  then have nd: "\<forall>x. Down x \<notin> set as" using core_Down by fastforce
  have "sync_inv L ?k"
    by (rule push_down_inv [OF inv ni, where s = "sema_of_lock l" and as = "Restore (level k) # Hold l # as"])
      (use p l c nd in \<open>auto simp: shape_def\<close>)
  moreover have "lock_acquire l (k\<lparr>pend := (pend k)(running k := as)\<rparr>) = Inr ?k"
  proof -
    have "l \<noteq> NULL" "sema_of_lock l \<noteq> NULL" using sched_invD(1) [OF sync_invD(2) [OF inv]] l
      by (simp_all add: valid_locks_def)
    moreover have "thread_current (k\<lparr>pend := (pend k)(running k := as)\<rparr>) = Inr (running k)"
      using thread_current_inv [OF sync_invD(2) [OF inv]]
      by (simp add: thread_current_def running_thread_def is_thread_def)
    ultimately show ?thesis
      using sync_invD(1) [OF inv] h
      by (simp add: lock_acquire_def lock_held_by_current_thread_def sema_down_def intr_context_def
          intr_disable_def intr_get_level_def push_actions_def)
  qed
  ultimately show ?thesis by auto
qed

lemma call_acquire_free:
  assumes inv: "sync_inv L k" and p: "pend k (running k) = Call_acquire l # as"
  shows "l \<in> L" "core as = []" "holders k l \<noteq> running k" "running k \<noteq> idle_thread k"
proof -
  note si = sync_invD(2) [OF inv]
  note pd = sched_invD(5) [OF si]
  have "shape L (Call_acquire l # as)" using pend_okD(1) [OF pd, of "running k"] p by simp
  then show l: "l \<in> L" "core as = []" by (auto simp: shape_def)
  have "running k \<noteq> NULL" using running_okD(1) [OF sched_invD(3) [OF si]] by (simp add: is_thread_def)
  then show "holders k l \<noteq> running k"
    using lock_okD(3) [OF sync_invD(3) [OF inv l(1)], of "running k"] p by (simp add: away_def)
  show "running k \<noteq> idle_thread k" using pend_okD(2) [OF pd] p by auto
qed

text \<open>
  Every step either appends threads to the run queue, or it appends some and dispatches the first
  thread of the queue, the idle thread when the queue is empty.
\<close>

definition queue_step :: "ksync \<Rightarrow> ksync \<Rightarrow> bool" where
  "queue_step k k' \<longleftrightarrow> (\<exists>new. ready_list k' = ready_list k @ new \<and> running k' = running k \<or>
     ready_list k' = tl (ready_list k @ new) \<and> running k' = hd (ready_list k @ new @ [idle_thread k]))"

lemma queue_stepI:
  "running k' = running k \<Longrightarrow> ready_list k' = ready_list k \<Longrightarrow> queue_step k k'"
  "running k' = running k \<Longrightarrow> ready_list k' = ready_list k @ new \<Longrightarrow> queue_step k k'"
  "running k' = next_thread k \<Longrightarrow> ready_list k' = tl (ready_list k) \<Longrightarrow> queue_step k k'"
proof -
  show "queue_step k k'" if "running k' = running k" "ready_list k' = ready_list k"
    using that by (auto simp: queue_step_def intro: exI [of _ "[]"])
  show "queue_step k k'" if "running k' = running k" "ready_list k' = ready_list k @ new"
    using that by (auto simp: queue_step_def)
  show "queue_step k k'" if "running k' = next_thread k" "ready_list k' = tl (ready_list k)"
    using that unfolding queue_step_def next_thread_def
    by (intro exI [of _ "[]"] disjI2) (cases "ready_list k"; simp)
qed

lemma queue_step_yield:
  assumes "running k' = next_thread (yielding old k)" "ready_list k' = tl (ready_list (yielding old k))"
  shows "queue_step k k'"
proof -
  let ?new = "if running k = idle_thread k then [] else [running k]"
  have r: "ready_list (yielding old k) = ready_list k @ ?new" "idle_thread (yielding old k) = idle_thread k"
    by (simp_all add: yielding_def)
  have "ready_list k' = tl (ready_list k @ ?new) \<and> running k' = hd (ready_list k @ ?new @ [idle_thread k])"
    using assms unfolding next_thread_def r by (cases "ready_list k") auto
  then show ?thesis unfolding queue_step_def by blast
qed

lemma run_action_inv:
  assumes inv: "sync_inv L k" and ne: "pend k (running k) \<noteq> []"
  shows "\<exists>k'. run_action k = Inr k' \<and> sync_inv L k' \<and> queue_step k k'"
proof -
  note si = sync_invD(2) [OF inv]
  note pd = sched_invD(5) [OF si]
  obtain a as where p: "pend k (running k) = a # as" using ne by (cases "pend k (running k)") auto
  have pop: "pop_action (running k) k = k\<lparr>pend := (pend k)(running k := as)\<rparr>"
    by (simp add: pop_action_def p)
  show ?thesis
  proof (cases a)
    case (Down s)
    obtain k' where "sema_down_loop s k = Inr k'" "sync_inv L k'" "queue_step k k'"
      using sema_down_loop_inv [OF inv, of s as] p Down queue_stepI(1,3) by (auto split: if_splits)
    then show ?thesis using p Down by (simp add: run_action_def)
  next
    case (Restore l)
    have "intr_set_level l (pop_action (running k) k) = Inr (level k, (pop_action (running k) k)\<lparr>level := l\<rparr>)"
      using intr_set_level_ok [of "pop_action (running k) k" l] sync_invD(1) [OF inv] by (simp add: pop_action_def)
    then show ?thesis using restore_inv [OF inv _ refl] p Restore
      by (simp add: run_action_def Let_def queue_stepI pop_action_def)
  next
    case (Hold l)
    then show ?thesis using hold_inv [OF inv _ refl] p thread_current_inv [OF si]
      by (simp add: run_action_def Let_def queue_stepI pop_action_def)
  next
    case (Call_up s)
    then obtain k' where "sema_up s (pop_action (running k) k) = Inr k'" "sync_inv L k'" "queue_step k k'"
      using call_up_inv [OF inv, of s as] p queue_stepI(2) by blast
    then show ?thesis using p Call_up by (simp add: run_action_def)
  next
    case (Call_down s)
    have "shape L (Call_down s # as)" using pend_okD(1) [OF pd, of "running k"] p Call_down by simp
    then have "plain_sema L s" "\<exists>l \<in> L. core as = [Call_acquire l]" by (auto simp: shape_def)
    moreover have "running k \<noteq> idle_thread k" using pend_okD(2) [OF pd] p Call_down by auto
    ultimately obtain k' where "sema_down s (pop_action (running k) k) = Inr k'" "sync_inv L k'" "queue_step k k'"
      using sema_down_inv [OF inv, of s as] p Call_down queue_stepI(1) unfolding pop by blast
    then show ?thesis using p Call_down by (simp add: run_action_def)
  next
    case (Call_acquire l)
    then have p': "pend k (running k) = Call_acquire l # as" using p by simp
    note cf = call_acquire_free [OF inv p']
    obtain k' where "lock_acquire l (pop_action (running k) k) = Inr k'" "sync_inv L k'" "queue_step k k'"
      using lock_acquire_inv [OF inv cf(4,1) _ cf(3), of as] p' cf(2) queue_stepI(1) unfolding pop by blast
    then show ?thesis using p' by (simp add: run_action_def)
  qed
qed

lemma sched_inv_same:
  assumes si: "sched_inv L k" and f: "thr k' = thr k" "ready_list k' = ready_list k" "running k' = running k"
      "idle_thread k' = idle_thread k" "semas k' = semas k" "pend k' = pend k"
    and l: "at_down (pend k (running k)) \<Longrightarrow> level k' = INTR_OFF"
  shows "sched_inv L k'"
  by (rule sched_pend_update [OF si f(1-4), where p = "pend k (running k)"])
    (use pend_okD [OF sched_invD(5) [OF si]] f l in auto)

lemma sync_inv_same:
  assumes inv: "sync_inv L k" and f: "thr k' = thr k" "ready_list k' = ready_list k" "running k' = running k"
      "idle_thread k' = idle_thread k" "semas k' = semas k" "pend k' = pend k" "holders k' = holders k"
      "\<not> in_external_intr k'"
    and l: "at_down (pend k (running k)) \<Longrightarrow> level k' = INTR_OFF"
  shows "sync_inv L k'"
proof -
  have "lock_ok k' l" if "l \<in> L" for l
    by (rule lock_ok_cong [OF sync_invD(3) [OF inv that]]) (simp_all add: f is_thread_def)
  then show ?thesis using sched_inv_same [OF sync_invD(2) [OF inv] f(1-6) l] f(8) by (simp add: sync_inv_def)
qed

lemma value_update_inv:
  assumes inv: "sync_inv L k" and p: "plain_sema L s" and k': "k' = k\<lparr>semas := (semas k)(s := (semas k s)\<lparr>sema_value := v\<rparr>)\<rparr>"
  shows "sync_inv L k'"
proof -
  note si = sync_invD(2) [OF inv]
  have f: "thr k' = thr k" "ready_list k' = ready_list k" "running k' = running k" "holders k' = holders k"
    "idle_thread k' = idle_thread k" "in_external_intr k' = in_external_intr k"
    "pend k' = pend k" "level k' = level k" "waiters (semas k' x) = waiters (semas k x)" for x
    by (simp_all add: k')
  have "sched_inv L k'"
    by (rule sched_pend_update [OF si f(1,2,3,5,9), where p = "pend k (running k)"])
      (use pend_okD [OF sched_invD(5) [OF si]] f in auto)
  moreover have "lock_ok k' l" if l: "l \<in> L" for l
    by (rule lock_ok_cong [OF sync_invD(3) [OF inv l]]) (use plain_value [OF p l] in \<open>auto simp: f k' is_thread_def\<close>)
  ultimately show ?thesis using sync_invD(1) [OF inv] by (simp add: sync_inv_def f)
qed

lemma level_flip: "k\<lparr>level := l, level := level k\<rparr> = k" "k\<lparr>level := l, semas := a, level := level k\<rparr> = k\<lparr>semas := a\<rparr>"
  for k :: ksync by (cases k; simp)+

lemma sema_try_down_result:
  assumes "\<not> in_external_intr k" "s \<noteq> NULL"
  shows "sema_try_down s k = Inr (if sema_value (semas k s) > 0
    then (True, k\<lparr>semas := (semas k)(s := (semas k s)\<lparr>sema_value := sema_value (semas k s) - 1\<rparr>)\<rparr>) else (False, k))"
  using assms
  by (simp add: sema_try_down_def intr_disable_def intr_get_level_def intr_set_level_ok level_flip)

lemma sema_try_down_inv:
  assumes "sync_inv L k" "plain_sema L s" "sema_try_down s k = Inr (b, k')"
  shows "sync_inv L k'"
  using assms(3) value_update_inv [OF assms(1,2) refl] assms(1)
    sema_try_down_result [OF sync_invD(1) [OF assms(1)]] assms(2)
  by (auto simp: plain_sema_def split: if_splits)

lemma held_result:
  assumes "sync_inv L k" "l \<in> L"
  shows "lock_held_by_current_thread l k = Inr (holders k l = running k)"
  using assms thread_current_inv [OF sync_invD(2) [OF assms(1)]] sched_invD(1) [OF sync_invD(2) [OF assms(1)]]
  by (simp add: lock_held_by_current_thread_def valid_locks_def)

lemma running_real: "sync_inv L k \<Longrightarrow> running k \<noteq> NULL \<and> is_thread (running k) k"
  using running_okD(1) [OF sched_invD(3) [OF sync_invD(2)]] by (auto simp: is_thread_def)

lemma lock_try_acquire_inv:
  assumes inv: "sync_inv L k" and l: "l \<in> L" and nw: "pend k (running k) = []"
    and t: "lock_try_acquire l k = Inr (b, k')"
  shows "sync_inv L k'"
proof (cases "sema_value (semas k (sema_of_lock l)) > 0")
  case True
  note si = sync_invD(2) [OF inv]
  have nn: "l \<noteq> NULL" "sema_of_lock l \<noteq> NULL" using sched_invD(1) [OF si] l by (simp_all add: valid_locks_def)
  note lk = lock_okD [OF sync_invD(3) [OF inv l]]
  have one: "sema_value (semas k (sema_of_lock l)) = 1" and no: "\<And>t. \<not> owns k t l" using lk(1) True by auto
  have k': "k' = k\<lparr>semas := (semas k)(sema_of_lock l := (semas k (sema_of_lock l))\<lparr>sema_value := 0\<rparr>),
      holders := (holders k)(l := running k)\<rparr>"
    using t True one nn held_result [OF inv l] sema_try_down_result [OF sync_invD(1) [OF inv] nn(2)]
      thread_current_inv [OF si]
    by (auto simp: lock_try_acquire_def thread_current_def running_thread_def is_thread_def)
  have f: "thr k' = thr k" "ready_list k' = ready_list k" "running k' = running k"
    "idle_thread k' = idle_thread k" "in_external_intr k' = in_external_intr k"
    "pend k' = pend k" "level k' = level k" "waiters (semas k' x) = waiters (semas k x)"
    "holders k' = (holders k)(l := running k)"
    "sema_value (semas k' x) = (if x = sema_of_lock l then 0 else sema_value (semas k x))" for x
    by (simp_all add: k')
  have "sched_inv L k'"
    by (rule sched_pend_update [OF si f(1,2,3,4,8), where p = "pend k (running k)"])
      (use pend_okD [OF sched_invD(5) [OF si]] f in auto)
  moreover have "lock_ok k' x" if x: "x \<in> L" for x
  proof (cases "x = l")
    case True
    show ?thesis unfolding True
      by (rule lock_takenI [where x = "running k"])
        (use no running_real [OF inv] nw in \<open>auto simp: f owns_def is_thread_def away_def releasing_def\<close>)
  next
    case False
    then show ?thesis
      by (intro lock_ok_cong [OF sync_invD(3) [OF inv x]]) (auto simp: f is_thread_def)
  qed
  ultimately show ?thesis using sync_invD(1) [OF inv] by (simp add: sync_inv_def f)
next
  case False
  then have "k' = k"
    using t held_result [OF inv l] sched_invD(1) [OF sync_invD(2) [OF inv]] l
      sema_try_down_result [OF sync_invD(1) [OF inv], of "sema_of_lock l"]
    by (auto simp: lock_try_acquire_def valid_locks_def)
  then show ?thesis using inv by simp
qed

lemma release_inv:
  assumes inv: "sync_inv L k" and l: "l \<in> L" and h: "holders k l = running k" and ni: "running k \<noteq> idle_thread k"
    and p: "pend k (running k) = []"
    and as: "core as = [] \<or> (\<exists>s. plain_sema L s \<and> core as = [Call_down s, Call_acquire l])"
    and f: "thr k' = thr k" "ready_list k' = ready_list k" "running k' = running k"
      "idle_thread k' = idle_thread k" "in_external_intr k' = in_external_intr k"
      "\<And>x. waiters (semas k' x) = waiters (semas k x)" "holders k' = (holders k)(l := NULL)"
      "pend k' = (pend k)(running k := Call_up (sema_of_lock l) # as)"
      "\<And>x. x \<in> L \<Longrightarrow> sema_value (semas k' (sema_of_lock x)) = sema_value (semas k (sema_of_lock x))"
  shows "sync_inv L k'"
proof -
  note si = sync_invD(2) [OF inv]
  have nd: "\<forall>x. Down x \<notin> set as" using as core_Down [of _ as] by auto
  have sh: "shape L (Call_up (sema_of_lock l) # as)" using as l nd by (auto simp: shape_def)
  have "sched_inv L k'"
    by (rule sched_pend_update [OF si f(1-4) f(6) f(8) sh]) (use ni in auto)
  moreover have "lock_ok k' x" if x: "x \<in> L" for x
  proof (cases "x = l")
    case True
    have o: "sema_value (semas k (sema_of_lock l)) = 0" "\<And>u. owns k u l \<longleftrightarrow> u = running k"
      using lock_okD(2) [OF sync_invD(3) [OF inv l], of "running k"] h running_real [OF inv]
      by (auto simp: owns_def)
    have "owns k' t l \<longleftrightarrow> t = running k" for t
      using o(2) [of t] by (auto simp: owns_def f releasing_def)
    then show ?thesis unfolding True
      by (rule lock_takenI [rotated]) (use o(1) f(9) [OF l] in \<open>auto simp: f(7)\<close>)
  next
    case False
    then show ?thesis
      by (intro lock_quiet [OF sync_invD(3) [OF inv x] f(8)]) (use p as f x in auto)
  qed
  ultimately show ?thesis using sync_invD(1) [OF inv] f(5) by (simp add: sync_inv_def)
qed

lemma lock_release_inv:
  assumes inv: "sync_inv L k" and l: "l \<in> L" and b: "between_calls k" and r: "lock_release l k = Inr k'"
  shows "sync_inv L k'"
proof -
  have k': "holders k l = running k" "k' = push_actions [Call_up (sema_of_lock l)] (k\<lparr>holders := (holders k)(l := NULL)\<rparr>)"
    using r held_result [OF inv l] by (auto simp: lock_release_def)
  show ?thesis
    by (rule release_inv [OF inv l k'(1), where as = "[]"])
      (use b in \<open>auto simp: k'(2) push_actions_def between_calls_def\<close>)
qed

lemma cond_wait_inv:
  assumes inv: "sync_inv L k" and l: "l \<in> L" and b: "between_calls k"
    and w: "plain_sema L (sema_of_waiter w)" "waiters (semas k (sema_of_waiter w)) = []"
    and r: "cond_wait w c l k = Inr k'"
  shows "sync_inv L k'"
proof -
  have nn: "l \<noteq> NULL" using sched_invD(1) [OF sync_invD(2) [OF inv]] l by (simp add: valid_locks_def)
  let ?k = "k\<lparr>semas := (semas k)(sema_of_waiter w := \<lparr>sema_value = 0, waiters = []\<rparr>),
    conds := (conds k)(c := conds k c @ [w])\<rparr>"
  have cur: "thread_current (push_actions as ?k) = Inr (running k)" for as
    using thread_current_inv [OF sync_invD(2) [OF inv]]
    by (simp add: thread_current_def running_thread_def is_thread_def push_actions_def)
  have h: "holders k l = running k"
    using r held_result [OF inv l] by (auto simp: cond_wait_def)
  have k': "k' = k\<lparr>semas := (semas k)(sema_of_waiter w := \<lparr>sema_value = 0, waiters = []\<rparr>),
      conds := (conds k)(c := conds k c @ [w]), holders := (holders k)(l := NULL),
      pend := (pend k)(running k := [Call_up (sema_of_lock l), Call_down (sema_of_waiter w), Call_acquire l])\<rparr>"
    using r held_result [OF inv l] h nn cur b
    by (auto simp: cond_wait_def sema_init_def lock_release_def lock_held_by_current_thread_def
        push_actions_def between_calls_def Let_def)
  show ?thesis
    by (rule release_inv [OF inv l h, where as = "[Call_down (sema_of_waiter w), Call_acquire l]"])
      (use b w plain_value [OF w(1)] in \<open>auto simp: k' between_calls_def\<close>)
qed

lemma cond_signal_inv:
  assumes inv: "sync_inv L k" and l: "l \<in> L"
    and w: "\<forall>w \<in> set (conds k c). plain_sema L (sema_of_waiter w)" and r: "cond_signal c l k = Inr k'"
  shows "sync_inv L k'"
proof (cases "conds k c")
  case Nil
  then show ?thesis using r inv by (auto simp: cond_signal_def)
next
  case (Cons x ws)
  let ?k = "k\<lparr>conds := (conds k)(c := ws)\<rparr>"
  have "sync_inv L ?k"
    by (rule sync_inv_same [OF inv])
      (use sync_invD(1) [OF inv] pend_okD(4) [OF sched_invD(5) [OF sync_invD(2) [OF inv]]] in auto)
  then show ?thesis using up_inv [of L ?k "sema_of_waiter x"] r w Cons by (auto simp: cond_signal_def)
qed

section \<open>Threads that end, begin and idle\<close>

lemma dying_inv:
  assumes inv: "sync_inv L k" and b: "between_calls k" and h: "\<forall>l \<in> L. holders k l \<noteq> running k"
    and l: "level k = INTR_OFF"
  shows "\<exists>k'. schedule (set_status (running k) THREAD_DYING k) = Inr k' \<and> sync_inv L k' \<and>
    running k' = next_thread k \<and> ready_list k' = tl (ready_list k)"
proof -
  define k1 where "k1 = set_status (running k) THREAD_DYING k"
  have "mid_ok L k1"
    by (rule leaving_mid [OF inv, where st = THREAD_DYING and p = "[]"])
      (use b h l in \<open>auto simp: k1_def set_status_def is_thread_def between_calls_def\<close>)
  moreover have "next_thread k1 = next_thread k" "ready_list k1 = ready_list k"
    by (simp_all add: next_thread_def k1_def set_status_def)
  ultimately show ?thesis using schedule_inv [of L k1] by (auto simp: k1_def)
qed

lemma idle_inv:
  assumes inv: "sync_inv L k" and p: "pend k (running k) = []" and i: "running k = idle_thread k"
  shows "\<exists>k'. thread_block (push_actions [Restore INTR_ON] (k\<lparr>level := INTR_OFF\<rparr>)) = Inr k' \<and> sync_inv L k' \<and>
    running k' = next_thread k \<and> ready_list k' = tl (ready_list k)"
proof -
  note si = sync_invD(2) [OF inv]
  define k1 where "k1 = set_status (running k) THREAD_BLOCKED (push_actions [Restore INTR_ON] (k\<lparr>level := INTR_OFF\<rparr>))"
  have "mid_ok L k1"
    by (rule leaving_mid [OF inv, where st = THREAD_BLOCKED and p = "[Restore INTR_ON]"])
      (use p i in \<open>auto simp: k1_def set_status_def is_thread_def push_actions_def\<close>)
  moreover have "thread_block (push_actions [Restore INTR_ON] (k\<lparr>level := INTR_OFF\<rparr>)) = schedule k1"
    using sync_invD(1) [OF inv] thread_current_inv [OF si]
    by (simp add: thread_block_def intr_context_def intr_get_level_def push_actions_def
        thread_current_def running_thread_def is_thread_def k1_def)
  moreover have "next_thread k1 = next_thread k" "ready_list k1 = ready_list k"
    by (simp_all add: next_thread_def k1_def set_status_def push_actions_def)
  ultimately show ?thesis using schedule_inv [of L k1] by auto
qed

text \<open>The state after the creation of a thread, before and after it joins the run queue.\<close>

definition prepared :: "ptr \<Rightarrow> ptr \<Rightarrow> ksync \<Rightarrow> ksync" where
  "prepared t info k = k\<lparr>next_tid := next_tid k + 1,
     thr := (thr k)(running k := (thr k (running k))\<lparr>t_children := t_children (thr k (running k)) @ [t],
       t_child_infos := t_child_infos (thr k (running k)) @ [info]\<rparr>),
     infos := (infos k)(info := (infos k info)
       \<lparr>i_tid := next_tid k, i_load_success := True, i_waited := False, i_killed := False\<rparr>),
     semas := (semas k)(wait_sema_of info := \<lparr>sema_value = 0, waiters = []\<rparr>,
       exec_sema_of info := \<lparr>sema_value = 0, waiters = []\<rparr>, sup_page_sema_of t := \<lparr>sema_value = 1, waiters = []\<rparr>)\<rparr>"

definition created :: "ptr \<Rightarrow> ptr \<Rightarrow> int \<Rightarrow> ksync \<Rightarrow> ksync" where
  "created t info pri k = (let k1 = prepared t info k in
     k1\<lparr>pend := (pend k)(t := [Restore INTR_ON]), ready_list := ready_list k @ [t],
     thr := (thr k1)(t := \<lparr>t_tid = next_tid k, t_status = THREAD_READY, t_priority = pri,
       t_stack = t + PGSIZE - 12 - 4 - 28, t_pagedir = NULL, t_children = [], t_child_infos = [],
       t_parent = running k, t_exit_status = 0, t_info = info, t_magic = THREAD_MAGIC\<rparr>)\<rparr>)"

lemma launch_run:
  assumes "\<not> in_external_intr k" "is_thread t k" "stat k t = THREAD_BLOCKED"
  shows "thread_launch t k = Inr (k\<lparr>pend := (pend k)(t := [Restore INTR_ON]), ready_list := ready_list k @ [t],
    thr := (thr k)(t := (thr k t)\<lparr>t_stack := t_stack (thr k t) - 12 - 4 - 28, t_status := THREAD_READY\<rparr>)\<rparr>)"
proof -
  have e: "k\<lparr>thr := a, pend := c, level := INTR_OFF, ready_list := d, thr := e, level := level k\<rparr> =
      k\<lparr>pend := c, ready_list := d, thr := e\<rparr>" for a c d e by (cases k) simp
  show ?thesis using assms
    by (simp add: thread_launch_def alloc_frame_def is_thread_def thread_unblock_def intr_disable_def
        intr_get_level_def intr_set_level_ok set_status_def e Let_def)
qed

lemma create_run:
  assumes "\<not> in_external_intr k" "page \<noteq> NULL" "PRI_MIN \<le> pri" "pri \<le> PRI_MAX" "info \<noteq> NULL"
    "thread_current k = Inr (running k)" "page \<noteq> running k" "new_semas L page info k"
  shows "thread_create page info pri k = Inr (next_tid k, created page info pri k)"
proof -
  have cur: "running k \<noteq> NULL" "t_magic (thr k (running k)) = THREAD_MAGIC" "stat k (running k) = THREAD_RUNNING"
    using assms(6) by (auto simp: thread_current_def running_thread_def is_thread_def Let_def)
  have n: "wait_sema_of info \<noteq> NULL" "exec_sema_of info \<noteq> NULL" "sup_page_sema_of page \<noteq> NULL"
    using assms(8) by (auto simp: new_semas_def plain_sema_def)
  show ?thesis
    using assms(1-5,7) cur n
    by (simp add: thread_create_def init_thread_def allocate_tid_def thread_current_def running_thread_def
        is_thread_def upd_thread_def sema_init_def launch_run created_def prepared_def fun_upd_twist Let_def)
qed

lemma create_result:
  assumes inv: "sync_inv L k" and n: "\<not> is_thread page k" "new_semas L page info k" "page \<noteq> NULL"
    and c: "thread_create page info pri k = Inr (tid, k')"
  shows "k' = created page info pri k"
proof -
  have p: "PRI_MIN \<le> pri" "pri \<le> PRI_MAX" "info \<noteq> NULL"
    using n(3) c by (auto simp: thread_create_def init_thread_def allocate_tid_def Let_def split: if_splits)
  have "page \<noteq> running k" using n(1) running_real [OF inv] by auto
  then show ?thesis
    using create_run [OF sync_invD(1) [OF inv] n(3) p thread_current_inv [OF sync_invD(2) [OF inv]] _ n(2)] c by simp
qed

lemma sync_inv_cong:
  assumes inv: "sync_inv L k"
    and f: "\<And>t. stat k' t = stat k t" "\<And>t. is_thread t k' \<longleftrightarrow> is_thread t k" "ready_list k' = ready_list k"
      "running k' = running k" "idle_thread k' = idle_thread k" "pend k' = pend k" "holders k' = holders k"
      "level k' = level k" "in_external_intr k' = in_external_intr k"
    and w: "\<And>s. waiters (semas k' s) = waiters (semas k s)"
    and v: "\<And>l. l \<in> L \<Longrightarrow> sema_value (semas k' (sema_of_lock l)) = sema_value (semas k (sema_of_lock l))"
  shows "sync_inv L k'"
proof -
  note si = sync_invD(2) [OF inv]
  have "queue_ok k'" using sched_invD(2) [OF si] by (simp add: queue_ok_def f)
  moreover have "running_ok k'" using sched_invD(3) [OF si] by (simp add: running_ok_def f)
  moreover have "wait_ok k'" using sched_invD(4) [OF si] by (simp add: wait_ok_def f w)
  moreover have "pend_ok L k'" using sched_invD(5) [OF si] by (simp add: pend_ok_def f)
  moreover have "lock_ok k' l" if "l \<in> L" for l
    by (rule lock_ok_cong [OF sync_invD(3) [OF inv that]]) (simp_all add: f v [OF that])
  ultimately show ?thesis using sync_invD(1) [OF inv] sched_invD(1) [OF si] by (simp add: sync_inv_def sched_inv_def f)
qed

lemma prepared_inv:
  assumes inv: "sync_inv L k" and n: "new_semas L page info k"
  shows "sync_inv L (prepared page info k)"
proof (rule sync_inv_cong [OF inv])
  note nn = n [unfolded new_semas_def, simplified]
  show "waiters (semas (prepared page info k) s) = waiters (semas k s)" for s
    using nn by (auto simp: prepared_def)
  show "sema_value (semas (prepared page info k) (sema_of_lock l)) = sema_value (semas k (sema_of_lock l))"
    if "l \<in> L" for l
    using nn that by (auto simp: prepared_def plain_sema_def)
qed (auto simp: prepared_def is_thread_def)

lemma new_thread_inv:
  assumes inv: "sync_inv L k" and n: "\<not> is_thread page k"
    and f: "idle_thread k' = idle_thread k" "holders k' = holders k" "running k' = running k"
    "level k' = level k" "in_external_intr k' = in_external_intr k" "semas k' = semas k"
    "ready_list k' = ready_list k @ [page]" "\<And>t. is_thread t k' \<longleftrightarrow> is_thread t k \<or> t = page"
    "\<And>t. stat k' t = (if t = page then THREAD_READY else stat k t)"
    "\<And>t. pend k' t = (if t = page then [Restore INTR_ON] else pend k t)"
  shows "sync_inv L k'"
proof -
  note si = sync_invD(2) [OF inv]
  note q = sched_invD(2) [OF si] and r = sched_invD(3) [OF si] and w = sched_invD(4) [OF si]
    and pd = sched_invD(5) [OF si]
  have ne: "page \<noteq> running k" "page \<noteq> idle_thread k" "page \<notin> set (ready_list k)"
    "page \<notin> set (waiters (semas k x))" for x
    using n running_okD(1) [OF r] queue_okD(1) [OF q] queue_okD(4) [OF q, of page] wait_okD(2) [OF w, of page x]
    by auto
  have "queue_ok k'"
  proof (rule queue_okI, unfold f)
    fix t
    show "(is_thread t k \<or> t = page) \<and> (if t = page then THREAD_READY else stat k t) = THREAD_READY"
      if "t \<in> set (ready_list k @ [page])"
      using that queue_okD(4,5) [OF q, of t] by auto
    show "t \<in> set (ready_list k @ [page]) \<or> t = idle_thread k"
      if "is_thread t k \<or> t = page" "(if t = page then THREAD_READY else stat k t) = THREAD_READY"
      using that queue_okD(6) [OF q, of t] by (auto split: if_splits)
  qed (use queue_okD(1-3) [OF q] ne(2,3) in auto)
  moreover have "running_ok k'"
    unfolding running_ok_def f
  proof (intro conjI allI impI)
    fix t assume "(is_thread t k \<or> t = page) \<and> (if t = page then THREAD_READY else stat k t) = THREAD_RUNNING"
    then show "t = running k" using running_okD(3) [OF r, of t] by (auto split: if_splits)
  qed (use running_okD(1,2) [OF r] ne(1) in auto)
  moreover have "wait_ok k'"
  proof (rule wait_okI, unfold f)
    fix t x
    show "(is_thread t k \<or> t = page) \<and> (if t = page then THREAD_READY else stat k t) = THREAD_BLOCKED \<and>
        t \<noteq> idle_thread k \<and> (\<exists>as. (if t = page then [Restore INTR_ON] else pend k t) = Down x # as)"
      if "t \<in> set (waiters (semas k x))"
      using that wait_okD(2-5) [OF w that] ne(4) [of x] by auto
    show "\<exists>x. t \<in> set (waiters (semas k x))"
      if "is_thread t k \<or> t = page" "(if t = page then THREAD_READY else stat k t) = THREAD_BLOCKED" "t \<noteq> idle_thread k"
      using that wait_okD(6) [OF w, of t] by (auto split: if_splits)
  qed (rule wait_okD(1) [OF w])
  moreover have "pend_ok L k'"
    using pend_okD [OF pd] ne(1,2) unfolding pend_ok_def f by auto
  moreover have "lock_ok k' l" if l: "l \<in> L" for l
    by (rule lock_ok_cong [OF sync_invD(3) [OF inv l]])
      (use pend_okD(3) [OF pd n] in \<open>auto simp: f holding_def releasing_def away_def split: if_splits\<close>)
  ultimately show ?thesis
    using sync_invD(1) [OF inv] sched_invD(1) [OF si] by (simp add: sync_inv_def sched_inv_def f)
qed

lemma create_inv:
  assumes inv: "sync_inv L k" and n: "\<not> is_thread page k" "new_semas L page info k"
    and c: "thread_create page info pri k = Inr (tid, k')"
  shows "sync_inv L k'"
proof (cases "page = NULL")
  case True
  then show ?thesis using c inv by (simp add: thread_create_def)
next
  case False
  have k': "k' = created page info pri k" using create_result [OF inv n False c] .
  have "\<not> is_thread page (prepared page info k)" using n(1) by (auto simp: prepared_def is_thread_def)
  then show ?thesis
    by (rule new_thread_inv [OF prepared_inv [OF inv n(2)]])
      (use False in \<open>auto simp: k' created_def prepared_def is_thread_def Let_def\<close>)
qed

section \<open>Interrupts\<close>

text \<open>The state in which an interrupt handler runs.\<close>

definition in_handler :: "ksync \<Rightarrow> ksync" where
  "in_handler k = k\<lparr>level := INTR_OFF, pend := (pend k)(running k := Restore INTR_ON # pend k (running k)),
     in_external_intr := True, yield_on_return := False\<rparr>"

lemma in_handler_inv:
  assumes inv: "sync_inv L k" and l: "level k = INTR_ON"
  shows "sched_inv L (in_handler k)" "\<forall>l \<in> L. lock_ok (in_handler k) l" "\<not> at_down (pend (in_handler k) (running k))"
proof -
  note si = sync_invD(2) [OF inv]
  note pd = pend_okD [OF sched_invD(5) [OF si]]
  have nd: "\<not> at_down (pend k (running k))" using pd(4) l by auto
  show "sched_inv L (in_handler k)"
    by (rule sched_pend_update [OF si, where p = "Restore INTR_ON # pend k (running k)"])
      (use pd(1,2) nd in \<open>auto simp: in_handler_def\<close>)
  show "\<forall>l \<in> L. lock_ok (in_handler k) l"
  proof
    fix l assume "l \<in> L"
    then show "lock_ok (in_handler k) l"
      by (intro lock_ok_cong [OF sync_invD(3) [OF inv]]) (auto simp: in_handler_def is_thread_def split: if_splits)
  qed
  show "\<not> at_down (pend (in_handler k) (running k))" by (simp add: in_handler_def)
qed

text \<open>A handler that keeps the invariant, does not switch threads and leaves interrupts off.\<close>

lemma external_interrupt_inv:
  assumes inv: "sync_inv L k" and l: "level k = INTR_ON"
    and h: "handler (in_handler k) = Inr k1" "sched_inv L k1" "\<forall>l \<in> L. lock_ok k1 l"
      "level k1 = INTR_OFF" "in_external_intr k1" "running k1 = running k" "pend k1 = pend (in_handler k)"
  shows "\<exists>k'. external_interrupt handler k = Inr k' \<and> sync_inv L k' \<and>
    (if yield_on_return k1
     then running k' = next_thread (yielding INTR_OFF k1) \<and> ready_list k' = tl (ready_list (yielding INTR_OFF k1))
     else running k' = running k \<and> ready_list k' = ready_list k1)"
proof -
  define k2 where "k2 = k1\<lparr>in_external_intr := False\<rparr>"
  have "sched_inv L k2" by (rule sched_inv_same [OF h(2)]) (use h in \<open>simp_all add: k2_def\<close>)
  moreover have "lock_ok k2 l" if "l \<in> L" for l
    by (rule lock_ok_cong [of k1]) (use h(3) that in \<open>auto simp: k2_def is_thread_def\<close>)
  ultimately have i2: "sync_inv L k2" by (simp add: sync_inv_def k2_def)
  have nd: "\<not> at_down (pend k2 (running k2))"
    using in_handler_inv(3) [OF inv l] h by (simp add: k2_def)
  have e: "external_interrupt handler k = (if yield_on_return k1 then thread_yield k2 else Inr k2)"
  proof -
    have "push_action (running k) (Restore INTR_ON) (k\<lparr>level := INTR_OFF\<rparr>)\<lparr>in_external_intr := True,
        yield_on_return := False\<rparr> = in_handler k"
      by (simp add: push_action_def in_handler_def)
    then show ?thesis using h sync_invD(1) [OF inv]
      by (simp add: external_interrupt_def intr_handler_ext_def intr_get_level_def intr_context_def
          push_action_def k2_def Let_def)
  qed
  have y: "next_thread (yielding (level k2) k2) = next_thread (yielding INTR_OFF k1)"
    "ready_list (yielding (level k2) k2) = ready_list (yielding INTR_OFF k1)"
    by (simp_all add: k2_def yielding_def next_thread_def)
  show ?thesis
    using thread_yield_inv [OF i2 nd] i2 y h(6) unfolding e by (auto simp: k2_def)
qed

lemma timer_result:
  assumes si: "sched_inv L k" and x: "in_external_intr k"
  shows "\<exists>k1. timer_interrupt k = Inr k1 \<and> thr k1 = thr k \<and> ready_list k1 = ready_list k \<and>
    running k1 = running k \<and> idle_thread k1 = idle_thread k \<and> semas k1 = semas k \<and> pend k1 = pend k \<and>
    holders k1 = holders k \<and> level k1 = level k \<and> in_external_intr k1 = in_external_intr k \<and>
    ticks k1 = ticks k + 1 \<and> thread_ticks k1 = thread_ticks k + 1 \<and>
    yield_on_return k1 = (yield_on_return k \<or> thread_ticks k + 1 \<ge> TIME_SLICE)"
proof -
  have "thread_current (k\<lparr>ticks := ticks k + 1\<rparr>) = Inr (running k)"
    using thread_current_inv [OF si] by (simp add: thread_current_def running_thread_def is_thread_def)
  then show ?thesis using x
    by (auto simp: timer_interrupt_def thread_tick_def intr_yield_on_return_def intr_context_def Let_def)
qed

lemma timer_inv:
  assumes inv: "sync_inv L k" and l: "level k = INTR_ON"
  shows "\<exists>k'. external_interrupt timer_interrupt k = Inr k' \<and> sync_inv L k' \<and> queue_step k k' \<and>
    (thread_ticks k + 1 \<ge> TIME_SLICE \<and> ready_list k \<noteq> [] \<longrightarrow> running k' = hd (ready_list k))"
proof -
  note h = in_handler_inv [OF inv l]
  have x: "in_external_intr (in_handler k)" by (simp add: in_handler_def)
  obtain k1 where k1: "timer_interrupt (in_handler k) = Inr k1" "thr k1 = thr (in_handler k)"
      "ready_list k1 = ready_list (in_handler k)" "running k1 = running (in_handler k)"
      "idle_thread k1 = idle_thread (in_handler k)" "semas k1 = semas (in_handler k)"
      "pend k1 = pend (in_handler k)" "holders k1 = holders (in_handler k)" "level k1 = level (in_handler k)"
      "in_external_intr k1 = in_external_intr (in_handler k)"
      "yield_on_return k1 = (yield_on_return (in_handler k) \<or> thread_ticks (in_handler k) + 1 \<ge> TIME_SLICE)"
    using timer_result [OF h(1) x] by blast
  have f: "running (in_handler k) = running k" "ready_list (in_handler k) = ready_list k"
    "level (in_handler k) = INTR_OFF" "yield_on_return (in_handler k) = False"
    "thread_ticks (in_handler k) = thread_ticks k" "idle_thread (in_handler k) = idle_thread k"
    by (simp_all add: in_handler_def)
  have s1: "sched_inv L k1" by (rule sched_inv_same [OF h(1) k1(2-7)]) (use k1(9) f in simp)
  have l1: "\<forall>l \<in> L. lock_ok k1 l"
  proof
    fix l assume "l \<in> L"
    then have "lock_ok (in_handler k) l" using h(2) by blast
    then show "lock_ok k1 l"
      by (rule lock_ok_cong) (auto simp only: k1(2,6-8) is_thread_def)
  qed
  have e: "level k1 = INTR_OFF" "in_external_intr k1" "running k1 = running k" "pend k1 = pend (in_handler k)"
    using k1(4,7,9,10) x f(1,3) by simp_all
  obtain k' where k': "external_interrupt timer_interrupt k = Inr k'" "sync_inv L k'"
      "if yield_on_return k1
       then running k' = next_thread (yielding INTR_OFF k1) \<and> ready_list k' = tl (ready_list (yielding INTR_OFF k1))
       else running k' = running k \<and> ready_list k' = ready_list k1"
    using external_interrupt_inv [of L k timer_interrupt k1, OF inv l k1(1) s1 l1 e] by blast
  have "queue_step k k'"
  proof (cases "yield_on_return k1")
    case True
    then have "queue_step k1 k'" using k'(3) queue_step_yield by auto
    then show ?thesis using k1(3-5) f by (simp add: queue_step_def)
  next
    case False
    then show ?thesis using k'(3) k1(3) f by (intro queue_stepI(1)) auto
  qed
  moreover have "running k' = hd (ready_list k)" if "thread_ticks k + 1 \<ge> TIME_SLICE" "ready_list k \<noteq> []"
    using that k'(3) k1 f by (auto simp: next_thread_def yielding_def)
  ultimately show ?thesis using k' by blast
qed

lemma device_inv:
  assumes inv: "sync_inv L k" and l: "level k = INTR_ON" and s: "plain_sema L s"
  shows "\<exists>k'. external_interrupt (sema_up s) k = Inr k' \<and> sync_inv L k' \<and> queue_step k k'"
proof -
  note h = in_handler_inv [OF inv l]
  have f: "running (in_handler k) = running k" "ready_list (in_handler k) = ready_list k"
    "level (in_handler k) = INTR_OFF" "yield_on_return (in_handler k) = False" "in_external_intr (in_handler k)"
    by (simp_all add: in_handler_def)
  have u: "sema_up s (in_handler k) = Inr (upped s (in_handler k))"
    using sema_up_result [OF h(1)] s f by (simp add: plain_sema_def)
  have l1: "\<forall>l \<in> L. lock_ok (upped s (in_handler k)) l"
    using h(2) upped_lock plain_value [OF s] by blast
  obtain k' where "external_interrupt (sema_up s) k = Inr k'" "sync_inv L k'" "running k' = running k"
      "ready_list k' = ready_list k @ take 1 (waiters (semas (in_handler k) s))"
    using external_interrupt_inv [of L k "sema_up s", OF inv l u upped_inv [OF h(1)] l1] f by (auto simp: upped_fields)
  then show ?thesis using queue_stepI(2) by blast
qed

section \<open>Every step keeps the invariant\<close>

lemma sema_try_down_frame:
  "sema_try_down s k = Inr (b, k') \<Longrightarrow> running k' = running k \<and> ready_list k' = ready_list k"
  by (auto simp: sema_try_down_def intr_disable_def intr_set_level_def intr_enable_def require_def bindR_def
      Let_def split: if_splits sum.splits)

lemma lock_try_acquire_frame:
  assumes "lock_try_acquire l k = Inr (b, k')"
  shows "running k' = running k \<and> ready_list k' = ready_list k"
  using assms sema_try_down_frame [of "sema_of_lock l" k]
  by (auto simp: lock_try_acquire_def require_def bindR_def split: if_splits sum.splits)

lemma lock_release_frame:
  "lock_release l k = Inr k' \<Longrightarrow> running k' = running k \<and> ready_list k' = ready_list k"
  by (auto simp: lock_release_def require_def bindR_def push_actions_def split: if_splits sum.splits)

lemma cond_wait_frame:
  "cond_wait w c l k = Inr k' \<Longrightarrow> running k' = running k \<and> ready_list k' = ready_list k"
  by (auto simp: cond_wait_def require_def bindR_def Let_def sema_init_def push_actions_def
      split: if_splits sum.splits dest!: lock_release_frame)

lemma sema_up_queue:
  assumes inv: "sync_inv L k" and s: "plain_sema L s"
  shows "sema_up s k = Inr (upped s k)" "sync_inv L (upped s k)" "queue_step k (upped s k)"
  using up_inv [OF inv s] queue_stepI(2) by (auto simp: upped_fields)

lemma cond_signal_queue:
  assumes inv: "sync_inv L k" and l: "l \<in> L"
    and w: "\<forall>w \<in> set (conds k c). plain_sema L (sema_of_waiter w)" and r: "cond_signal c l k = Inr k'"
  shows "queue_step k k'"
proof (cases "conds k c")
  case Nil
  then show ?thesis using r queue_stepI(1) [of k k]
    by (auto simp: cond_signal_def require_def bindR_def split: if_splits sum.splits)
next
  case (Cons v ws)
  let ?k = "k\<lparr>conds := (conds k)(c := ws)\<rparr>"
  have i: "sync_inv L ?k"
    by (rule sync_inv_same [OF inv]) (use sync_invD(1) [OF inv] pend_okD(4) [OF sched_invD(5) [OF sync_invD(2) [OF inv]]] in auto)
  have "sema_up (sema_of_waiter v) ?k = Inr k'" using r Cons
    by (auto simp: cond_signal_def require_def bindR_def split: if_splits sum.splits)
  then have "queue_step ?k k'" using sema_up_queue [OF i, of "sema_of_waiter v"] w Cons by simp
  then show ?thesis by (simp add: queue_step_def)
qed

lemma lock_acquire_step:
  assumes inv: "sync_inv L k" and l: "l \<in> L" and b: "between_calls k" and r: "lock_acquire l k = Inr k'"
  shows "sync_inv L k' \<and> queue_step k k'"
proof -
  have h: "holders k l \<noteq> running k"
    using r held_result [OF inv l] by (auto simp: lock_acquire_def require_def bindR_def split: if_splits)
  have "(pend k)(running k := []) = pend k" using b by (auto simp: between_calls_def)
  then show ?thesis using lock_acquire_inv [OF inv _ l _ h, of "[]"] b r queue_stepI(1) [of k' k]
    by (auto simp: between_calls_def)
qed

lemma sema_down_step:
  assumes inv: "sync_inv L k" and s: "plain_sema L s" and b: "between_calls k" and r: "sema_down s k = Inr k'"
  shows "sync_inv L k' \<and> queue_step k k'"
proof -
  have "(pend k)(running k := []) = pend k" using b by (auto simp: between_calls_def)
  then show ?thesis using sema_down_inv [OF inv _ s, of "[]"] b r queue_stepI(1) [of k' k]
    by (auto simp: between_calls_def)
qed

lemma create_queue:
  assumes inv: "sync_inv L k" and n: "\<not> is_thread page k" "new_semas L page info k"
    and c: "thread_create page info pri k = Inr (tid, k')"
  shows "queue_step k k'"
proof (cases "page = NULL")
  case True
  then show ?thesis using c queue_stepI(1) [of k k] by (simp add: thread_create_def)
next
  case False
  then show ?thesis using create_result [OF inv n False c] queue_stepI(2)
    by (auto simp: created_def prepared_def Let_def)
qed

lemma queue_step_dispatch:
  assumes "ready_list k1 = ready_list k @ new" "idle_thread k1 = idle_thread k" "running k' = next_thread k1"
    "ready_list k' = tl (ready_list k1)"
  shows "queue_step k k'"
proof -
  have "next_thread k1 = hd (ready_list k1 @ [idle_thread k1])"
    by (cases "ready_list k1") (simp_all add: next_thread_def)
  then show ?thesis using assms unfolding queue_step_def by (intro exI [of _ new] disjI2) simp
qed

lemma exit_step:
  assumes inv: "sync_inv L k" and b: "between_calls k" and h: "\<forall>l \<in> L. holders k l \<noteq> running k"
    and o: "own_info L k" and x: "thread_exit k = Inr k'"
  shows "sync_inv L k' \<and> queue_step k k'"
proof -
  let ?s = "exec_sema_of (t_info (thr k (running k)))" and ?w = "wait_sema_of (t_info (thr k (running k)))"
  define k1 where "k1 = k\<lparr>level := INTR_OFF\<rparr>"
  define k2 where "k2 = upped ?s k1"
  define k3 where "k3 = upped ?w k2"
  have p: "plain_sema L ?s" "plain_sema L ?w" using o by (auto simp: own_info_def Let_def)
  have i1: "sync_inv L k1"
    by (rule sync_inv_same [OF inv]) (use sync_invD(1) [OF inv] b in \<open>auto simp: k1_def\<close>)
  note u2 = sema_up_queue [OF i1 p(1), folded k2_def]
  note u3 = sema_up_queue [OF u2(2) p(2), folded k3_def]
  have r: "running k1 = running k" "running k2 = running k" "running k3 = running k"
    by (simp_all add: k1_def k2_def k3_def upped_fields)
  have t: "t_info (thr k1 (running k)) = t_info (thr k (running k))"
    "t_info (thr k2 (running k)) = t_info (thr k (running k))"
    by (simp_all add: k1_def k2_def upped_def)
  have "schedule (set_status (running k) THREAD_DYING k3) = Inr k'"
    using x sync_invD(1) [OF inv] u2(1) u3(1) thread_current_inv [OF sync_invD(2) [OF i1]]
      thread_current_inv [OF sync_invD(2) [OF u2(2)]] thread_current_inv [OF sync_invD(2) [OF u3(2)]]
    by (auto simp: thread_exit_def intr_context_def intr_disable_def intr_get_level_def r t k1_def [symmetric]
        split: if_splits)
  moreover have "between_calls k3" using b by (simp add: between_calls_def k1_def k2_def k3_def upped_fields)
  moreover have "\<forall>l \<in> L. holders k3 l \<noteq> running k3" using h by (simp add: k1_def k2_def k3_def upped_fields)
  moreover have "level k3 = INTR_OFF" by (simp add: k1_def k2_def k3_def upped_fields)
  ultimately have d: "sync_inv L k' \<and> running k' = next_thread k3 \<and> ready_list k' = tl (ready_list k3)"
    using dying_inv [OF u3(2)] r by auto
  have "ready_list k3 = ready_list k @ take 1 (waiters (semas k1 ?s)) @ take 1 (waiters (semas k2 ?w))"
    "idle_thread k3 = idle_thread k"
    by (simp_all add: k3_def k2_def upped_fields) (simp_all add: k1_def)
  then show ?thesis using d queue_step_dispatch [of k3 k] by simp
qed

lemma step_inv:
  assumes "step L k k'" and inv: "sync_inv L k"
  shows "sync_inv L k' \<and> queue_step k k'"
  using assms(1)
proof cases
  case act then show ?thesis using run_action_inv [OF inv] by auto
next
  case (down s) then show ?thesis using sema_down_step [OF inv] by blast
next
  case (up s) then show ?thesis using sema_up_queue [OF inv] by auto
next
  case (try_down s b) then show ?thesis
    using sema_try_down_inv [OF inv] sema_try_down_frame queue_stepI(1) by blast
next
  case (acquire l) then show ?thesis using lock_acquire_step [OF inv] by blast
next
  case (try_acquire l b) then show ?thesis
    using lock_try_acquire_inv [OF inv] lock_try_acquire_frame queue_stepI(1) by (auto simp: between_calls_def)
next
  case (release l) then show ?thesis using lock_release_inv [OF inv] lock_release_frame queue_stepI(1) by blast
next
  case (wait l w c) then show ?thesis using cond_wait_inv [OF inv] cond_wait_frame queue_stepI(1) by blast
next
  case (signal l c) then show ?thesis using cond_signal_inv [OF inv] cond_signal_queue [OF inv] by blast
next
  case yield then show ?thesis using thread_yield_inv [OF inv] queue_step_yield by fastforce
next
  case idle then show ?thesis using idle_inv [OF inv] queue_stepI(3) by fastforce
next
  case exit then show ?thesis using exit_step [OF inv] by blast
next
  case (create page info priority tid) then show ?thesis using create_inv [OF inv] create_queue [OF inv] by blast
next
  case timer then show ?thesis using timer_inv [OF inv] by fastforce
next
  case (device s) then show ?thesis using device_inv [OF inv] by fastforce
qed

end
