(* ===== verification/Ksynch_Props.thy ===== *)
theory Ksynch_Props
  imports Ksynch_Inv
begin

text \<open>
  Starting the scheduler, as \<^verbatim>\<open>thread_init\<close>, \<^verbatim>\<open>thread_start\<close> and the first lines of \<^verbatim>\<open>idle\<close> do it,
  and what holds in every state the machine reaches from there.
\<close>

section \<open>Starting the scheduler\<close>

definition thread_init :: "ptr \<Rightarrow> ksync \<Rightarrow> ksync res" where
  "thread_init tid_lock k = require (intr_get_level k = INTR_OFF)
     (bindR (lock_init tid_lock k) (\<lambda>k.
      let t = running_thread k;
          k = k\<lparr>ready_list := [], initial_thread := t\<rparr>
      in bindR (init_thread t PRI_DEFAULT k) (\<lambda>k.
        let k = set_status t THREAD_RUNNING k;
            (tid, k) = allocate_tid k
        in Inr (k\<lparr>thr := (thr k)(t := (thr k t)\<lparr>t_tid := tid\<rparr>)\<rparr>))))"

definition thread_start :: "ptr \<Rightarrow> ptr \<Rightarrow> ptr \<Rightarrow> ksync \<Rightarrow> ksync res" where
  "thread_start idle_started idle_page idle_info k =
     bindR (sema_init idle_started 0 k) (\<lambda>k.
     bindR (thread_create idle_page idle_info PRI_MIN k) (\<lambda>(_, k).
     bindR (intr_enable k) (\<lambda>(_, k).
     sema_down idle_started k)))"

definition idle_prologue :: "ptr \<Rightarrow> ksync \<Rightarrow> ksync res" where
  "idle_prologue idle_started k = bindR (thread_current k) (\<lambda>t.
     sema_up idle_started (k\<lparr>idle_thread := t\<rparr>))"

text \<open>
  The initial thread blocks on \<open>idle_started\<close>, the idle thread is dispatched, enables interrupts
  and announces itself.
\<close>

definition boot :: "ptr \<Rightarrow> ptr \<Rightarrow> ptr \<Rightarrow> ptr \<Rightarrow> ksync \<Rightarrow> ksync res" where
  "boot tid_lock idle_started idle_page idle_info k =
     bindR (thread_init tid_lock k) (\<lambda>k.
     bindR (thread_start idle_started idle_page idle_info k) (\<lambda>k.
     bindR (run_action k) (\<lambda>k.
     bindR (run_action k) (\<lambda>k.
     idle_prologue idle_started k))))"

text \<open>
  The machine as the loader leaves it: interrupts off, no thread yet, nobody waiting, and the
  kernel's other locks initialised. The semaphore \<open>s\<close> on the initial thread's stack and the
  memory of the idle thread overlap neither each other nor a lock.
\<close>

definition fresh :: "ptr set \<Rightarrow> ksync \<Rightarrow> bool" where
  "fresh L k \<longleftrightarrow> valid_locks L \<and> level k = INTR_OFF \<and> \<not> in_external_intr k \<and> running k \<noteq> NULL \<and>
     pend k = (\<lambda>_. []) \<and> idle_thread k = NULL \<and> (\<forall>t. \<not> is_thread t k) \<and> (\<forall>s. waiters (semas k s) = []) \<and>
     (\<forall>l \<in> L. holders k l = NULL \<and> sema_value (semas k (sema_of_lock l)) = 1)"

definition idle_memory :: "ptr set \<Rightarrow> ptr \<Rightarrow> ptr \<Rightarrow> ptr \<Rightarrow> ksync \<Rightarrow> bool" where
  "idle_memory L s page info k \<longleftrightarrow> plain_sema L s \<and> page \<noteq> NULL \<and> page \<noteq> running k \<and> info \<noteq> NULL \<and>
     (\<forall>x \<in> {wait_sema_of info, exec_sema_of info, sup_page_sema_of page}. plain_sema L x \<and> x \<noteq> s)"

text \<open>The states the start-up passes through.\<close>

definition with_main :: "ptr \<Rightarrow> ksync \<Rightarrow> ksync" where
  "with_main tid_lock k = k\<lparr>ready_list := [], initial_thread := running k, next_tid := next_tid k + 1,
     thr := (thr k)(running k := \<lparr>t_tid = next_tid k, t_status = THREAD_RUNNING, t_priority = PRI_DEFAULT,
       t_stack = running k + PGSIZE, t_pagedir = NULL, t_children = [], t_child_infos = [], t_parent = NULL,
       t_exit_status = 0, t_info = NULL, t_magic = THREAD_MAGIC\<rparr>),
     semas := (semas k)(sema_of_lock tid_lock := \<lparr>sema_value = 1, waiters = []\<rparr>),
     holders := (holders k)(tid_lock := NULL)\<rparr>"

lemma thread_init_result:
  assumes "fresh L k" "tid_lock \<in> L"
  shows "thread_init tid_lock k = Inr (with_main tid_lock k)"
  using assms
  by (simp add: thread_init_def with_main_def fresh_def valid_locks_def intr_get_level_def lock_init_def
      sema_init_def running_thread_def init_thread_def set_status_def allocate_tid_def PRI_MIN_def PRI_MAX_def
      PRI_DEFAULT_def Let_def)

definition with_idle :: "ptr \<Rightarrow> ptr \<Rightarrow> ptr \<Rightarrow> ksync \<Rightarrow> ksync" where
  "with_idle s page info k = (let k1 = created page info PRI_MIN (k\<lparr>semas := (semas k)(s := \<lparr>sema_value = 0, waiters = []\<rparr>)\<rparr>)
     in k1\<lparr>level := INTR_OFF, pend := (pend k1)(running k := [Down s, Restore INTR_ON])\<rparr>)"

lemma thread_start_result:
  assumes "\<not> in_external_intr k" "pend k (running k) = []" "thread_current k = Inr (running k)"
    and m: "idle_memory L s page info k" "\<And>s. waiters (semas k s) = []"
  shows "thread_start s page info k = Inr (with_idle s page info k)"
proof -
  let ?k = "k\<lparr>semas := (semas k)(s := \<lparr>sema_value = 0, waiters = []\<rparr>)\<rparr>"
  have "new_semas L page info ?k" "thread_current ?k = Inr (running k)"
    using m assms(3) by (auto simp: idle_memory_def new_semas_def thread_current_def running_thread_def is_thread_def Let_def)
  then have "thread_create page info PRI_MIN ?k = Inr (next_tid k, created page info PRI_MIN ?k)"
    using create_run [of ?k page PRI_MIN info L] assms(1) m(1) by (simp add: idle_memory_def PRI_MIN_def PRI_MAX_def)
  moreover have "s \<noteq> NULL" "running k \<noteq> page" using m(1) by (auto simp: idle_memory_def plain_sema_def)
  ultimately show ?thesis
    using assms(1,2)
    by (simp add: thread_start_def sema_init_def intr_enable_def intr_context_def
        intr_get_level_def sema_down_def intr_disable_def push_actions_def with_idle_def created_def prepared_def Let_def)
qed

definition main_waiting :: "ptr \<Rightarrow> ksync \<Rightarrow> ksync" where
  "main_waiting s k = set_status (running k) THREAD_BLOCKED
     (k\<lparr>semas := (semas k)(s := (semas k s)\<lparr>waiters := waiters (semas k s) @ [running k]\<rparr>)\<rparr>)"

lemma main_blocks:
  assumes "pend k (running k) = Down s # as" "sema_value (semas k s) = 0" "thread_current k = Inr (running k)"
    "level k = INTR_OFF" "\<not> in_external_intr k"
  shows "run_action k = schedule (main_waiting s k)"
  using assms
  by (simp add: run_action_def sema_down_loop_def thread_block_def main_waiting_def intr_context_def
      intr_get_level_def thread_current_def running_thread_def is_thread_def Let_def)

definition idle_semas :: "ptr \<Rightarrow> ptr \<Rightarrow> ptr \<Rightarrow> ptr \<Rightarrow> ksync \<Rightarrow> ptr \<Rightarrow> semaphore" where
  "idle_semas tid_lock s page info k = (semas (prepared page info (with_main tid_lock k)))
     (s := \<lparr>sema_value = 0, waiters = [running k]\<rparr>)"

lemma idle_dispatched:
  assumes f: "fresh L k" and t: "tid_lock \<in> L" and m: "idle_memory L s page info k"
  defines "k2 \<equiv> with_idle s page info (with_main tid_lock k)"
  shows "\<exists>k3. run_action k2 = Inr k3 \<and> running k3 = page \<and> ready_list k3 = [] \<and> \<not> in_external_intr k3 \<and>
    (\<forall>t. is_thread t k3 \<longleftrightarrow> t = page \<or> t = running k) \<and> stat k3 page = THREAD_RUNNING \<and>
    stat k3 (running k) = THREAD_BLOCKED \<and> pend k3 = (\<lambda>_. [])(page := [Restore INTR_ON],
      running k := [Down s, Restore INTR_ON]) \<and>
    semas k3 = idle_semas tid_lock s page info k \<and> holders k3 = (holders k)(tid_lock := NULL)"
proof -
  define k2b where "k2b = main_waiting s k2"
  have fr: "level k = INTR_OFF" "\<not> in_external_intr k" "running k \<noteq> NULL" "pend k = (\<lambda>_. [])"
    "\<And>t. \<not> is_thread t k" using f by (auto simp: fresh_def)
  have p: "page \<noteq> NULL" "page \<noteq> running k" and
    d: "wait_sema_of info \<noteq> s" "exec_sema_of info \<noteq> s" "sup_page_sema_of page \<noteq> s"
    using m by (auto simp: idle_memory_def)
  note start = k2_def with_idle_def created_def prepared_def with_main_def Let_def
  have sem: "semas k2 s = \<lparr>sema_value = 0, waiters = []\<rparr>" using d by (simp add: start)
  have g: "level k2b = INTR_OFF" "running k2b = running k" "ready_list k2b = [page]" "\<not> in_external_intr k2b"
    "pend k2b = (\<lambda>_. [])(page := [Restore INTR_ON], running k := [Down s, Restore INTR_ON])"
    "semas k2b = idle_semas tid_lock s page info k"
    "holders k2b = (holders k)(tid_lock := NULL)" "initial_thread k2b = running k"
    "\<And>t. is_thread t k2b \<longleftrightarrow> t = page \<or> t = running k"
    "stat k2b page = THREAD_READY" "stat k2b (running k) = THREAD_BLOCKED"
    using fr p d sem by (auto simp: k2b_def main_waiting_def set_status_def start is_thread_def idle_semas_def fun_eq_iff)
  have n: "next_thread k2b = page" using g by (simp add: next_thread_def)
  have "run_action k2 = schedule k2b"
    unfolding k2b_def
    by (rule main_blocks) (use fr p sem in \<open>auto simp: start thread_current_def
        running_thread_def is_thread_def set_status_def\<close>)
  moreover have "\<not> reaped k2b t" for t using g by (auto simp: reaped_def)
  ultimately show ?thesis
    using schedule_result [of k2b] g n p by (auto simp: same_sync_def)
qed

lemma announced_inv:
  assumes f: "fresh L k" and t: "tid_lock \<in> L" and m: "idle_memory L s page info k"
    and g: "running k4 = page" "idle_thread k4 = page" "ready_list k4 = []" "\<not> in_external_intr k4"
    "\<And>t. is_thread t k4 \<longleftrightarrow> t = page \<or> t = running k" "stat k4 page = THREAD_RUNNING"
    "stat k4 (running k) = THREAD_BLOCKED" "pend k4 = (\<lambda>_. [])(running k := [Down s, Restore INTR_ON])"
    "semas k4 = idle_semas tid_lock s page info k"
    "holders k4 = (holders k)(tid_lock := NULL)"
  shows "sync_inv L k4"
proof -
  have fr: "valid_locks L" "running k \<noteq> NULL" "\<And>s. waiters (semas k s) = []"
    "\<And>l. l \<in> L \<Longrightarrow> holders k l = NULL \<and> sema_value (semas k (sema_of_lock l)) = 1"
    using f by (auto simp: fresh_def)
  have p: "page \<noteq> NULL" "page \<noteq> running k" and s: "plain_sema L s" using m by (auto simp: idle_memory_def)
  have w: "waiters (semas k4 x) = (if x = s then [running k] else [])" for x
    by (simp add: g idle_semas_def prepared_def with_main_def fr)
  have v: "sema_value (semas k4 (sema_of_lock l)) = 1" if "l \<in> L" for l
    using fr(4) [OF that] m that
    by (auto simp: g idle_semas_def prepared_def with_main_def idle_memory_def plain_sema_def)
  have c: "core (pend k4 x) = (if x = running k then [Down s] else [])" for x by (simp add: g)
  have "queue_ok k4" using g p by (auto simp: queue_ok_def)
  moreover have "running_ok k4" using g p by (auto simp: running_ok_def)
  moreover have "wait_ok k4" using g(2,5-8) p by (auto simp: wait_ok_def w)
  moreover have "pend_ok L k4" using g p s by (auto simp: pend_ok_def shape_def at_down_def)
  moreover have "lock_ok k4 l" if "l \<in> L" for l
    using v [OF that] fr(4) [OF that]
    by (auto simp: lock_ok_def owns_def holding_def releasing_def away_def c g(10) split: if_splits)
  ultimately show ?thesis using fr(1) g by (simp add: sync_inv_def sched_inv_def)
qed

lemma boot_ok:
  assumes f: "fresh L k" and t: "tid_lock \<in> L" and m: "idle_memory L s page info k"
  shows "\<exists>k'. boot tid_lock s page info k = Inr k' \<and> sync_inv L k'"
proof -
  define k2 where "k2 = with_idle s page info (with_main tid_lock k)"
  have fr: "\<not> in_external_intr k" "running k \<noteq> NULL" "pend k = (\<lambda>_. [])" "\<And>s. waiters (semas k s) = []"
    using f by (auto simp: fresh_def)
  have p: "page \<noteq> NULL" "page \<noteq> running k" and s: "plain_sema L s" using m by (auto simp: idle_memory_def)
  have i: "thread_init tid_lock k = Inr (with_main tid_lock k)" by (rule thread_init_result [OF f t])
  have st: "thread_start s page info (with_main tid_lock k) = Inr k2"
    unfolding k2_def
    by (rule thread_start_result [of _ L])
      (use fr m in \<open>simp_all add: with_main_def thread_current_def running_thread_def is_thread_def idle_memory_def Let_def\<close>)
  obtain k3 where k3: "run_action k2 = Inr k3" "running k3 = page" "ready_list k3 = []" "\<not> in_external_intr k3"
      "\<And>t. is_thread t k3 \<longleftrightarrow> t = page \<or> t = running k" "stat k3 page = THREAD_RUNNING"
      "stat k3 (running k) = THREAD_BLOCKED"
      "pend k3 = (\<lambda>_. [])(page := [Restore INTR_ON], running k := [Down s, Restore INTR_ON])"
      "semas k3 = idle_semas tid_lock s page info k" "holders k3 = (holders k)(tid_lock := NULL)"
    using idle_dispatched [OF f t m] unfolding k2_def by blast
  define k4 where "k4 = k3\<lparr>pend := (pend k3)(page := []), level := INTR_ON\<rparr>"
  have r: "run_action k3 = Inr k4"
    using k3(2,4,8) p by (simp add: run_action_def intr_set_level_def intr_enable_def intr_context_def
        pop_action_def k4_def Let_def fun_upd_twist)
  have cur: "thread_current k4 = Inr page"
    using k3 by (simp add: thread_current_def running_thread_def k4_def is_thread_def Let_def)
  have "sync_inv L (k4\<lparr>idle_thread := page\<rparr>)"
    by (rule announced_inv [OF f t m]) (use k3 p in \<open>auto simp: k4_def is_thread_def fun_eq_iff\<close>)
  then show ?thesis
    using i st k3(1) r cur sema_up_queue [of L "k4\<lparr>idle_thread := page\<rparr>" s] s
    by (simp add: boot_def idle_prologue_def)
qed

section \<open>Every reachable state\<close>

definition reach :: "ptr set \<Rightarrow> ksync \<Rightarrow> ksync \<Rightarrow> bool" where
  "reach L = (step L)\<^sup>*\<^sup>*"

lemma reach_inv: "reach L k0 k \<Longrightarrow> sync_inv L k0 \<Longrightarrow> sync_inv L k"
  unfolding reach_def by (induction rule: rtranclp_induct) (use step_inv in blast)+

definition started :: "ptr set \<Rightarrow> ksync \<Rightarrow> bool" where
  "started L k0 \<longleftrightarrow> (\<exists>k tid_lock s page info. fresh L k \<and> tid_lock \<in> L \<and> idle_memory L s page info k \<and>
     boot tid_lock s page info k = Inr k0)"

lemma started_inv: "started L k0 \<Longrightarrow> sync_inv L k0"
  using boot_ok by (fastforce simp: started_def)

lemma reachable_inv: "started L k0 \<Longrightarrow> reach L k0 k \<Longrightarrow> sync_inv L k"
  using reach_inv started_inv by blast

text \<open>
  A run in which a given thread never becomes the running one, counting how often the head of the
  run queue is dispatched.
\<close>

definition dispatch :: "ksync \<Rightarrow> ksync \<Rightarrow> bool" where
  "dispatch k k' \<longleftrightarrow> ready_list k \<noteq> [] \<and> hd (ready_list k) \<notin> set (ready_list k') \<and> running k' = hd (ready_list k)"

inductive passed_over :: "ptr set \<Rightarrow> ptr \<Rightarrow> ksync \<Rightarrow> nat \<Rightarrow> ksync \<Rightarrow> bool" for L t k where
  start: "passed_over L t k 0 k"
| other: "passed_over L t k n k1 \<Longrightarrow> step L k1 k2 \<Longrightarrow> running k2 \<noteq> t \<Longrightarrow> \<not> dispatch k1 k2 \<Longrightarrow> passed_over L t k n k2"
| pass: "passed_over L t k n k1 \<Longrightarrow> step L k1 k2 \<Longrightarrow> running k2 \<noteq> t \<Longrightarrow> dispatch k1 k2 \<Longrightarrow> passed_over L t k (Suc n) k2"

lemma queue_position:
  assumes inv: "sync_inv L k" and st: "step L k k'" and q: "ready_list k = xs @ t # ys" and r: "running k' \<noteq> t"
  shows "if dispatch k k' then xs \<noteq> [] \<and> (\<exists>zs. ready_list k' = tl xs @ t # zs)
    else \<exists>zs. ready_list k' = xs @ t # zs"
proof -
  have inv': "sync_inv L k'" and qs: "queue_step k k'" using step_inv [OF st inv] by simp_all
  have d: "distinct (ready_list k')" "running k' \<notin> set (ready_list k')"
    using queue_okD [OF sched_invD(2) [OF sync_invD(2) [OF inv']]]
      running_okD [OF sched_invD(3) [OF sync_invD(2) [OF inv']]] by force+
  from qs obtain new where "ready_list k' = ready_list k @ new \<and> running k' = running k \<or>
      ready_list k' = tl (ready_list k @ new) \<and> running k' = hd (ready_list k @ new @ [idle_thread k])"
    by (auto simp: queue_step_def)
  then show ?thesis
  proof
    assume a: "ready_list k' = ready_list k @ new \<and> running k' = running k"
    then have "\<not> dispatch k k'" using hd_in_set [of "ready_list k"] by (auto simp: dispatch_def)
    then show ?thesis using a q by simp
  next
    assume b: "ready_list k' = tl (ready_list k @ new) \<and> running k' = hd (ready_list k @ new @ [idle_thread k])"
    then have "dispatch k k'" using d(2) q by (cases xs) (auto simp: dispatch_def)
    moreover have "xs \<noteq> []" using b q r by (cases xs) auto
    ultimately show ?thesis using b q by (cases xs) auto
  qed
qed

lemma passed_over_position:
  assumes "passed_over L t k n k'" "sync_inv L k" "ready_list k = xs @ t # ys"
  shows "sync_inv L k' \<and> n \<le> length xs \<and> (\<exists>zs. ready_list k' = drop n xs @ t # zs)"
  using assms(1)
proof induction
  case start
  then show ?case using assms by simp
next
  case (other n k1 k2)
  then show ?case using queue_position [of L k1 k2 "drop n xs" t] step_inv by fastforce
next
  case (pass n k1 k2)
  then obtain zs where z: "ready_list k1 = drop n xs @ t # zs" by blast
  have "drop n xs \<noteq> []" "\<exists>zs. ready_list k2 = tl (drop n xs) @ t # zs"
    using queue_position [OF _ pass(2) z pass(3)] pass by auto
  then show ?case using step_inv [OF pass(2)] pass by (auto simp: drop_Suc tl_drop)
qed

section \<open>A small machine\<close>

text \<open>
  One lock at address 100; the initial thread's page is at 0x10000 and the idle thread's page at
  0x20000.
\<close>

definition demo_loaded :: ksync where
  "demo_loaded = \<lparr>thr = (\<lambda>_. \<lparr>t_tid = 0, t_status = THREAD_DYING, t_priority = 0, t_stack = 0, t_pagedir = 0,
       t_children = [], t_child_infos = [], t_parent = 0, t_exit_status = 0, t_info = 0, t_magic = 0\<rparr>),
     ready_list = [], running = 0x10000, idle_thread = 0, initial_thread = 0, next_tid = 1, level = INTR_OFF,
     in_external_intr = False, yield_on_return = False, thread_ticks = 0, idle_ticks = 0, kernel_ticks = 0,
     user_ticks = 0, ticks = 0, pend = (\<lambda>_. []), freed_pages = [],
     semas = (\<lambda>_. \<lparr>sema_value = 1, waiters = []\<rparr>), holders = (\<lambda>_. 0), conds = (\<lambda>_. []),
     infos = (\<lambda>_. \<lparr>i_tid = 0, i_load_success = False, i_exit_status = 0, i_waited = False, i_killed = False\<rparr>)\<rparr>"

lemmas machine_defs = boot_def thread_init_def thread_start_def idle_prologue_def lock_init_def sema_init_def
  intr_get_level_def init_thread_def PRI_MIN_def PRI_DEFAULT_def PRI_MAX_def allocate_tid_def set_status_def
  thread_create_def thread_launch_def upd_thread_def alloc_frame_def is_thread_def running_thread_def intr_enable_def intr_context_def
  sema_down_def intr_disable_def push_actions_def thread_unblock_def run_action_def sema_down_loop_def
  thread_current_def thread_block_def schedule_def next_thread_to_run_def switch_threads_def schedule_tail_def
  sema_up_def intr_set_level_def pop_action_def lock_acquire_def lock_held_by_current_thread_def
  sema_of_lock_def wait_sema_of_def exec_sema_of_def sup_page_sema_of_def between_calls_def Let_def

text \<open>
  The machine boots, the idle thread blocks itself, the initial thread finishes \<^verbatim>\<open>thread_start\<close> and
  acquires the lock.
\<close>

definition demo_start :: "ksync res" where
  "demo_start = bindR (boot 100 200 0x20000 0x500 demo_loaded) (\<lambda>k.
     require (pend k (running k) = [] \<and> running k = idle_thread k)
     (bindR (thread_block (push_actions [Restore INTR_ON] (k\<lparr>level := INTR_OFF\<rparr>))) (\<lambda>k.
      bindR (run_action k) run_action)))"

definition demo_run :: "ksync res" where
  "demo_run = bindR demo_start (\<lambda>k. require (between_calls k)
     (bindR (lock_acquire 100 k) (\<lambda>k. bindR (run_action k) (\<lambda>k. bindR (run_action k) run_action))))"

lemma demo_fresh: "fresh {100} demo_loaded"
  by (simp add: fresh_def demo_loaded_def valid_locks_def is_thread_def THREAD_MAGIC_def sema_of_lock_def)

lemma run_action_reach: "run_action k = Inr k' \<Longrightarrow> reach L k k'"
  by (cases "pend k (running k) = []")
    (auto simp: reach_def run_action_def Let_def intro: r_into_rtranclp step.act [unfolded run_action_def Let_def])

lemma step_reach: "step L k k' \<Longrightarrow> reach L k k'"
  by (auto simp: reach_def)

lemma reach_trans: "reach L k k' \<Longrightarrow> reach L k' k'' \<Longrightarrow> reach L k k''"
  by (auto simp: reach_def)

lemma demo_start_reach:
  assumes "demo_start = Inr k"
  shows "\<exists>k0. started {100} k0 \<and> reach {100} k0 k"
proof -
  from assms [unfolded demo_start_def] obtain k0 k1 k2 where k: "boot 100 200 0x20000 0x500 demo_loaded = Inr k0"
      "pend k0 (running k0) = []" "running k0 = idle_thread k0"
      "thread_block (push_actions [Restore INTR_ON] (k0\<lparr>level := INTR_OFF\<rparr>)) = Inr k1"
      "run_action k1 = Inr k2" "run_action k2 = Inr k"
    by auto
  have "started {100} k0"
    unfolding started_def
    by (rule exI [of _ demo_loaded], rule exI [of _ 100], rule exI [of _ 200], rule exI [of _ "0x20000"],
        rule exI [of _ "0x500"])
      (use demo_fresh k(1) in \<open>simp add: idle_memory_def plain_sema_def sema_of_lock_def demo_loaded_def
        wait_sema_of_def exec_sema_of_def sup_page_sema_of_def\<close>)
  moreover have "reach {100} k0 k"
    by (rule reach_trans [OF step_reach [OF step.idle [OF k(2-4)]]
          reach_trans [OF run_action_reach [OF k(5)] run_action_reach [OF k(6)]]])
  ultimately show ?thesis by blast
qed

lemma demo_run_reach:
  assumes "demo_run = Inr k"
  shows "\<exists>k0. started {100} k0 \<and> reach {100} k0 k"
proof -
  from assms [unfolded demo_run_def] obtain k1 k2 k3 k4 where k: "demo_start = Inr k1" "between_calls k1" "lock_acquire 100 k1 = Inr k2"
      "run_action k2 = Inr k3" "run_action k3 = Inr k4" "run_action k4 = Inr k"
    by auto
  have "step {100} k1 k2" using step.acquire [OF k(2) _ k(3), of "{100}"] by simp
  note path = reach_trans [OF step_reach [OF this] reach_trans [OF run_action_reach [OF k(4)]
      reach_trans [OF run_action_reach [OF k(5)] run_action_reach [OF k(6)]]]]
  obtain k0 where "started {100} k0" "reach {100} k0 k1" using demo_start_reach [OF k(1)] by blast
  then show ?thesis using reach_trans [OF _ path] by blast
qed

text \<open>Running a concrete machine: a call is evaluated before what follows it.\<close>

lemma bindR_weak: "m = m' \<Longrightarrow> bindR m f = bindR m' f"
  by simp

lemma demo_run_eval: "\<exists>k. demo_run = Inr k \<and> holders k 100 = 0x10000 \<and> running k = 0x10000"
  by (simp add: demo_run_def demo_start_def demo_loaded_def machine_defs
      del: bindR_eq_Inr require_eq_Inr cong: bindR_weak)

lemma demo_run_ok: "\<exists>k k0. demo_run = Inr k \<and> holders k 100 = 0x10000 \<and> running k = 0x10000 \<and>
    started {100} k0 \<and> reach {100} k0 k"
proof -
  obtain k where "demo_run = Inr k" "holders k 100 = 0x10000" "running k = 0x10000"
    using demo_run_eval by (elim exE conjE)
  then show ?thesis using demo_run_reach [of k] by fastforce
qed

text \<open>
  After the start, the initial thread creates two more threads, and the timer interrupts it three
  times.
\<close>

definition demo_threads :: "ksync res" where
  "demo_threads = bindR demo_start (\<lambda>k. require (between_calls k \<and> \<not> is_thread 0x30000 k \<and> new_semas {100} 0x30000 0x600 k)
     (bindR (thread_create 0x30000 0x600 31 k) (\<lambda>(_, k).
      require (between_calls k \<and> \<not> is_thread 0x40000 k \<and> new_semas {100} 0x40000 0x700 k)
     (bindR (thread_create 0x40000 0x700 31 k) (\<lambda>(_, k). Inr k)))))"

definition demo_tick :: "ksync \<Rightarrow> ksync res" where
  "demo_tick k = require (level k = INTR_ON)
     (bindR (external_interrupt timer_interrupt k) run_action)"

definition demo_ticked :: "ksync res" where
  "demo_ticked = bindR demo_threads (\<lambda>k. bindR (demo_tick k) (\<lambda>k. bindR (demo_tick k) demo_tick))"

lemma demo_threads_eval: "\<exists>k. demo_threads = Inr k \<and> ready_list k = [0x30000, 0x40000] \<and>
    running k = 0x10000 \<and> pend k 0x10000 = [] \<and> level k = INTR_ON \<and> \<not> in_external_intr k \<and>
    thread_current k = Inr 0x10000 \<and> thread_ticks k = 0"
  by (simp add: demo_threads_def demo_start_def demo_loaded_def machine_defs THREAD_MAGIC_def
      new_semas_def plain_sema_def del: bindR_eq_Inr require_eq_Inr cong: bindR_weak)

lemma demo_tick_quiet:
  assumes "level k = INTR_ON" "\<not> in_external_intr k" "thread_current k = Inr t" "thread_ticks k + 1 < TIME_SLICE"
  shows "\<exists>k'. demo_tick k = Inr k' \<and> level k' = INTR_ON \<and> \<not> in_external_intr k' \<and> thread_current k' = Inr t \<and>
    thread_ticks k' = thread_ticks k + 1 \<and> ready_list k' = ready_list k"
  using assms
  by (auto simp: demo_tick_def external_interrupt_def intr_handler_ext_def push_action_def timer_interrupt_def
      thread_tick_def intr_get_level_def intr_context_def run_action_def intr_set_level_def intr_enable_def
      pop_action_def thread_current_def running_thread_def is_thread_def Let_def)

lemma demo_ticked_eval: "\<exists>k. demo_ticked = Inr k \<and> ready_list k = [0x30000, 0x40000] \<and>
    level k = INTR_ON \<and> thread_ticks k = 3"
proof -
  obtain k0 where k0: "demo_threads = Inr k0" "ready_list k0 = [0x30000, 0x40000]" "level k0 = INTR_ON"
      "\<not> in_external_intr k0" "thread_current k0 = Inr 0x10000" "thread_ticks k0 = 0"
    using demo_threads_eval by (elim exE conjE)
  obtain k1 where k1: "demo_tick k0 = Inr k1" "level k1 = INTR_ON" "\<not> in_external_intr k1"
      "thread_current k1 = Inr 0x10000" "thread_ticks k1 = 1" "ready_list k1 = [0x30000, 0x40000]"
    using demo_tick_quiet [OF k0(3-5)] k0(2,6) by (auto simp: TIME_SLICE_def)
  obtain k2 where k2: "demo_tick k1 = Inr k2" "level k2 = INTR_ON" "\<not> in_external_intr k2"
      "thread_current k2 = Inr 0x10000" "thread_ticks k2 = 2" "ready_list k2 = [0x30000, 0x40000]"
    using demo_tick_quiet [OF k1(2-4)] k1(5,6) by (auto simp: TIME_SLICE_def)
  obtain k3 where "demo_tick k2 = Inr k3" "level k3 = INTR_ON" "thread_ticks k3 = 3"
      "ready_list k3 = [0x30000, 0x40000]"
    using demo_tick_quiet [OF k2(2-4)] k2(5,6) by (auto simp: TIME_SLICE_def)
  moreover from this have "demo_ticked = Inr k3" using k0(1) k1(1) k2(1) by (auto simp: demo_ticked_def)
  ultimately show ?thesis by (intro exI [of _ k3]) simp
qed

lemma demo_threads_reach:
  assumes "demo_threads = Inr k"
  shows "\<exists>k0. started {100} k0 \<and> reach {100} k0 k"
proof -
  from assms [unfolded demo_threads_def] obtain k1 k2 tid tid' where k: "demo_start = Inr k1"
      "between_calls k1" "\<not> is_thread 0x30000 k1" "new_semas {100} 0x30000 0x600 k1"
      "thread_create 0x30000 0x600 31 k1 = Inr (tid, k2)"
      "between_calls k2" "\<not> is_thread 0x40000 k2" "new_semas {100} 0x40000 0x700 k2"
      "thread_create 0x40000 0x700 31 k2 = Inr (tid', k)"
    by auto
  note path = reach_trans [OF step_reach [OF step.create [OF k(2-5)]] step_reach [OF step.create [OF k(6-9)]]]
  obtain k0 where "started {100} k0" "reach {100} k0 k1" using demo_start_reach [OF k(1)] by blast
  then show ?thesis using reach_trans [OF _ path] by blast
qed

lemma demo_tick_reach: "demo_tick k = Inr k' \<Longrightarrow> reach L k k'"
proof -
  assume "demo_tick k = Inr k'"
  then obtain k1 where k1: "level k = INTR_ON" "external_interrupt timer_interrupt k = Inr k1" "run_action k1 = Inr k'"
    by (auto simp: demo_tick_def)
  show ?thesis by (rule reach_trans [OF step_reach [OF step.timer [OF k1(1,2)]] run_action_reach [OF k1(3)]])
qed

lemma demo_ticked_reach:
  assumes "demo_ticked = Inr k"
  shows "\<exists>k0. started {100} k0 \<and> reach {100} k0 k"
proof -
  from assms [unfolded demo_ticked_def] obtain k1 k2 k3 where k: "demo_threads = Inr k1"
      "demo_tick k1 = Inr k2" "demo_tick k2 = Inr k3" "demo_tick k3 = Inr k"
    by auto
  note path = reach_trans [OF demo_tick_reach [OF k(2)]
      reach_trans [OF demo_tick_reach [OF k(3)] demo_tick_reach [OF k(4)]]]
  obtain k0 where "started {100} k0" "reach {100} k0 k1" using demo_threads_reach [OF k(1)] by blast
  then show ?thesis using reach_trans [OF _ path] by blast
qed

section \<open>The properties\<close>



text \<open>
  C2. Mutual exclusion: in every reachable state, a lock whose semaphore is zero has exactly one
  owner (the thread that has taken the semaphore and not yet given it back), otherwise its
  semaphore is one and nobody owns it; a recorded holder is that owner and a live thread.
\<close>

theorem lock_mutual_exclusion:
  assumes "started L k0" "reach L k0 k" "l \<in> L"
  shows "(if sema_value (semas k (sema_of_lock l)) = 0 then \<exists>!t. owns k t l
      else sema_value (semas k (sema_of_lock l)) = 1 \<and> (\<nexists>t. owns k t l)) \<and>
    (holders k l = NULL \<or> owns k (holders k l) l \<and> is_thread (holders k l) k)"
proof -
  note lk = sync_invD(3) [OF reachable_inv [OF assms(1,2)] assms(3), unfolded lock_ok_def]
  have "owns k (holders k l) l" if "holders k l \<noteq> NULL" using that by (simp add: owns_def)
  then show ?thesis using lk by (cases "holders k l = NULL") (simp_all split: if_splits)
qed

theorem lock_mutual_exclusion_witness:
  "\<exists>k. demo_run = Inr k \<and> holders k 100 = 0x10000 \<and> (\<forall>t. owns k t 100 \<longleftrightarrow> t = 0x10000)"
proof -
  obtain k k0 where k: "demo_run = Inr k" "holders k 100 = 0x10000" "started {100} k0" "reach {100} k0 k"
    using demo_run_ok by (elim exE conjE)
  have "owns k 0x10000 100" using k(2) by (simp add: owns_def)
  then have "owns k t 100 \<longleftrightarrow> t = 0x10000" for t
    using lock_mutual_exclusion [OF k(3,4), of 100] by (auto split: if_splits)
  then show ?thesis using k(1,2) by (intro exI [of _ k]) simp
qed



text \<open>
  C16. Round robin without overtaking: a ready thread with n threads before it in the run queue is
  passed over by at most n dispatches before it runs itself, whatever the other threads and the
  devices do in between, and each of these dispatches moves it one place forward.
\<close>

theorem bounded_overtaking:
  assumes "started L k0" "reach L k0 k" "ready_list k = xs @ t # ys" "passed_over L t k n k'"
  shows "n \<le> length xs \<and> (\<exists>zs. ready_list k' = drop n xs @ t # zs)"
  using passed_over_position [OF assms(4) reachable_inv [OF assms(1,2)] assms(3)] by blast

theorem bounded_overtaking_witness:
  "\<exists>k k'. demo_threads = Inr k \<and> thread_yield k = Inr k' \<and> running k' = 0x30000 \<and>
     (\<exists>zs. ready_list k' = 0x40000 # zs)"
proof -
  obtain k where k: "demo_threads = Inr k" "ready_list k = [0x30000, 0x40000]" "running k = 0x10000"
      "pend k 0x10000 = []"
    using demo_threads_eval by (elim exE conjE)
  obtain k0 where k0: "started {100} k0" "reach {100} k0 k" using demo_threads_reach [OF k(1)] by (elim exE conjE)
  have p: "pend k (running k) = []" using k(3,4) by simp
  obtain k' where k': "thread_yield k = Inr k'" "running k' = next_thread (yielding (level k) k)"
      "ready_list k' = tl (ready_list (yielding (level k) k))"
    using thread_yield_inv [OF reachable_inv [OF k0]] p by auto
  have r: "running k' = 0x30000" using k'(2) k(2) by (simp add: next_thread_def yielding_def)
  have "dispatch k k'" using k'(3) k(2,3) r by (simp add: dispatch_def yielding_def)
  then have "passed_over {100} 0x40000 k (Suc 0) k'"
    using passed_over.pass [OF passed_over.start step.yield [OF p k'(1)]] r by simp
  then show ?thesis
    using bounded_overtaking [OF k0, of "[0x30000]" "0x40000" "[]" "Suc 0" k'] k(1,2) k'(1) r
    by (intro exI [of _ k] exI [of _ k']) simp
qed

text \<open>
  C15. Time slicing: a timer interrupt on the fourth tick of the running thread's slice, or later,
  dispatches the first thread of the run queue.
\<close>

theorem time_slice_preempts:
  assumes "started L k0" "reach L k0 k" "level k = INTR_ON" "thread_ticks k + 1 \<ge> TIME_SLICE"
    "ready_list k = t # ts"
  shows "\<exists>k'. external_interrupt timer_interrupt k = Inr k' \<and> running k' = t"
  using timer_inv [OF reachable_inv [OF assms(1,2)] assms(3)] assms(4,5) by auto

theorem time_slice_preempts_witness:
  "\<exists>k k'. demo_ticked = Inr k \<and> external_interrupt timer_interrupt k = Inr k' \<and> running k' = 0x30000"
proof -
  obtain k where k: "demo_ticked = Inr k" "ready_list k = [0x30000, 0x40000]" "level k = INTR_ON" "thread_ticks k = 3"
    using demo_ticked_eval by (elim exE conjE)
  obtain k0 where k0: "started {100} k0" "reach {100} k0 k" using demo_ticked_reach [OF k(1)] by (elim exE conjE)
  obtain k' where "external_interrupt timer_interrupt k = Inr k'" "running k' = 0x30000"
    using time_slice_preempts [OF k0 k(3) _ k(2)] k(4) by (auto simp: TIME_SLICE_def)
  then show ?thesis by (intro exI conjI) (rule k(1))
qed

end
