(* ===== verification/Kextent.thy ===== *)
theory Kextent
  imports Kbitmap
begin

text \<open>
  The contract of an allocator of extents (pages of memory, sectors of a disk): what it hands out
  is disjoint from everything in use, and what is given back becomes free. The client's view is a
  history of allocations and releases; the extents alive at any moment are pairwise disjoint. The
  facts on bitmaps at the end are what the implementations share.
\<close>

section \<open>Histories\<close>

fun disjoint_list :: "'a set list \<Rightarrow> bool" where
  "disjoint_list [] = True"
| "disjoint_list (X # Xs) = ((\<forall>Y \<in> set Xs. X \<inter> Y = {}) \<and> disjoint_list Xs)"

lemma disjoint_list_middle:
  "disjoint_list (xs @ X # ys) \<longleftrightarrow> disjoint_list (xs @ ys) \<and> (\<forall>Y \<in> set (xs @ ys). X \<inter> Y = {})"
  by (induction xs) auto

inductive history :: "('s \<Rightarrow> 'a set \<Rightarrow> 's \<Rightarrow> bool) \<Rightarrow> ('s \<Rightarrow> 'a set \<Rightarrow> 's \<Rightarrow> bool) \<Rightarrow> 's \<Rightarrow> 'a set list \<Rightarrow> 's \<Rightarrow> bool"
    for take_ext give_ext s0 where
  start: "history take_ext give_ext s0 [] s0"
| taken: "history take_ext give_ext s0 live s \<Longrightarrow> take_ext s X s' \<Longrightarrow> history take_ext give_ext s0 (X # live) s'"
| given: "history take_ext give_ext s0 (xs @ X # ys) s \<Longrightarrow> give_ext s X s' \<Longrightarrow> history take_ext give_ext s0 (xs @ ys) s'"

locale extent_allocator =
  fixes inv :: "'s \<Rightarrow> bool" and used :: "'s \<Rightarrow> 'a set"
    and take_ext :: "'s \<Rightarrow> 'a set \<Rightarrow> 's \<Rightarrow> bool" and give_ext :: "'s \<Rightarrow> 'a set \<Rightarrow> 's \<Rightarrow> bool"
  assumes take_ok: "inv s \<Longrightarrow> take_ext s X s' \<Longrightarrow> inv s' \<and> X \<inter> used s = {} \<and> used s' = used s \<union> X"
    and give_ok: "inv s \<Longrightarrow> give_ext s X s' \<Longrightarrow> inv s' \<and> X \<subseteq> used s \<and> used s' = used s - X"
begin

lemma history_disjoint:
  assumes "history take_ext give_ext s0 live s" "inv s0"
  shows "inv s \<and> disjoint_list live \<and> used s = used s0 \<union> \<Union> (set live) \<and> used s0 \<inter> \<Union> (set live) = {}"
  using assms(1)
proof induction
  case start
  then show ?case using assms(2) by simp
next
  case (taken live s X s')
  then show ?case using take_ok [of s X s'] by auto
next
  case (given xs X ys s s')
  then have d: "disjoint_list (xs @ ys)" "\<forall>Y \<in> set (xs @ ys). X \<inter> Y = {}"
    by (simp_all add: disjoint_list_middle)
  have "inv s'" "used s' = used s - X" using given give_ok [of s X s'] by auto
  moreover have "used s - X = used s0 \<union> \<Union> (set (xs @ ys))" using given.IH d(2) by auto
  moreover have "used s0 \<inter> \<Union> (set (xs @ ys)) = {}" using given.IH by auto
  ultimately show ?case using d(1) by simp
qed

lemma fresh_extent:
  assumes "history take_ext give_ext s0 live s" "inv s0" "take_ext s X s'"
  shows "X \<inter> used s0 = {} \<and> (\<forall>Y \<in> set live. X \<inter> Y = {})"
  using history_disjoint [OF assms(1,2)] take_ok [OF _ assms(3)] by auto

end

section \<open>The set bits of a bitmap\<close>

definition used_bits :: "bitmap \<Rightarrow> nat set" where
  "used_bits b = {i. i < unat (bit_cnt b) \<and> bm_bits b ! i}"

lemma used_bits_fill:
  assumes "bm_bits b' = fill r n v (bm_bits b)" "bit_cnt b' = bit_cnt b" "r + n \<le> unat (bit_cnt b)"
  shows "used_bits b' = (if v then used_bits b \<union> {r..<r + n} else used_bits b - {r..<r + n})"
  using assms by (auto simp: used_bits_def nth_fill split: if_splits)

lemma scan_and_flip_used:
  assumes wf: "bm_wf b" and cnt: "0 < cnt"
  shows "\<exists>r b'. bitmap_scan_and_flip b 0 cnt False = okE (r, b') \<and> bm_wf b' \<and> bit_cnt b' = bit_cnt b \<and>
    (if r = BITMAP_ERROR
     then b' = b \<and> (\<forall>k. k + unat cnt \<le> unat (bit_cnt b) \<longrightarrow> {k..<k + unat cnt} \<inter> used_bits b \<noteq> {})
     else unat r + unat cnt \<le> unat (bit_cnt b) \<and> {unat r..<unat r + unat cnt} \<inter> used_bits b = {} \<and>
       used_bits b' = used_bits b \<union> {unat r..<unat r + unat cnt})"
proof -
  have "0 \<le> bit_cnt b" by simp
  from bitmap_scan_and_flip_bits [OF wf this cnt, of False] obtain r b' where
    r: "bitmap_scan_and_flip b 0 cnt False = okE (r, b')" "bm_wf b'" "bit_cnt b' = bit_cnt b"
    and c: "if r = BITMAP_ERROR then b' = b \<and>
        (\<forall>k. unat (0 :: u32) \<le> k \<and> k + unat cnt \<le> unat (bit_cnt b) \<longrightarrow> \<not> group_at b (unat cnt) False k)
      else unat (0 :: u32) \<le> unat r \<and> bm_range b r cnt \<and> group_at b (unat cnt) False (unat r) \<and>
        (\<forall>k. unat (0 :: u32) \<le> k \<and> k < unat r \<longrightarrow> \<not> group_at b (unat cnt) False k) \<and>
        bm_bits b' = fill (unat r) (unat cnt) (\<not> False) (bm_bits b)"
    by blast
  have g: "group_at b (unat cnt) False k \<longleftrightarrow> {k..<k + unat cnt} \<inter> used_bits b = {}"
    if "k + unat cnt \<le> unat (bit_cnt b)" for k
    using that by (auto simp: group_at_def used_bits_def)
  show ?thesis
  proof (cases "r = BITMAP_ERROR")
    case True
    then show ?thesis using r c g by auto
  next
    case False
    then have "bm_range b r cnt" "group_at b (unat cnt) False (unat r)"
      "bm_bits b' = fill (unat r) (unat cnt) True (bm_bits b)" using c by auto
    then show ?thesis
      using r False g [of "unat r"] used_bits_fill [of b' "unat r" "unat cnt" True b] by (simp add: bm_range_def)
  qed
qed

lemma contains_loop_in_range:
  "bitmap_contains_loop b start cnt v i = Inr False \<Longrightarrow> i \<le> j \<Longrightarrow> j < cnt \<Longrightarrow> start + j < bit_cnt b"
proof (induction b start cnt v i rule: bitmap_contains_loop.induct)
  case (1 b start cnt v i)
  have i: "i < cnt" using 1(3,4) by simp
  then obtain t where t: "bitmap_test b (start + i) = Inr t" "t \<noteq> v" "bitmap_contains_loop b start cnt v (i + 1) = Inr False"
    using 1(2) by (subst (asm) bitmap_contains_loop.simps) (auto split: if_splits)
  show ?case
  proof (cases "j = i")
    case True
    then show ?thesis using t(1) by (auto simp: bitmap_test_def)
  next
    case False
    then have "i + 1 \<le> j" using 1(3) i by (metis inc_le order_neq_le_trans)
    then show ?thesis using 1(1) [OF i t(2,3)] 1(4) by simp
  qed
qed

lemma bitmap_all_in_range:
  assumes "bitmap_all b start cnt = Inr True"
  shows "unat start + unat cnt \<le> unat (bit_cnt b)"
proof (rule ccontr)
  assume no: "\<not> ?thesis"
  have st: "start \<le> bit_cnt b" and loop: "bitmap_contains_loop b start cnt False 0 = Inr False"
    using assms by (auto simp: bitmap_all_def bitmap_contains_def)
  define j where "j = bit_cnt b - start"
  have "unat j = unat (bit_cnt b) - unat start" using st by (simp add: j_def unat_sub)
  then have "j < cnt" using no st by (simp add: word_less_nat_alt word_le_nat_alt)
  then have "start + j < bit_cnt b" using contains_loop_in_range [OF loop] by simp
  then show False by (simp add: j_def)
qed

lemma bitmap_all_used:
  assumes "bm_wf b" "unat r + unat cnt \<le> unat (bit_cnt b)"
  shows "bitmap_all b r cnt = Inr ({unat r..<unat r + unat cnt} \<subseteq> used_bits b)"
  using assms bitmap_contains_bits [of b r cnt False]
  by (auto simp: bitmap_all_def bm_range_def used_bits_def)

lemma set_multiple_used:
  assumes "bm_wf b" "unat r + unat cnt \<le> unat (bit_cnt b)"
  shows "\<exists>b'. bitmap_set_multiple b r cnt v = Inr b' \<and> bm_wf b' \<and> bit_cnt b' = bit_cnt b \<and>
    used_bits b' = (if v then used_bits b \<union> {unat r..<unat r + unat cnt}
      else used_bits b - {unat r..<unat r + unat cnt})"
  using bitmap_set_multiple_bits [of b r cnt v] used_bits_fill [of _ "unat r" "unat cnt" v b] assms
  by (auto simp: bm_range_def)

end
