(* ===== verification/Kpalloc.thy ===== *)
theory Kpalloc
  imports Kextent Kstring Kvaddr
begin

text \<open>
  \<^verbatim>\<open>threads/palloc.c\<close>: the page allocator. A pool is its base address and the bitmap of the pages in
  use, which lies in the pages below the base. The search for free pages runs under the pool's
  lock, so it is one step. \<open>pages\<close> is the state of both pools and of the memory they manage;
  addresses of pages are counted in page numbers.
\<close>

section \<open>The code\<close>

record pool =
  used_map :: bitmap
  base :: ptr

record pages =
  kernel_pool :: pool
  user_pool :: pool
  pmem :: bmem

definition PAL_ASSERT :: u32 where "PAL_ASSERT = 1"
definition PAL_ZERO :: u32 where "PAL_ZERO = 2"
definition PAL_USER :: u32 where "PAL_USER = 4"

definition pool_of :: "bool \<Rightarrow> pages \<Rightarrow> pool" where
  "pool_of user s = (if user then user_pool s else kernel_pool s)"

definition set_map :: "bool \<Rightarrow> bitmap \<Rightarrow> pages \<Rightarrow> pages" where
  "set_map user b s = (if user then s\<lparr>user_pool := (user_pool s)\<lparr>used_map := b\<rparr>\<rparr>
     else s\<lparr>kernel_pool := (kernel_pool s)\<lparr>used_map := b\<rparr>\<rparr>)"

definition palloc_get_multiple :: "u32 \<Rightarrow> u32 \<Rightarrow> pages \<Rightarrow> (ptr \<times> pages) exec" where
  "palloc_get_multiple flags page_cnt s =
     (let user = (flags AND PAL_USER \<noteq> 0); pool = pool_of user s in
      if page_cnt = 0 then okE (NULL, s)
      else bindE (bitmap_scan_and_flip (used_map pool) 0 page_cnt False) (\<lambda>(page_idx, b).
        let s = set_map user b s;
            pgs = (if page_idx \<noteq> BITMAP_ERROR then base pool + PGSIZE * page_idx else NULL)
        in if pgs \<noteq> NULL
           then if flags AND PAL_ZERO \<noteq> 0
             then bindE (Some (memset pgs 0 (PGSIZE * page_cnt) (pmem s))) (\<lambda>(_, m). okE (pgs, s\<lparr>pmem := m\<rparr>))
             else okE (pgs, s)
           else if flags AND PAL_ASSERT \<noteq> 0 then okE (NULL, s) else okE (pgs, s)))"

definition palloc_get_page :: "u32 \<Rightarrow> pages \<Rightarrow> (ptr \<times> pages) exec" where
  "palloc_get_page flags s = palloc_get_multiple flags 1 s"

definition page_from_pool :: "pool \<Rightarrow> ptr \<Rightarrow> bool" where
  "page_from_pool pool page = (let page_no = pg_no page; start_page = pg_no (base pool);
       end_page = start_page + bitmap_size (used_map pool)
     in page_no \<ge> start_page \<and> page_no < end_page)"

definition palloc_free_multiple :: "ptr \<Rightarrow> u32 \<Rightarrow> pages \<Rightarrow> pages res" where
  "palloc_free_multiple pgs page_cnt s = require (pg_ofs pgs = 0)
     (if pgs = NULL \<or> page_cnt = 0 then Inr s
      else bindR (if page_from_pool (kernel_pool s) pgs then Inr False
                  else if page_from_pool (user_pool s) pgs then Inr True else Inl Not_reached) (\<lambda>user.
        let pool = pool_of user s; page_idx = pg_no pgs - pg_no (base pool) in
        bindR (memset pgs 0xcc (PGSIZE * page_cnt) (pmem s)) (\<lambda>(_, m).
        bindR (bitmap_all (used_map pool) page_idx page_cnt) (\<lambda>full. require full
        (bindR (bitmap_set_multiple (used_map pool) page_idx page_cnt False) (\<lambda>b.
         Inr (set_map user b (s\<lparr>pmem := m\<rparr>))))))))"

definition palloc_free_page :: "ptr \<Rightarrow> pages \<Rightarrow> pages res" where
  "palloc_free_page page s = palloc_free_multiple page 1 s"

text \<open>The raw words of a buffer in memory, lowest byte first.\<close>

definition word_at :: "bmem \<Rightarrow> ptr \<Rightarrow> u32" where
  "word_at m p = bytes_int [m p, m (p + 1), m (p + 2), m (p + 3)]"

definition words_at :: "bmem \<Rightarrow> ptr \<Rightarrow> nat \<Rightarrow> u32 list" where
  "words_at m p n = map (\<lambda>i. word_at m (p + 4 * of_nat i)) [0..<n]"

definition init_pool :: "ptr \<Rightarrow> u32 \<Rightarrow> bmem \<Rightarrow> pool res" where
  "init_pool start page_cnt m =
     (let bm_pages = DIV_ROUND_UP (bitmap_buf_size page_cnt) PGSIZE in
      if bm_pages > page_cnt then Inl Kernel_panic
      else let page_cnt = page_cnt - bm_pages in
        bindR (bitmap_create_in_buf page_cnt (words_at m start (unat (bm_pages * PGSIZE) div 4)) (bm_pages * PGSIZE))
          (\<lambda>b. Inr \<lparr>used_map = b, base = start + bm_pages * PGSIZE\<rparr>))"

text \<open>
  \<open>kernel_end\<close> is the linker's \<^verbatim>\<open>_end\<close>, \<open>ram_pages\<close> the size of the memory found by the loader and
  \<open>user_page_limit\<close> a boot option.
\<close>

definition palloc_init :: "ptr \<Rightarrow> u32 \<Rightarrow> u32 \<Rightarrow> bmem \<Rightarrow> pages res" where
  "palloc_init kernel_end ram_pages user_page_limit m =
     (let free_start = pg_round_up kernel_end in
      bindR (ptov (ram_pages * PGSIZE)) (\<lambda>free_end.
      let free_pages = (free_end - free_start) div PGSIZE;
          user_pages = free_pages div 2;
          user_pages = (if user_pages > user_page_limit then user_page_limit else user_pages);
          kernel_pages = free_pages - user_pages
      in bindR (init_pool free_start kernel_pages m) (\<lambda>kp.
         bindR (init_pool (free_start + kernel_pages * PGSIZE) user_pages m) (\<lambda>up.
         Inr \<lparr>kernel_pool = kp, user_pool = up, pmem = m\<rparr>))))"

section \<open>Well-formed pools\<close>

abbreviation first_page :: "pool \<Rightarrow> nat" where "first_page p \<equiv> unat (pg_no (base p))"
abbreviation page_count :: "pool \<Rightarrow> nat" where "page_count p \<equiv> unat (bit_cnt (used_map p))"

definition pool_ok :: "pool \<Rightarrow> bool" where
  "pool_ok p \<longleftrightarrow> bm_wf (used_map p) \<and> pg_ofs (base p) = 0 \<and> base p \<noteq> NULL \<and> first_page p + page_count p \<le> 2 ^ 20"

definition pool_pages :: "pool \<Rightarrow> nat set" where
  "pool_pages p = {first_page p..<first_page p + page_count p}"

definition pool_used :: "pool \<Rightarrow> nat set" where
  "pool_used p = (\<lambda>i. first_page p + i) ` used_bits (used_map p)"

definition pages_ok :: "pages \<Rightarrow> bool" where
  "pages_ok s \<longleftrightarrow> pool_ok (kernel_pool s) \<and> pool_ok (user_pool s) \<and>
     pool_pages (kernel_pool s) \<inter> pool_pages (user_pool s) = {}"

definition pages_used :: "pages \<Rightarrow> nat set" where
  "pages_used s = pool_used (kernel_pool s) \<union> pool_used (user_pool s)"

definition page_range :: "ptr \<Rightarrow> u32 \<Rightarrow> nat set" where
  "page_range p n = {unat (pg_no p)..<unat (pg_no p) + unat n}"

lemma pool_used_sub: "pool_used p \<subseteq> pool_pages p"
  by (auto simp: pool_used_def pool_pages_def used_bits_def)

lemma base_address: "pg_ofs p = 0 \<Longrightarrow> unat p = 4096 * unat (pg_no p)"
  using pg_ofs_mod [of p] pg_no_div [of p] mult_div_mod_eq [of 4096 "unat p"] by simp

lemma page_no_bound: "pg_ofs a = 0 \<Longrightarrow> unat a + 4096 \<le> 2 ^ 32"
  using base_address [of a] unat_lt2p [of a] by simp

lemma in_page:
  assumes "pg_ofs a = 0" "unat b = unat a + k" "k < 4096"
  shows "pg_round_down b = a" "unat (pg_ofs b) = k" "unat (pg_no b) = unat (pg_no a)"
proof -
  have a: "unat a = 4096 * unat (pg_no a)" by (rule base_address [OF assms(1)])
  show "unat (pg_ofs b) = k" using assms(2,3) a by (simp add: pg_ofs_mod)
  show "unat (pg_no b) = unat (pg_no a)" using assms(2,3) a pg_no_div [of b] by simp
  show "pg_round_down b = a"
    using assms(2,3) a by (intro word_unat_eq_iff [THEN iffD2]) (simp add: unat_pg_round_down)
qed

lemma page_address:
  assumes "pool_ok p" "unat idx + unat cnt \<le> page_count p" "0 < cnt"
  shows "unat (base p + PGSIZE * idx) = 4096 * (first_page p + unat idx)" "base p + PGSIZE * idx \<noteq> NULL"
    "pg_no (base p + PGSIZE * idx) = pg_no (base p) + idx" "unat (pg_no (base p) + idx) = first_page p + unat idx"
    "unat (PGSIZE * cnt) = 4096 * unat cnt"
proof -
  have z: "0 < unat (base p)" using assms(1) by (simp add: pool_ok_def unat_gt_0)
  have b: "unat (base p) = 4096 * first_page p" "0 < first_page p" "first_page p + page_count p \<le> 2 ^ 20"
    using assms(1) base_address [of "base p"] z by (simp_all add: pool_ok_def)
  have c: "0 < unat cnt" using assms(3) by (simp add: word_less_nat_alt)
  have s: "unat (PGSIZE * idx) = 4096 * unat idx" "unat (PGSIZE * cnt) = 4096 * unat cnt"
  proof -
    have "unat idx < 2 ^ 20" "unat cnt < 2 ^ 20" using b(2,3) assms(2) c by simp_all
    then show "unat (PGSIZE * idx) = 4096 * unat idx" "unat (PGSIZE * cnt) = 4096 * unat cnt"
      by (simp_all add: unat_word_ariths PGSIZE_eq)
  qed
  have a: "unat (base p + PGSIZE * idx) = 4096 * (first_page p + unat idx)"
    using b assms(2) c s(1) by (simp add: unat_word_ariths(1))
  show "unat (base p + PGSIZE * idx) = 4096 * (first_page p + unat idx)" by (rule a)
  show "base p + PGSIZE * idx \<noteq> NULL" using a b(2) by (auto simp: unat_eq_zero [symmetric] simp del: unat_eq_zero)
  show n: "unat (pg_no (base p) + idx) = first_page p + unat idx"
    using b assms(2) c by (simp add: unat_word_ariths)
  show "pg_no (base p + PGSIZE * idx) = pg_no (base p) + idx"
    using a n by (intro word_unat_eq_iff [THEN iffD2]) (simp add: pg_no_div)
  show "unat (PGSIZE * cnt) = 4096 * unat cnt" by (rule s(2))
qed

section \<open>Allocation\<close>

lemma set_map_ok:
  assumes "pages_ok s" "bm_wf b" "bit_cnt b = bit_cnt (used_map (pool_of user s))"
  shows "pages_ok (set_map user b s)" "pool_of user (set_map user b s) = (pool_of user s)\<lparr>used_map := b\<rparr>"
    "pool_of (\<not> user) (set_map user b s) = pool_of (\<not> user) s" "pmem (set_map user b s) = pmem s"
  using assms by (auto simp: pages_ok_def pool_ok_def pool_pages_def set_map_def pool_of_def)

lemma pages_used_split: "pages_used s = pool_used (pool_of user s) \<union> pool_used (pool_of (\<not> user) s)"
  by (auto simp: pages_used_def pool_of_def)

lemma pages_split:
  assumes "pages_ok s"
  shows "pool_ok (pool_of user s)" "pool_pages (pool_of user s) \<inter> pool_pages (pool_of (\<not> user) s) = {}"
  using assms by (auto simp: pages_ok_def pool_of_def)

lemma set_map_pages:
  assumes "bit_cnt b = bit_cnt (used_map (pool_of user s))"
  shows "pool_pages (pool_of v (set_map user b s)) = pool_pages (pool_of v s)"
  using assms by (simp add: pool_pages_def pool_of_def set_map_def split: if_splits)

lemma pool_used_Int:
  assumes "pages_ok s"
  shows "pool_used (pool_of v s) = pages_used s \<inter> pool_pages (pool_of v s)"
proof -
  have "pool_used (pool_of (\<not> v) s) \<inter> pool_pages (pool_of v s) = {}"
    using pages_split(2) [OF assms, of v] pool_used_sub [of "pool_of (\<not> v) s"] by blast
  then show ?thesis using pool_used_sub [of "pool_of v s"] pages_used_split [of s v] by blast
qed

lemma get_multiple_pools:
  assumes ok: "pages_ok s" and g: "palloc_get_multiple flags cnt s = okE (p, s')"
  shows "pool_pages (pool_of v s') = pool_pages (pool_of v s)"
proof (cases "cnt = 0")
  case True
  then show ?thesis using g by (simp add: palloc_get_multiple_def)
next
  case False
  let ?u = "flags AND PAL_USER \<noteq> 0"
  have wf: "bm_wf (used_map (pool_of ?u s))" using pages_split(1) [OF ok] by (simp add: pool_ok_def)
  obtain r b where r: "bitmap_scan_and_flip (used_map (pool_of ?u s)) 0 cnt False = okE (r, b)"
      "bit_cnt b = bit_cnt (used_map (pool_of ?u s))"
    using scan_and_flip_used [OF wf, of cnt] False by (auto simp: word_neq_0_conv)
  have m: "pool_of v (x\<lparr>pmem := y\<rparr>) = pool_of v x" for v x y by (simp add: pool_of_def)
  have "pool_of v s' = pool_of v (set_map ?u b s)"
    using g r(1) False by (auto simp: palloc_get_multiple_def memset_def m Let_def split: if_splits)
  then show ?thesis using set_map_pages [OF r(2)] by simp
qed

lemma get_multiple_result:
  assumes ok: "pages_ok s" and cnt: "0 < page_cnt" and u: "user = (flags AND PAL_USER \<noteq> 0)"
  shows "\<exists>p s'. palloc_get_multiple flags page_cnt s = okE (p, s') \<and> pages_ok s' \<and>
    (if p = NULL
     then s' = s \<and> (\<forall>k. {k..<k + unat page_cnt} \<subseteq> pool_pages (pool_of user s) \<longrightarrow>
       {k..<k + unat page_cnt} \<inter> pages_used s \<noteq> {})
     else pg_ofs p = 0 \<and> page_range p page_cnt \<subseteq> pool_pages (pool_of user s) \<and>
       page_range p page_cnt \<inter> pages_used s = {} \<and> pages_used s' = pages_used s \<union> page_range p page_cnt \<and>
       pmem s' = (\<lambda>x. if flags AND PAL_ZERO \<noteq> 0 \<and> in_block x p (PGSIZE * page_cnt) then 0 else pmem s x))"
proof -
  let ?pool = "pool_of user s"
  note pk = pages_split [OF ok, of user]
  have wf: "bm_wf (used_map ?pool)" using pk by (simp add: pool_ok_def)
  obtain r b where r: "bitmap_scan_and_flip (used_map ?pool) 0 page_cnt False = okE (r, b)" "bm_wf b"
      "bit_cnt b = bit_cnt (used_map ?pool)"
      "if r = BITMAP_ERROR
       then b = used_map ?pool \<and> (\<forall>k. k + unat page_cnt \<le> page_count ?pool \<longrightarrow>
         {k..<k + unat page_cnt} \<inter> used_bits (used_map ?pool) \<noteq> {})
       else unat r + unat page_cnt \<le> page_count ?pool \<and> {unat r..<unat r + unat page_cnt} \<inter> used_bits (used_map ?pool) = {} \<and>
         used_bits b = used_bits (used_map ?pool) \<union> {unat r..<unat r + unat page_cnt}"
    using scan_and_flip_used [OF wf cnt] by blast
  note sm = set_map_ok [OF ok r(2,3)]
  show ?thesis
  proof (cases "r = BITMAP_ERROR")
    case True
    then have b: "b = used_map ?pool" using r(4) by simp
    then have "set_map user b s = s" by (simp add: set_map_def pool_of_def)
    then have run: "palloc_get_multiple flags page_cnt s = okE (NULL, s)"
      using r(1) True cnt b unfolding u by (simp add: palloc_get_multiple_def Let_def)
    have "{k..<k + unat page_cnt} \<inter> pages_used s \<noteq> {}"
      if sub: "{k..<k + unat page_cnt} \<subseteq> pool_pages ?pool" for k
    proof -
      have c: "0 < unat page_cnt" using cnt by (simp add: word_less_nat_alt)
      have "k \<in> pool_pages ?pool" "k + unat page_cnt - 1 \<in> pool_pages ?pool" using sub c by auto
      then have k: "first_page ?pool \<le> k" "k + unat page_cnt \<le> first_page ?pool + page_count ?pool"
        using c by (auto simp: pool_pages_def)
      have "k - first_page ?pool + unat page_cnt \<le> page_count ?pool" using k by simp
      then obtain i where "i \<in> {k - first_page ?pool..<k - first_page ?pool + unat page_cnt}" "i \<in> used_bits (used_map ?pool)"
        using r(4) True by force
      then have "first_page ?pool + i \<in> {k..<k + unat page_cnt} \<inter> pool_used ?pool"
        using k by (auto simp: pool_used_def)
      then show ?thesis by (auto simp: pages_used_split [of s user])
    qed
    then show ?thesis using run ok by auto
  next
    case False
    let ?p = "base ?pool + PGSIZE * r"
    have rr: "unat r + unat page_cnt \<le> page_count ?pool" using r(4) False by simp
    note pa = page_address [OF pk(1) rr cnt]
    have aligned: "pg_ofs ?p = 0" using pa(1) pg_ofs_mod [of ?p] by (simp add: unat_eq_zero)
    have rng: "page_range ?p page_cnt = (\<lambda>i. first_page ?pool + i) ` {unat r..<unat r + unat page_cnt}"
      using pa(3,4) by (simp add: page_range_def ac_simps)
    have sub: "page_range ?p page_cnt \<subseteq> pool_pages ?pool" using rr by (auto simp: rng pool_pages_def)
    have "{unat r..<unat r + unat page_cnt} \<inter> used_bits (used_map ?pool) = {}" using r(4) False by simp
    then have "page_range ?p page_cnt \<inter> pool_used ?pool = {}" unfolding rng pool_used_def by auto
    moreover have "page_range ?p page_cnt \<inter> pool_used (pool_of (\<not> user) s) = {}"
      using sub pk(2) pool_used_sub by blast
    ultimately have "page_range ?p page_cnt \<inter> pages_used s = {}" by (auto simp: pages_used_split [of s user])
    moreover have "pages_used (set_map user b s) = pages_used s \<union> page_range ?p page_cnt"
      using r(4) False unfolding pages_used_split [of _ user] sm(2,3) rng
      by (simp add: pool_used_def image_Un ac_simps)
    moreover have "pages_used (s'\<lparr>pmem := m\<rparr>) = pages_used s'" "pages_ok (s'\<lparr>pmem := m\<rparr>) = pages_ok s'" for s' m
      by (simp_all add: pages_used_def pages_ok_def)
    ultimately show ?thesis
      using False r(1) cnt pa(2) aligned sm(1,4) sub unfolding u
      by (auto simp: palloc_get_multiple_def memset_def memset_loop_bytes Let_def)
  qed
qed

section \<open>Release\<close>

lemma from_pool_iff:
  assumes "pool_ok p"
  shows "page_from_pool p page \<longleftrightarrow> unat (pg_no page) \<in> pool_pages p"
proof -
  have "unat (pg_no (base p) + bit_cnt (used_map p)) = first_page p + page_count p"
    using assms by (simp add: pool_ok_def unat_word_ariths)
  then show ?thesis by (simp add: page_from_pool_def pool_pages_def bitmap_size_def word_less_nat_alt word_le_nat_alt Let_def)
qed

lemma page_index:
  assumes "pool_ok p" "unat (pg_no page) \<in> pool_pages p"
  shows "first_page p + unat (pg_no page - pg_no (base p)) = unat (pg_no page)"
  using assms by (simp add: pool_pages_def unat_sub word_le_nat_alt)

lemma chosen_pool:
  assumes ok: "pages_ok s"
  shows "(if page_from_pool (kernel_pool s) page then Inr False
     else if page_from_pool (user_pool s) page then Inr True else Inl Not_reached) = Inr user \<longleftrightarrow>
    unat (pg_no page) \<in> pool_pages (pool_of user s)"
  using ok from_pool_iff [of "kernel_pool s" page] from_pool_iff [of "user_pool s" page]
  by (cases user) (auto simp: pages_ok_def pool_of_def)

lemma range_image:
  assumes "pool_ok p" "unat (pg_no page) \<in> pool_pages p"
  shows "page_range page cnt = (\<lambda>i. first_page p + i) `
    {unat (pg_no page - pg_no (base p))..<unat (pg_no page - pg_no (base p)) + unat cnt}"
proof -
  have "unat (pg_no page) = unat (pg_no page - pg_no (base p)) + first_page p"
    using page_index [OF assms] by simp
  then show ?thesis by (simp add: page_range_def ac_simps)
qed

lemma free_multiple_result:
  assumes ok: "pages_ok s" and p: "p \<noteq> NULL" "0 < cnt" and f: "palloc_free_multiple p cnt s = Inr s'"
  shows "pages_ok s' \<and> page_range p cnt \<subseteq> pages_used s \<and> pages_used s' = pages_used s - page_range p cnt \<and>
    pmem s' = (\<lambda>x. if in_block x p (PGSIZE * cnt) then 0xcc else pmem s x)"
proof -
  from f p obtain user b where u: "unat (pg_no p) \<in> pool_pages (pool_of user s)"
      and al: "bitmap_all (used_map (pool_of user s)) (pg_no p - pg_no (base (pool_of user s))) cnt = Inr True"
      and b: "bitmap_set_multiple (used_map (pool_of user s)) (pg_no p - pg_no (base (pool_of user s))) cnt False = Inr b"
      and s': "s' = set_map user b (s\<lparr>pmem := \<lambda>x. if in_block x p (PGSIZE * cnt) then 0xcc else pmem s x\<rparr>)"
    by (auto simp: palloc_free_multiple_def chosen_pool [OF ok] memset_def memset_loop_bytes Let_def split: if_splits)
  let ?pool = "pool_of user s" and ?i = "pg_no p - pg_no (base (pool_of user s))"
  let ?s = "s\<lparr>pmem := \<lambda>x. if in_block x p (PGSIZE * cnt) then 0xcc else pmem s x\<rparr>"
  have pk: "pool_ok ?pool" "bm_wf (used_map ?pool)" using pages_split [OF ok, of user] by (simp_all add: pool_ok_def)
  have rng: "unat ?i + unat cnt \<le> page_count ?pool" using bitmap_all_in_range [OF al] .
  have u1: "{unat ?i..<unat ?i + unat cnt} \<subseteq> used_bits (used_map ?pool)"
    using bitmap_all_used [OF pk(2) rng] al by simp
  have b': "bm_wf b" "bit_cnt b = bit_cnt (used_map ?pool)" "used_bits b = used_bits (used_map ?pool) - {unat ?i..<unat ?i + unat cnt}"
    using set_multiple_used [OF pk(2) rng, of False] b by auto
  have ps: "pool_of v ?s = pool_of v s" for v by (simp add: pool_of_def)
  have oks: "pages_ok ?s" using ok by (simp add: pages_ok_def)
  note sm = set_map_ok [OF oks b'(1), of user, unfolded ps, OF b'(2)]
  note img = range_image [OF pk(1) u, of cnt]
  have "page_range p cnt \<subseteq> pool_used ?pool" using u1 unfolding img pool_used_def by (rule image_mono)
  moreover have "pool_used (pool_of user s') = pool_used ?pool - page_range p cnt"
    unfolding s' sm(2) img by (simp add: pool_used_def b' image_set_diff)
  moreover have "pool_used (pool_of (\<not> user) s') = pool_used (pool_of (\<not> user) s)" unfolding s' sm(3) ..
  moreover have "page_range p cnt \<inter> pool_used (pool_of (\<not> user) s) = {}"
    using calculation(1) pages_split(2) [OF ok, of user] pool_used_sub by blast
  ultimately show ?thesis
    using sm(1,4) unfolding pages_used_split [of _ user] s' by auto
qed

lemma free_multiple_succeeds:
  assumes ok: "pages_ok s" and p: "pg_ofs p = 0" "0 < cnt" and sub: "page_range p cnt \<subseteq> pool_used (pool_of user s)"
  shows "\<exists>s'. palloc_free_multiple p cnt s = Inr s'"
proof -
  let ?pool = "pool_of user s" and ?i = "pg_no p - pg_no (base (pool_of user s))"
  have pk: "pool_ok ?pool" "bm_wf (used_map ?pool)" using pages_split [OF ok, of user] by (simp_all add: pool_ok_def)
  have "unat (pg_no p) \<in> page_range p cnt" using p(2) by (simp add: page_range_def word_less_nat_alt)
  then have u: "unat (pg_no p) \<in> pool_pages ?pool" using sub pool_used_sub by blast
  have u1: "{unat ?i..<unat ?i + unat cnt} \<subseteq> used_bits (used_map ?pool)"
    using sub unfolding range_image [OF pk(1) u] pool_used_def by (subst (asm) inj_image_subset_iff) (simp_all add: inj_def)
  moreover have "unat ?i + unat cnt - 1 \<in> {unat ?i..<unat ?i + unat cnt}"
    using p(2) by (simp add: word_less_nat_alt)
  ultimately have rng: "unat ?i + unat cnt \<le> page_count ?pool" unfolding used_bits_def by fastforce
  have "bitmap_all (used_map ?pool) ?i cnt = Inr True" using bitmap_all_used [OF pk(2) rng] u1 by simp
  moreover obtain b where "bitmap_set_multiple (used_map ?pool) ?i cnt False = Inr b"
    using set_multiple_used [OF pk(2) rng] by blast
  moreover have "p \<noteq> NULL"
  proof
    assume "p = NULL"
    then have "first_page ?pool = 0" using u by (simp add: pool_pages_def pg_no_def)
    then show False using pk(1) base_address [of "base ?pool"] by (simp add: pool_ok_def unat_eq_zero)
  qed
  ultimately show ?thesis
    using p u by (auto simp: palloc_free_multiple_def chosen_pool [OF ok] memset_def Let_def)
qed

lemma free_multiple_pools:
  assumes ok: "pages_ok s" and f: "palloc_free_multiple p cnt s = Inr s'"
  shows "pool_pages (pool_of v s') = pool_pages (pool_of v s)"
proof (cases "p = NULL \<or> cnt = 0")
  case True
  then show ?thesis using f by (auto simp: palloc_free_multiple_def)
next
  case False
  from f False obtain user b where
      al: "bitmap_all (used_map (pool_of user s)) (pg_no p - pg_no (base (pool_of user s))) cnt = Inr True"
      and b: "bitmap_set_multiple (used_map (pool_of user s)) (pg_no p - pg_no (base (pool_of user s))) cnt False = Inr b"
      and s': "s' = set_map user b (s\<lparr>pmem := \<lambda>x. if in_block x p (PGSIZE * cnt) then 0xcc else pmem s x\<rparr>)"
    by (auto simp: palloc_free_multiple_def chosen_pool [OF ok] memset_def memset_loop_bytes Let_def split: if_splits)
  have "bm_wf (used_map (pool_of user s))" using pages_split(1) [OF ok, of user] by (simp add: pool_ok_def)
  then have "bit_cnt b = bit_cnt (used_map (pool_of user s))"
    using set_multiple_used [OF _ bitmap_all_in_range [OF al], of False] b by auto
  moreover have m: "pool_of v (s\<lparr>pmem := y\<rparr>) = pool_of v s" for v y by (simp add: pool_of_def)
  ultimately show ?thesis unfolding s' using set_map_pages [of b user "s\<lparr>pmem := \<lambda>x. if in_block x p (PGSIZE * cnt) then 0xcc else pmem s x\<rparr>"] by (simp add: m)
qed

section \<open>Start-up\<close>

lemma unat_div_round_up:
  assumes "unat x + unat (y :: u32) \<le> 2 ^ 32" "y \<noteq> 0"
  shows "unat (DIV_ROUND_UP x y) = (unat x + unat y - 1) div unat y"
proof -
  have y: "0 < unat y" using assms(2) by (simp add: unat_gt_0)
  have e: "x + y - 1 = of_nat (unat x + unat y - 1)" using y by (simp add: of_nat_diff)
  have "unat (x + y - 1) = unat x + unat y - 1"
    unfolding e unat_of_nat by (rule mod_less) (use assms(1) y in simp)
  then show ?thesis by (simp add: DIV_ROUND_UP_def unat_div)
qed

lemma unat_buf_size:
  assumes "unat n \<le> 2 ^ 20"
  shows "unat (bitmap_buf_size n) = 8 + 4 * ((unat n + 31) div 32)"
proof -
  have e: "unat (elem_cnt n) = (unat n + 31) div 32"
    using assms unat_div_round_up [of n 32] by (simp add: elem_cnt_def ELEM_BITS_def)
  then show ?thesis using assms
    by (simp add: bitmap_buf_size_def byte_cnt_def unat_word_ariths)
qed

lemma create_in_buf_free:
  assumes "bitmap_create_in_buf n block sz = Inr b" "unat n \<le> 32 * (length block - 2)"
  shows "bm_wf b \<and> bit_cnt b = n \<and> used_bits b = {}"
proof -
  obtain b' where "bitmap_set_all \<lparr>bit_cnt = n, bits = drop 2 block\<rparr> False = Inr b'" "bm_wf b'" "bit_cnt b' = n"
      "bm_bits b' = replicate (unat n) False"
    using bitmap_set_all_bits [of "\<lparr>bit_cnt = n, bits = drop 2 block\<rparr>" False] assms(2) by (auto simp: bm_wf_def)
  then show ?thesis using assms(1) by (auto simp: bitmap_create_in_buf_def used_bits_def)
qed

lemma bitmap_fits:
  assumes "b = (8 + 4 * ((n + 31) div 32) + 4095) div (4096 :: nat)"
  shows "n - b \<le> 32 * (1024 * b - 2)" "8 + 4 * ((n - b + 31) div 32) \<le> 4096 * b"
proof -
  have s: "8 + 4 * ((n + 31) div 32) \<le> 4096 * b" using assms by linarith
  have "n \<le> 32 * ((n + 31) div 32)" by linarith
  then show "n - b \<le> 32 * (1024 * b - 2)" using s by linarith
  have "(n - b + 31) div 32 \<le> (n + 31) div 32" by (rule div_le_mono) simp
  then show "8 + 4 * ((n - b + 31) div 32) \<le> 4096 * b" using s by linarith
qed

lemma init_pool_ok:
  assumes al: "pg_ofs start = 0" "start \<noteq> NULL" and n: "unat (pg_no start) + unat n < 2 ^ 20"
    and i: "init_pool start n m = Inr p"
  shows "pool_ok p \<and> pool_used p = {} \<and> pool_pages p \<subseteq> page_range start n"
proof -
  define bm where "bm = DIV_ROUND_UP (bitmap_buf_size n) PGSIZE"
  have sz: "unat (bitmap_buf_size n) = 8 + 4 * ((unat n + 31) div 32)" using n by (intro unat_buf_size) simp
  then have bn: "unat bm = (8 + 4 * ((unat n + 31) div 32) + 4095) div 4096"
    using n unat_div_round_up [of "bitmap_buf_size n" PGSIZE] by (simp add: bm_def PGSIZE_eq)
  from i obtain b where le: "bm \<le> n" and
    b: "bitmap_create_in_buf (n - bm) (words_at m start (unat (bm * PGSIZE) div 4)) (bm * PGSIZE) = Inr b"
    and p: "p = \<lparr>used_map = b, base = start + bm * PGSIZE\<rparr>"
    by (auto simp: init_pool_def bm_def Let_def split: if_splits)
  have len: "unat bm \<le> unat n" "unat (n - bm) = unat n - unat bm" using le by (simp_all add: unat_sub word_le_nat_alt)
  have P: "0 < unat (pg_no start)" using al base_address [of start] by (metis gr0I mult_0_right unat_eq_zero)
  have mul: "unat (bm * PGSIZE) = 4096 * unat bm" using len n P by (simp add: unat_word_ariths PGSIZE_eq)
  have "unat (n - bm) \<le> 32 * (1024 * unat bm - 2)" using bitmap_fits(1) [OF bn] len by simp
  then have bok: "bm_wf b \<and> bit_cnt b = n - bm \<and> used_bits b = {}"
    using create_in_buf_free [OF b] by (simp add: words_at_def mul)
  have st: "unat start = 4096 * unat (pg_no start)" by (rule base_address [OF al(1)])
  have ad: "unat (start + bm * PGSIZE) = 4096 * (unat (pg_no start) + unat bm)"
    using st mul n len by (simp add: unat_word_ariths(1))
  then have "unat (pg_no (start + bm * PGSIZE)) = unat (pg_no start) + unat bm" by (simp add: pg_no_div)
  moreover have "pg_ofs (start + bm * PGSIZE) = 0" using ad pg_ofs_mod [of "start + bm * PGSIZE"] by (simp add: unat_eq_zero)
  moreover have "start + bm * PGSIZE \<noteq> NULL" using ad P by (auto simp: unat_eq_zero [symmetric] simp del: unat_eq_zero)
  ultimately show ?thesis using bok n len
    by (auto simp: p pool_ok_def pool_used_def pool_pages_def page_range_def)
qed

lemma init_pool_succeeds:
  assumes "DIV_ROUND_UP (bitmap_buf_size n) PGSIZE \<le> n" "unat n < 2 ^ 20"
  shows "\<exists>p. init_pool start n m = Inr p"
proof -
  define bm where "bm = DIV_ROUND_UP (bitmap_buf_size n) PGSIZE"
  have bn: "unat bm = (8 + 4 * ((unat n + 31) div 32) + 4095) div 4096"
    using assms(2) unat_div_round_up [of "bitmap_buf_size n" PGSIZE] by (simp add: bm_def PGSIZE_eq unat_buf_size)
  have len: "unat bm \<le> unat n" "unat (n - bm) = unat n - unat bm"
    using assms(1) by (simp_all add: unat_sub word_le_nat_alt bm_def)
  have mul: "unat (bm * PGSIZE) = 4096 * unat bm" using len assms(2) by (simp add: unat_word_ariths PGSIZE_eq)
  have c: "unat (n - bm) \<le> 32 * (1024 * unat bm - 2)" "unat (bitmap_buf_size (n - bm)) \<le> unat (bm * PGSIZE)"
    using bitmap_fits [OF bn] len assms(2) unat_buf_size [of "n - bm"] by (simp_all add: mul)
  then obtain b where "bitmap_set_all \<lparr>bit_cnt = n - bm, bits = drop 2 (words_at m start (unat (bm * PGSIZE) div 4))\<rparr> False = Inr b"
    using bitmap_set_all_bits [of "\<lparr>bit_cnt = n - bm, bits = drop 2 (words_at m start (unat (bm * PGSIZE) div 4))\<rparr>" False]
    by (auto simp: bm_wf_def words_at_def mul)
  then show ?thesis using assms(1) c(2)
    by (simp add: init_pool_def bitmap_create_in_buf_def word_le_nat_alt word_less_nat_alt Let_def flip: bm_def)
qed

lemma palloc_init_ok:
  assumes e: "unat kernel_end \<le> 2 ^ 32 - 4096" "kernel_end \<noteq> NULL" and r: "unat ram_pages < 2 ^ 18"
    and f: "unat (pg_round_up kernel_end) \<le> 0xc0000000 + 4096 * unat ram_pages"
    and i: "palloc_init kernel_end ram_pages user_page_limit m = Inr s"
  shows "pages_ok s \<and> pages_used s = {} \<and> pmem s = m"
proof -
  define fs where "fs = pg_round_up kernel_end"
  define fe where "fe = ram_pages * PGSIZE + PHYS_BASE"
  define fp where "fp = (fe - fs) div PGSIZE"
  define up where "up = (if fp div 2 > user_page_limit then user_page_limit else fp div 2)"
  define kp where "kp = fp - up"
  have ufs: "unat fs = (unat kernel_end + 4095) div 4096 * 4096" unfolding fs_def using e(1) by (rule unat_pg_round_up)
  have al: "pg_ofs fs = 0" using ufs pg_ofs_mod [of fs] by (simp add: unat_eq_zero)
  have nz: "fs \<noteq> NULL" using ufs e(2) by (auto simp: unat_eq_zero [symmetric] simp del: unat_eq_zero)
  have ufe: "unat fe = 0xc0000000 + 4096 * unat ram_pages"
    using r by (simp add: fe_def PHYS_BASE_def PGSIZE_eq unat_word_ariths)
  have P: "unat fs = 4096 * unat (pg_no fs)" by (rule base_address [OF al])
  have ufp: "unat (pg_no fs) + unat fp = 0xc0000 + unat ram_pages"
  proof -
    have "unat (fe - fs) = unat fe - unat fs" using f ufe by (simp add: unat_sub word_le_nat_alt fs_def)
    then have "unat fp = (unat fe - unat fs) div 4096" by (simp add: fp_def unat_div PGSIZE_eq)
    then show ?thesis using P ufe f by (simp add: fs_def)
  qed
  have "up \<le> fp div 2" by (simp add: up_def less_imp_le)
  then have upn: "unat up \<le> unat fp" by (simp add: word_le_nat_alt unat_div)
  then have kpn: "unat kp + unat up = unat fp" by (simp add: kp_def unat_sub word_le_nat_alt)
  have mid: "unat (fs + kp * PGSIZE) = 4096 * (unat (pg_no fs) + unat kp)"
    using P ufp kpn r by (simp add: unat_word_ariths PGSIZE_eq)
  then have midp: "pg_ofs (fs + kp * PGSIZE) = 0" "unat (pg_no (fs + kp * PGSIZE)) = unat (pg_no fs) + unat kp"
    using pg_ofs_mod [of "fs + kp * PGSIZE"] by (simp_all add: unat_eq_zero pg_no_div)
  have midn: "fs + kp * PGSIZE \<noteq> NULL" using mid P nz by (auto simp: unat_eq_zero [symmetric] simp del: unat_eq_zero)
  have "bindR (init_pool fs kp m) (\<lambda>k. bindR (init_pool (fs + kp * PGSIZE) up m) (\<lambda>u.
      Inr \<lparr>kernel_pool = k, user_pool = u, pmem = m\<rparr>)) = Inr s"
    using i unfolding palloc_init_def ptov_def Let_def kp_def up_def fp_def fe_def fs_def
    by (simp only: require_def bindR_Inr bindR_Inl split: if_splits) simp_all
  then obtain k u where k: "init_pool fs kp m = Inr k" and u: "init_pool (fs + kp * PGSIZE) up m = Inr u"
      and s: "s = \<lparr>kernel_pool = k, user_pool = u, pmem = m\<rparr>"
    by auto
  have "pool_ok k \<and> pool_used k = {} \<and> pool_pages k \<subseteq> page_range fs kp"
    by (rule init_pool_ok [OF al nz _ k]) (use ufp kpn r in simp)
  moreover have "pool_ok u \<and> pool_used u = {} \<and> pool_pages u \<subseteq> page_range (fs + kp * PGSIZE) up"
    by (rule init_pool_ok [OF midp(1) midn _ u]) (use ufp kpn r midp(2) in simp)
  moreover have "page_range fs kp \<inter> page_range (fs + kp * PGSIZE) up = {}" by (auto simp: page_range_def midp(2))
  ultimately show ?thesis by (auto simp: s pages_ok_def pages_used_def)
qed

section \<open>The allocator contract\<close>

definition pal_take :: "pages \<Rightarrow> nat set \<Rightarrow> pages \<Rightarrow> bool" where
  "pal_take s X s' \<longleftrightarrow> (\<exists>flags cnt p. palloc_get_multiple flags cnt s = okE (p, s') \<and> p \<noteq> NULL \<and> X = page_range p cnt)"

definition pal_give :: "pages \<Rightarrow> nat set \<Rightarrow> pages \<Rightarrow> bool" where
  "pal_give s X s' \<longleftrightarrow> (\<exists>p cnt. palloc_free_multiple p cnt s = Inr s' \<and> p \<noteq> NULL \<and> 0 < cnt \<and> X = page_range p cnt)"

interpretation page_extents: extent_allocator pages_ok pages_used pal_take pal_give
proof unfold_locales
  fix s X s'
  assume ok: "pages_ok s"
  show "pages_ok s' \<and> X \<inter> pages_used s = {} \<and> pages_used s' = pages_used s \<union> X" if t: "pal_take s X s'"
  proof -
    obtain flags cnt p where g: "palloc_get_multiple flags cnt s = okE (p, s')" "p \<noteq> NULL" "X = page_range p cnt"
      using t by (auto simp: pal_take_def)
    then have "0 < cnt" by (auto simp: palloc_get_multiple_def word_neq_0_conv [symmetric])
    then show ?thesis using get_multiple_result [OF ok _ refl, of cnt flags] g by auto
  qed
  show "pages_ok s' \<and> X \<subseteq> pages_used s \<and> pages_used s' = pages_used s - X" if g: "pal_give s X s'"
  proof -
    obtain p cnt where f: "palloc_free_multiple p cnt s = Inr s'" "p \<noteq> NULL" "0 < cnt" "X = page_range p cnt"
      using g by (auto simp: pal_give_def)
    then show ?thesis using free_multiple_result [OF ok f(2,3,1)] by simp
  qed
qed

section \<open>The properties\<close>


definition demo_pages :: pages where
  "demo_pages = \<lparr>kernel_pool = \<lparr>used_map = \<lparr>bit_cnt = 4, bits = [1]\<rparr>, base = 0xc0100000\<rparr>,
     user_pool = \<lparr>used_map = \<lparr>bit_cnt = 4, bits = [0]\<rparr>, base = 0xc0200000\<rparr>, pmem = (\<lambda>_. 7)\<rparr>"

lemma demo_pages_ok: "pages_ok demo_pages"
  by (simp add: demo_pages_def pages_ok_def pool_ok_def pool_pages_def bm_wf_def pg_ofs_def pg_no_def vaddr_defs)


text \<open>
  C19. After any sequence of allocations and releases of pages since the start of the kernel, the
  groups of pages in the hands of clients are pairwise disjoint and they are exactly the pages
  marked as used.
\<close>

theorem palloc_live_disjoint:
  assumes "unat kernel_end \<le> 2 ^ 32 - 4096" "kernel_end \<noteq> NULL" "unat ram_pages < 2 ^ 18"
    "unat (pg_round_up kernel_end) \<le> 0xc0000000 + 4096 * unat ram_pages"
    "palloc_init kernel_end ram_pages user_page_limit m = Inr s0"
    "history pal_take pal_give s0 live s"
  shows "disjoint_list live \<and> pages_used s = \<Union> (set live)"
  using page_extents.history_disjoint [OF assms(6)] palloc_init_ok [OF assms(1-5)] by simp

text \<open>A machine with 262 pages of memory whose kernel ends at the first megabyte.\<close>

lemma demo_init: "\<exists>s. palloc_init 0xc0100000 0x106 0xffffffff m = Inr s"
proof -
  have e: "DIV_ROUND_UP (bitmap_buf_size 3) PGSIZE = 1"
    by (simp add: DIV_ROUND_UP_def bitmap_buf_size_def byte_cnt_def elem_cnt_def ELEM_BITS_def PGSIZE_eq)
  obtain k u where "init_pool 0xc0100000 3 m = Inr k" "init_pool 0xc0103000 3 m = Inr u"
    using init_pool_succeeds [of 3 "0xc0100000" m] init_pool_succeeds [of 3 "0xc0103000" m] by (auto simp: e)
  then show ?thesis
    by (simp add: palloc_init_def ptov_def pg_round_up_def vaddr_defs Let_def)
qed

theorem palloc_live_witness:
  "\<exists>s0. palloc_init 0xc0100000 0x106 0xffffffff (\<lambda>_. 0) = Inr s0 \<and> pages_used s0 = {} \<and>
     (\<forall>X s. pal_take s0 X s \<longrightarrow> pages_used s = X)"
proof -
  obtain s0 where s0: "palloc_init 0xc0100000 0x106 0xffffffff (\<lambda>_. 0) = Inr s0" using demo_init by blast
  have a: "unat (0xc0100000 :: ptr) \<le> 2 ^ 32 - 4096" "(0xc0100000 :: ptr) \<noteq> NULL" "unat (0x106 :: u32) < 2 ^ 18"
    "unat (pg_round_up 0xc0100000) \<le> 0xc0000000 + 4096 * unat (0x106 :: u32)"
    by (simp_all add: pg_round_up_def vaddr_defs)
  have h: "history pal_take pal_give s0 [] s0" by (rule history.start)
  have "pages_used s0 = {}" using palloc_live_disjoint [OF a s0 h] by simp
  moreover have "pages_used s = X" if "pal_take s0 X s" for X s
    using palloc_live_disjoint [OF a s0 history.taken [OF h that]] by simp
  ultimately show ?thesis using s0 by blast
qed

end
