(* ===== verification/Kmalloc.thy ===== *)
theory Kmalloc
  imports Kpalloc
begin

text \<open>
  \<^verbatim>\<open>threads/malloc.c\<close>: the block allocator on top of the page allocator. The headers of arenas
  are kept as a store of records by page address, the free lists as sequences of block
  addresses (what \<^verbatim>\<open>list.c\<close> gives), the bytes of blocks in the memory of the page allocator. An
  arena names its descriptor by its index. Each operation on a descriptor runs under its lock, so
  it is one step.
\<close>

section \<open>The code\<close>

record desc =
  block_size :: u32
  blocks_per_arena :: u32
  free_list :: "ptr list"

record arena =
  a_magic :: u32
  a_desc :: "nat option"
  free_cnt :: u32

record heap =
  hp :: pages
  descs :: "desc list"
  arenas :: "ptr \<Rightarrow> arena"

definition ARENA_MAGIC :: u32 where "ARENA_MAGIC = 0x9a548eed"
definition arena_size :: u32 where "arena_size = 12"

text \<open>The loop over the block sizes; \<^verbatim>\<open>descs\<close> has room for ten.\<close>

function malloc_init_loop :: "u32 \<Rightarrow> desc list \<Rightarrow> desc list res" where
  "malloc_init_loop bsize ds =
     (if bsize < PGSIZE div 2
      then if length ds < 10
        then malloc_init_loop (bsize * 2) (ds @ [\<lparr>block_size = bsize, blocks_per_arena = (PGSIZE - arena_size) div bsize,
           free_list = []\<rparr>])
        else Inl Assert_fail
      else Inr ds)"
  by pat_completeness auto
termination
  by (relation "measure (\<lambda>(bsize, ds). 10 - length ds)") auto

definition malloc_init :: "desc list res" where
  "malloc_init = malloc_init_loop 16 []"

definition block_to_arena :: "ptr \<Rightarrow> heap \<Rightarrow> ptr res" where
  "block_to_arena b h = (let a = pg_round_down b in
     require (a \<noteq> NULL) (require (a_magic (arenas h a) = ARENA_MAGIC)
     (require (case a_desc (arenas h a) of None \<Rightarrow> True
        | Some i \<Rightarrow> (pg_ofs b - arena_size) mod block_size (descs h ! i) = 0)
     (require (a_desc (arenas h a) \<noteq> None \<or> pg_ofs b = arena_size) (Inr a)))))"

definition arena_to_block :: "ptr \<Rightarrow> u32 \<Rightarrow> heap \<Rightarrow> ptr res" where
  "arena_to_block a idx h = require (a \<noteq> NULL) (require (a_magic (arenas h a) = ARENA_MAGIC)
     (case a_desc (arenas h a) of None \<Rightarrow> Inl Bad_access
      | Some i \<Rightarrow> require (idx < blocks_per_arena (descs h ! i))
          (Inr (a + arena_size + idx * block_size (descs h ! i)))))"

fun find_desc :: "u32 \<Rightarrow> desc list \<Rightarrow> nat" where
  "find_desc sz [] = 0"
| "find_desc sz (d # ds) = (if block_size d \<ge> sz then 0 else Suc (find_desc sz ds))"

definition set_free_list :: "nat \<Rightarrow> ptr list \<Rightarrow> heap \<Rightarrow> heap" where
  "set_free_list d bs h = h\<lparr>descs := (descs h)[d := (descs h ! d)\<lparr>free_list := bs\<rparr>]\<rparr>"

definition set_arena :: "ptr \<Rightarrow> arena \<Rightarrow> heap \<Rightarrow> heap" where
  "set_arena a x h = h\<lparr>arenas := (arenas h)(a := x)\<rparr>"

fun push_blocks :: "nat \<Rightarrow> ptr \<Rightarrow> nat \<Rightarrow> nat \<Rightarrow> heap \<Rightarrow> heap res" where
  "push_blocks d a i 0 h = Inr h"
| "push_blocks d a i (Suc n) h = bindR (arena_to_block a (of_nat i) h) (\<lambda>b.
     push_blocks d a (Suc i) n (set_free_list d (free_list (descs h ! d) @ [b]) h))"

definition malloc :: "u32 \<Rightarrow> heap \<Rightarrow> (ptr \<times> heap) exec" where
  "malloc sz h =
     (if sz = 0 then okE (NULL, h)
      else let d = find_desc sz (descs h) in
        if d = length (descs h)
        then let page_cnt = DIV_ROUND_UP (sz + arena_size) PGSIZE in
          bindE (palloc_get_multiple 0 page_cnt (hp h)) (\<lambda>(a, p).
          if a = NULL then okE (NULL, h\<lparr>hp := p\<rparr>)
          else okE (a + arena_size, set_arena a \<lparr>a_magic = ARENA_MAGIC, a_desc = None, free_cnt = page_cnt\<rparr> (h\<lparr>hp := p\<rparr>)))
        else bindE (if free_list (descs h ! d) = []
            then bindE (palloc_get_page 0 (hp h)) (\<lambda>(a, p).
              if a = NULL then okE (False, h\<lparr>hp := p\<rparr>)
              else bindE (Some (push_blocks d a 0 (unat (blocks_per_arena (descs h ! d)))
                  (set_arena a \<lparr>a_magic = ARENA_MAGIC, a_desc = Some d, free_cnt = blocks_per_arena (descs h ! d)\<rparr> (h\<lparr>hp := p\<rparr>))))
                (\<lambda>h. okE (True, h)))
            else okE (True, h)) (\<lambda>(ok, h).
          if \<not> ok then okE (NULL, h)
          else case free_list (descs h ! d) of [] \<Rightarrow> Some (Inl Assert_fail)
            | b # bs \<Rightarrow> let h = set_free_list d bs h in
                bindE (Some (block_to_arena b h)) (\<lambda>a.
                okE (b, set_arena a ((arenas h a)\<lparr>free_cnt := free_cnt (arenas h a) - 1\<rparr>) h))))"

definition heap_memset :: "ptr \<Rightarrow> u8 \<Rightarrow> u32 \<Rightarrow> heap \<Rightarrow> heap res" where
  "heap_memset p v n h = bindR (memset p v n (pmem (hp h))) (\<lambda>(_, m). Inr (h\<lparr>hp := (hp h)\<lparr>pmem := m\<rparr>\<rparr>))"

definition calloc :: "u32 \<Rightarrow> u32 \<Rightarrow> heap \<Rightarrow> (ptr \<times> heap) exec" where
  "calloc a b h = (let sz = a * b in
     if sz < a \<or> sz < b then okE (NULL, h)
     else bindE (malloc sz h) (\<lambda>(p, h).
       if p \<noteq> NULL then bindE (Some (heap_memset p 0 sz h)) (\<lambda>h. okE (p, h)) else okE (p, h)))"

definition block_size_of :: "ptr \<Rightarrow> heap \<Rightarrow> u32 res" where
  "block_size_of b h = bindR (block_to_arena b h) (\<lambda>a.
     case a_desc (arenas h a) of
       Some i \<Rightarrow> Inr (block_size (descs h ! i))
     | None \<Rightarrow> Inr (PGSIZE * free_cnt (arenas h a) - pg_ofs b))"

text \<open>
  Freed pages are filled with \<open>0xcc\<close>, the headers in them included.
\<close>

definition wipe_arenas :: "ptr \<Rightarrow> u32 \<Rightarrow> heap \<Rightarrow> heap" where
  "wipe_arenas p n h = h\<lparr>arenas := (\<lambda>x. if in_block x p (PGSIZE * n)
     then \<lparr>a_magic = 0xcccccccc, a_desc = a_desc (arenas h x), free_cnt = 0xcccccccc\<rparr> else arenas h x)\<rparr>"

fun remove_blocks :: "nat \<Rightarrow> ptr \<Rightarrow> nat \<Rightarrow> nat \<Rightarrow> heap \<Rightarrow> heap res" where
  "remove_blocks d a i 0 h = Inr h"
| "remove_blocks d a i (Suc n) h = bindR (arena_to_block a (of_nat i) h) (\<lambda>b.
     if b \<in> set (free_list (descs h ! d))
     then remove_blocks d a (Suc i) n (set_free_list d (remove1 b (free_list (descs h ! d))) h)
     else Inl Bad_access)"

definition free :: "ptr \<Rightarrow> heap \<Rightarrow> heap res" where
  "free p h =
     (if p = NULL then Inr h
      else bindR (block_to_arena p h) (\<lambda>a.
        case a_desc (arenas h a) of
          Some d \<Rightarrow>
            bindR (heap_memset p 0xcc (block_size (descs h ! d)) h) (\<lambda>h.
            let h = set_free_list d (p # free_list (descs h ! d)) h;
                h = set_arena a ((arenas h a)\<lparr>free_cnt := free_cnt (arenas h a) + 1\<rparr>) h
            in if free_cnt (arenas h a) \<ge> blocks_per_arena (descs h ! d)
               then require (free_cnt (arenas h a) = blocks_per_arena (descs h ! d))
                 (bindR (remove_blocks d a 0 (unat (blocks_per_arena (descs h ! d))) h) (\<lambda>h.
                  bindR (palloc_free_page a (hp h)) (\<lambda>p. Inr (wipe_arenas a 1 (h\<lparr>hp := p\<rparr>)))))
               else Inr h)
        | None \<Rightarrow> bindR (palloc_free_multiple a (free_cnt (arenas h a)) (hp h)) (\<lambda>p.
            Inr (wipe_arenas a (free_cnt (arenas h a)) (h\<lparr>hp := p\<rparr>)))))"

definition realloc :: "ptr \<Rightarrow> u32 \<Rightarrow> heap \<Rightarrow> (ptr \<times> heap) exec" where
  "realloc old_block new_size h =
     (if new_size = 0 then bindE (Some (free old_block h)) (\<lambda>h. okE (NULL, h))
      else bindE (malloc new_size h) (\<lambda>(new_block, h).
        if old_block \<noteq> NULL \<and> new_block \<noteq> NULL
        then bindE (Some (block_size_of old_block h)) (\<lambda>old_size.
          let min_size = (if new_size < old_size then new_size else old_size) in
          bindE (Some (memcpy new_block old_block min_size (pmem (hp h)))) (\<lambda>(_, m).
          bindE (Some (free old_block (h\<lparr>hp := (hp h)\<lparr>pmem := m\<rparr>\<rparr>))) (\<lambda>h. okE (new_block, h))))
        else okE (new_block, h)))"

section \<open>Sizes and addresses\<close>

definition std_sizes :: "(nat \<times> nat) list" where
  "std_sizes = [(16, 255), (32, 127), (64, 63), (128, 31), (256, 15), (512, 7), (1024, 3)]"

abbreviation bsz :: "heap \<Rightarrow> nat \<Rightarrow> nat" where "bsz h d \<equiv> unat (block_size (descs h ! d))"
abbreviation bpa :: "heap \<Rightarrow> nat \<Rightarrow> nat" where "bpa h d \<equiv> unat (blocks_per_arena (descs h ! d))"
abbreviation fl :: "heap \<Rightarrow> nat \<Rightarrow> ptr list" where "fl h d \<equiv> free_list (descs h ! d)"

definition sizes :: "desc list \<Rightarrow> (nat \<times> nat) list" where
  "sizes ds = map (\<lambda>d. (unat (block_size d), unat (blocks_per_arena d))) ds"

lemma malloc_init_result:
  "\<exists>ds. malloc_init = Inr ds \<and> sizes ds = std_sizes \<and> (\<forall>d \<in> set ds. free_list d = [])"
  by (simp add: malloc_init_def malloc_init_loop.simps PGSIZE_eq arena_size_def sizes_def std_sizes_def)

lemma sizes_facts:
  assumes "sizes (descs h) = std_sizes"
  shows "length (descs h) = 7" "d < 7 \<Longrightarrow> 16 \<le> bsz h d \<and> bsz h d \<le> 1024" "d < 7 \<Longrightarrow> 3 \<le> bpa h d \<and> bpa h d \<le> 255"
    "d < 7 \<Longrightarrow> 12 + bpa h d * bsz h d \<le> 4096"
proof -
  have l: "length (descs h) = 7" using arg_cong [OF assms, of length] by (simp add: sizes_def std_sizes_def)
  have e: "(bsz h d, bpa h d) = std_sizes ! d" if "d < 7" for d
    using arg_cong [OF assms, of "\<lambda>xs. xs ! d"] that l by (simp add: sizes_def)
  have c: "(bsz h d, bpa h d) \<in> set std_sizes" if "d < 7" for d
    unfolding e [OF that] by (rule nth_mem) (use that in \<open>simp add: std_sizes_def\<close>)
  have k: "\<forall>(s, n) \<in> set std_sizes. 16 \<le> s \<and> s \<le> 1024 \<and> 3 \<le> n \<and> n \<le> 255 \<and> 12 + n * s \<le> 4096"
    by (simp add: std_sizes_def)
  show "length (descs h) = 7" by (rule l)
  show "d < 7 \<Longrightarrow> 16 \<le> bsz h d \<and> bsz h d \<le> 1024" "d < 7 \<Longrightarrow> 3 \<le> bpa h d \<and> bpa h d \<le> 255"
    "d < 7 \<Longrightarrow> 12 + bpa h d * bsz h d \<le> 4096"
    using bspec [OF k c, of d] by simp_all
qed

definition block_addr :: "heap \<Rightarrow> nat \<Rightarrow> ptr \<Rightarrow> nat \<Rightarrow> ptr" where
  "block_addr h d a i = a + arena_size + of_nat i * block_size (descs h ! d)"

lemma block_addr_unat:
  assumes z: "sizes (descs h) = std_sizes" and d: "d < 7" and a: "pg_ofs a = 0" and i: "i < bpa h d"
  shows "unat (block_addr h d a i) = unat a + (12 + i * bsz h d)" "12 + i * bsz h d + bsz h d \<le> 4096"
proof -
  have "(i + 1) * bsz h d \<le> bpa h d * bsz h d" using i by (intro mult_right_mono) simp_all
  then show le: "12 + i * bsz h d + bsz h d \<le> 4096" using sizes_facts(4) [OF z d] by simp
  have i2: "i \<le> 255" using i sizes_facts(3) [OF z d] by simp
  have m: "unat (of_nat i * block_size (descs h ! d)) = i * bsz h d"
    using le i2 by (simp add: unat_word_ariths unat_of_nat)
  have p: "0 < bsz h d" using sizes_facts(2) [OF z d] by simp
  have "unat (a + arena_size) = unat a + 12" using page_no_bound [OF a] by (simp add: unat_word_ariths arena_size_def)
  then show "unat (block_addr h d a i) = unat a + (12 + i * bsz h d)"
    using m le p page_no_bound [OF a] by (simp add: block_addr_def unat_word_ariths(1))
qed

lemma block_addr_page:
  assumes "sizes (descs h) = std_sizes" "d < 7" "pg_ofs a = 0" "i < bpa h d"
  shows "pg_round_down (block_addr h d a i) = a" "unat (pg_ofs (block_addr h d a i)) = 12 + i * bsz h d"
proof -
  have "12 + i * bsz h d < 4096" using block_addr_unat(2) [OF assms] sizes_facts(2) [OF assms(1,2)] by linarith
  note p = in_page [OF assms(3) block_addr_unat(1) [OF assms] this]
  show "pg_round_down (block_addr h d a i) = a" "unat (pg_ofs (block_addr h d a i)) = 12 + i * bsz h d"
    by (rule p(1), rule p(2))
qed

lemma block_addr_inj:
  assumes "sizes (descs h) = std_sizes" "d < 7" "pg_ofs a = 0" "i < bpa h d" "j < bpa h d"
    "block_addr h d a i = block_addr h d a j"
  shows "i = j"
proof -
  have "i * bsz h d = j * bsz h d"
    using block_addr_unat(1) [OF assms(1-4)] block_addr_unat(1) [OF assms(1-3,5)] by (simp only: assms(6))
  then show ?thesis using sizes_facts(2) [OF assms(1,2)] by simp
qed

lemma block_addr_cong: "descs h' ! d = (descs h ! d)\<lparr>free_list := xs\<rparr> \<Longrightarrow> block_addr h' d = block_addr h d"
  by (simp add: block_addr_def fun_eq_iff)

section \<open>The heap invariant\<close>

definition is_arena :: "heap \<Rightarrow> ptr \<Rightarrow> bool" where
  "is_arena h a \<longleftrightarrow> pg_ofs a = 0 \<and> a \<noteq> NULL \<and> a_magic (arenas h a) = ARENA_MAGIC"

definition arena_pages :: "heap \<Rightarrow> ptr \<Rightarrow> nat set" where
  "arena_pages h a = page_range a (case a_desc (arenas h a) of None \<Rightarrow> free_cnt (arenas h a) | Some _ \<Rightarrow> 1)"

definition block_in :: "heap \<Rightarrow> nat \<Rightarrow> ptr \<Rightarrow> ptr \<Rightarrow> bool" where
  "block_in h d a b \<longleftrightarrow> (\<exists>i < bpa h d. b = block_addr h d a i)"

definition free_in :: "heap \<Rightarrow> nat \<Rightarrow> ptr \<Rightarrow> ptr set" where
  "free_in h d a = {b \<in> set (fl h d). pg_round_down b = a}"

definition arena_ok :: "heap \<Rightarrow> ptr \<Rightarrow> bool" where
  "arena_ok h a \<longleftrightarrow> arena_pages h a \<subseteq> pool_used (kernel_pool (hp h)) \<and>
     (case a_desc (arenas h a) of
        None \<Rightarrow> 0 < free_cnt (arenas h a)
      | Some d \<Rightarrow> d < 7 \<and> unat (free_cnt (arenas h a)) = card (free_in h d a))"

definition free_ok :: "heap \<Rightarrow> nat \<Rightarrow> bool" where
  "free_ok h d \<longleftrightarrow> distinct (fl h d) \<and> (\<forall>b \<in> set (fl h d). is_arena h (pg_round_down b) \<and>
     a_desc (arenas h (pg_round_down b)) = Some d \<and> block_in h d (pg_round_down b) b)"

definition heap_ok :: "heap \<Rightarrow> bool" where
  "heap_ok h \<longleftrightarrow> pages_ok (hp h) \<and> sizes (descs h) = std_sizes \<and> (\<forall>a. is_arena h a \<longrightarrow> arena_ok h a) \<and>
     (\<forall>a a'. is_arena h a \<and> is_arena h a' \<and> a \<noteq> a' \<longrightarrow> arena_pages h a \<inter> arena_pages h a' = {}) \<and>
     (\<forall>d < 7. free_ok h d)"

text \<open>The blocks in the hands of clients and the bytes they occupy.\<close>

definition live :: "heap \<Rightarrow> ptr set" where
  "live h = {b. is_arena h (pg_round_down b) \<and> (case a_desc (arenas h (pg_round_down b)) of
     None \<Rightarrow> b = pg_round_down b + arena_size
   | Some d \<Rightarrow> block_in h d (pg_round_down b) b \<and> b \<notin> set (fl h d))}"

definition extent :: "heap \<Rightarrow> ptr \<Rightarrow> nat set" where
  "extent h b = {unat b..<unat b + (case a_desc (arenas h (pg_round_down b)) of
     None \<Rightarrow> 4096 * unat (free_cnt (arenas h (pg_round_down b))) - 12 | Some d \<Rightarrow> bsz h d)}"

definition heap_used :: "heap \<Rightarrow> nat set" where
  "heap_used h = (\<Union>b \<in> live h. extent h b)"

text \<open>
  A block's address mentions its own page, so these facts are kept away from the simplifier.
\<close>

lemma live_small:
  assumes "b \<in> live h" "a_desc (arenas h (pg_round_down b)) = Some d"
  shows "is_arena h (pg_round_down b)" "\<exists>i. i < bpa h d \<and> b = block_addr h d (pg_round_down b) i" "b \<notin> set (fl h d)"
  using assms unfolding live_def block_in_def by simp_all

lemma live_big:
  assumes "b \<in> live h" "a_desc (arenas h (pg_round_down b)) = None"
  shows "is_arena h (pg_round_down b)" "b = pg_round_down b + arena_size"
  using assms unfolding live_def by simp_all

lemma heap_okD:
  assumes "heap_ok h"
  shows "pages_ok (hp h)" "sizes (descs h) = std_sizes" "is_arena h a \<Longrightarrow> arena_ok h a"
    "is_arena h a \<Longrightarrow> is_arena h a' \<Longrightarrow> a \<noteq> a' \<Longrightarrow> arena_pages h a \<inter> arena_pages h a' = {}"
    "d < 7 \<Longrightarrow> free_ok h d"
  using assms unfolding heap_ok_def by blast+

lemma live_arena: "b \<in> live h \<Longrightarrow> is_arena h (pg_round_down b)"
  by (simp add: live_def)

lemma extent_pages:
  assumes ok: "heap_ok h" and b: "b \<in> live h"
  shows "x \<in> extent h b \<Longrightarrow> x div 4096 \<in> arena_pages h (pg_round_down b)" "unat b \<in> extent h b"
proof -
  let ?a = "pg_round_down b"
  have a: "is_arena h ?a" using b by (simp add: live_def)
  have ao: "arena_ok h ?a" using ok a by (simp add: heap_ok_def)
  have al: "pg_ofs ?a = 0" by simp
  have ua: "unat ?a = 4096 * unat (pg_no ?a)" by (rule base_address [OF al])
  have z: "sizes (descs h) = std_sizes" using ok by (simp add: heap_ok_def)
  have "(x \<in> extent h b \<longrightarrow> x div 4096 \<in> arena_pages h ?a) \<and> unat b \<in> extent h b"
  proof (cases "a_desc (arenas h ?a)")
    case None
    have e: "b = ?a + arena_size" using live_big(2) [OF b None] .
    have f: "0 < unat (free_cnt (arenas h ?a))" using ao None by (simp add: arena_ok_def word_less_nat_alt)
    have "unat (?a + arena_size) = unat ?a + 12"
      using page_no_bound [OF al] by (simp add: unat_word_ariths arena_size_def)
    then have "unat b = unat ?a + 12" unfolding e [symmetric] .
    then show ?thesis using None f ua by (auto simp: extent_def arena_pages_def page_range_def)
  next
    case (Some d)
    obtain i where i: "i < bpa h d" "b = block_addr h d ?a i" using live_small(2) [OF b Some] by (elim exE conjE)
    have d: "d < 7" using ao Some by (simp add: arena_ok_def)
    note u = block_addr_unat [OF z d al i(1)]
    have "unat b = unat ?a + (12 + i * bsz h d)" using u(1) unfolding i(2) [symmetric] .
    then show ?thesis using Some u(2) ua sizes_facts(2) [OF z d] by (auto simp: extent_def arena_pages_def page_range_def)
  qed
  then show "x \<in> extent h b \<Longrightarrow> x div 4096 \<in> arena_pages h ?a" "unat b \<in> extent h b" by auto
qed

lemma live_disjoint:
  assumes ok: "heap_ok h" and b: "b \<in> live h" "b' \<in> live h" "b \<noteq> b'"
  shows "extent h b \<inter> extent h b' = {}"
proof (cases "pg_round_down b = pg_round_down b'")
  case False
  then have "arena_pages h (pg_round_down b) \<inter> arena_pages h (pg_round_down b') = {}"
    using ok b by (simp add: heap_ok_def live_def)
  then show ?thesis using extent_pages(1) [OF ok b(1)] extent_pages(1) [OF ok b(2)] by blast
next
  case True
  let ?a = "pg_round_down b"
  note z = heap_okD(2) [OF ok]
  have ao: "arena_ok h ?a" by (rule heap_okD(3) [OF ok live_arena [OF b(1)]])
  obtain d where d: "a_desc (arenas h ?a) = Some d"
  proof (cases "a_desc (arenas h ?a)")
    case None
    have "b = ?a + arena_size" by (rule live_big(2) [OF b(1) None])
    moreover have "b' = ?a + arena_size" using live_big(2) [OF b(2) None [unfolded True]] unfolding True .
    ultimately show ?thesis using b(3) by metis
  next
    case (Some d)
    then show ?thesis by (rule that)
  qed
  have d': "a_desc (arenas h (pg_round_down b')) = Some d" using d unfolding True .
  obtain i where i: "i < bpa h d" "b = block_addr h d ?a i" using live_small(2) [OF b(1) d] by (elim exE conjE)
  obtain j where j: "j < bpa h d" "b' = block_addr h d ?a j"
    using live_small(2) [OF b(2) d'] unfolding True by (elim exE conjE)
  have d7: "d < 7" using ao d by (simp add: arena_ok_def)
  have al: "pg_ofs ?a = 0" by simp
  have u: "unat b = unat ?a + (12 + i * bsz h d)" "unat b' = unat ?a + (12 + j * bsz h d)"
    using block_addr_unat(1) [OF z d7 al i(1)] block_addr_unat(1) [OF z d7 al j(1)]
    unfolding i(2) [symmetric] j(2) [symmetric] by blast+
  have "i \<noteq> j" using i(2) j(2) b(3) by metis
  then have "(i + 1) * bsz h d \<le> j * bsz h d \<or> (j + 1) * bsz h d \<le> i * bsz h d"
    by (metis Suc_eq_plus1 Suc_leI linorder_neqE_nat mult_le_mono1)
  then show ?thesis using d d' u by (auto simp: extent_def)
qed

lemma used_insert:
  assumes ok: "heap_ok h'" and l: "live h' = insert b (live h)" "b \<notin> live h"
    and e: "\<And>x. x \<in> live h \<Longrightarrow> extent h' x = extent h x"
  shows "extent h' b \<inter> heap_used h = {} \<and> heap_used h' = heap_used h \<union> extent h' b"
proof -
  have u: "heap_used h = (\<Union>x \<in> live h. extent h' x)" by (simp add: heap_used_def e)
  have "extent h' b \<inter> extent h' x = {}" if "x \<in> live h" for x
    by (rule live_disjoint [OF ok]) (use that l in auto)
  then show ?thesis unfolding u by (auto simp: heap_used_def l(1))
qed

lemma used_remove:
  assumes ok: "heap_ok h" and l: "live h' = live h - {b}" "b \<in> live h"
    and e: "\<And>x. x \<in> live h' \<Longrightarrow> extent h' x = extent h x"
  shows "extent h b \<subseteq> heap_used h \<and> heap_used h' = heap_used h - extent h b"
proof -
  have u: "heap_used h' = (\<Union>x \<in> live h - {b}. extent h x)" using e l(1) by (simp add: heap_used_def)
  have "extent h b \<inter> extent h x = {}" if "x \<in> live h - {b}" for x
    by (rule live_disjoint [OF ok]) (use that l in auto)
  then show ?thesis unfolding u using l(2) by (auto simp: heap_used_def)
qed

section \<open>Taking a block from a free list\<close>

lemma set_free_list_fields:
  assumes "d < length (descs h)"
  shows "hp (set_free_list d xs h) = hp h" "arenas (set_free_list d xs h) = arenas h"
    "descs (set_free_list d xs h) ! d' = (if d' = d then (descs h ! d)\<lparr>free_list := xs\<rparr> else descs h ! d')"
    "sizes (descs (set_free_list d xs h)) = sizes (descs h)" "length (descs (set_free_list d xs h)) = length (descs h)"
  using assms by (simp_all add: set_free_list_def sizes_def map_update) (simp add: list_update_same_conv)

lemma block_in_page:
  assumes "heap_ok h" "is_arena h a" "a_desc (arenas h a) = Some d" "block_in h d a b"
  shows "pg_round_down b = a" "d < 7"
proof -
  show d: "d < 7" using heap_okD(3) [OF assms(1,2)] assms(3) by (simp add: arena_ok_def)
  obtain i where i: "i < bpa h d" "b = block_addr h d a i" using assms(4) by (auto simp: block_in_def)
  have "pg_ofs a = 0" using assms(2) by (simp add: is_arena_def)
  then show "pg_round_down b = a" unfolding i(2) by (rule block_addr_page(1) [OF heap_okD(2) [OF assms(1)] d _ i(1)])
qed

text \<open>One block \<open>b\<close> of arena \<open>a\<close> enters or leaves its free list.\<close>

lemma change_free:
  assumes ok: "heap_ok h" and a: "is_arena h a" "a_desc (arenas h a) = Some d" and b: "block_in h d a b"
    and f: "pages_ok (hp h')" "kernel_pool (hp h') = kernel_pool (hp h)" "sizes (descs h') = sizes (descs h)"
      "\<And>d'. descs h' ! d' = (if d' = d then (descs h ! d)\<lparr>free_list := xs\<rparr> else descs h ! d')"
      "arenas h' = (arenas h)(a := (arenas h a)\<lparr>free_cnt := c\<rparr>)"
    and x: "distinct xs" "set xs - {b} = set (fl h d) - {b}" "unat c = card {y \<in> set xs. pg_round_down y = a}"
  shows "heap_ok h'" "live h' - {b} = live h - {b}" "b \<in> live h' \<longleftrightarrow> b \<notin> set xs" "extent h' = extent h"
proof -
  note z = heap_okD(2) [OF ok] and pb = block_in_page [OF ok a b]
  have ia: "is_arena h' y \<longleftrightarrow> is_arena h y" for y by (simp add: is_arena_def f(5))
  have ds: "a_desc (arenas h' y) = a_desc (arenas h y)" for y by (simp add: f(5))
  have ap: "arena_pages h' y = arena_pages h y" for y using a(2) by (simp add: arena_pages_def f(5) split: option.splits)
  have bs: "block_size (descs h' ! d') = block_size (descs h ! d')" "blocks_per_arena (descs h' ! d') = blocks_per_arena (descs h ! d')" for d'
    by (simp_all add: f(4))
  have bi: "block_in h' d' y w \<longleftrightarrow> block_in h d' y w" for d' y w by (simp add: block_in_def block_addr_def bs)
  have fd: "fl h' d = xs" "\<And>d'. d' \<noteq> d \<Longrightarrow> fl h' d' = fl h d'" by (simp_all add: f(4))
  have mem: "w \<in> set xs \<longleftrightarrow> w \<in> set (fl h d)" if "w \<noteq> b" for w using x(2) that by blast
  have ao: "arena_ok h' y" if y: "is_arena h y" for y
  proof -
    have o: "arena_ok h y" by (rule heap_okD(3) [OF ok y])
    show ?thesis
    proof (cases "y = a")
      case True
      then show ?thesis using o a(2) pb(2) x(3) by (simp add: arena_ok_def ap ds f(2,5) free_in_def fd)
    next
      case False
      have "w \<in> free_in h' d' y \<longleftrightarrow> w \<in> free_in h d' y" for d' w
        using False pb(1) mem [of w] fd by (cases "d' = d"; cases "w = b") (simp_all add: free_in_def)
      then have "free_in h' d' y = free_in h d' y" for d' by blast
      then show ?thesis using o False by (simp add: arena_ok_def ap ds f(2,5) split: option.splits)
    qed
  qed
  have fo: "free_ok h' d'" if d': "d' < 7" for d'
  proof (cases "d' = d")
    case True
    have o: "free_ok h d" using heap_okD(5) [OF ok] d' True by simp
    have "is_arena h (pg_round_down w) \<and> a_desc (arenas h (pg_round_down w)) = Some d \<and> block_in h d (pg_round_down w) w"
      if "w \<in> set xs" for w
      using that mem [of w] o a b pb(1) by (cases "w = b") (simp_all add: free_ok_def)
    then show ?thesis using x(1) by (simp add: free_ok_def True fd ia ds bi)
  next
    case False
    then show ?thesis using heap_okD(5) [OF ok d'] by (simp add: free_ok_def fd(2) ia ds bi)
  qed
  show "heap_ok h'"
    unfolding heap_ok_def using f(1,3) z ao fo heap_okD(4) [OF ok] by (simp add: ia ap)
  show "extent h' = extent h"
    using a(2) by (auto simp: extent_def fun_eq_iff f(5) bs split: option.splits)
  have lv: "w \<in> live h' \<longleftrightarrow> w \<in> live h" if w: "w \<noteq> b" for w
  proof (cases "a_desc (arenas h (pg_round_down w))")
    case None
    then show ?thesis unfolding live_def by (simp add: ia ds)
  next
    case (Some d')
    then show ?thesis using mem [OF w] fd(2) [of d'] unfolding live_def by (cases "d' = d") (simp_all add: ia ds bi fd)
  qed
  then show "live h' - {b} = live h - {b}" by blast
  show "b \<in> live h' \<longleftrightarrow> b \<notin> set xs" unfolding live_def using a b pb(1) by (simp add: ia ds bi fd)
qed

lemma card_arena_blocks:
  assumes ok: "heap_ok h" and a: "is_arena h a" "a_desc (arenas h a) = Some d"
  shows "card (free_in h d a) \<le> bpa h d" "finite (free_in h d a)"
proof -
  have "free_in h d a \<subseteq> block_addr h d a ` {..<bpa h d}"
  proof
    fix b assume "b \<in> free_in h d a"
    then have "b \<in> set (fl h d)" "pg_round_down b = a" by (simp_all add: free_in_def)
    moreover have "free_ok h d"
      using heap_okD(3) [OF ok a(1)] a(2) by (intro heap_okD(5) [OF ok]) (simp add: arena_ok_def)
    ultimately have "block_in h d a b" unfolding free_ok_def by metis
    then show "b \<in> block_addr h d a ` {..<bpa h d}" by (auto simp: block_in_def)
  qed
  then have "card (free_in h d a) \<le> card (block_addr h d a ` {..<bpa h d})" by (rule card_mono [rotated]) simp
  also have "\<dots> \<le> card {..<bpa h d}" by (rule card_image_le) simp
  finally show "card (free_in h d a) \<le> bpa h d" by simp
  show "finite (free_in h d a)" by (simp add: free_in_def)
qed

lemma to_arena:
  assumes ok: "heap_ok h" and a: "is_arena h a" "a_desc (arenas h a) = Some d" and b: "block_in h d a b"
  shows "block_to_arena b h = Inr a"
proof -
  note z = heap_okD(2) [OF ok] and pb = block_in_page [OF ok a b]
  obtain i where i: "i < bpa h d" "b = block_addr h d a i" using b by (auto simp: block_in_def)
  have al: "pg_ofs a = 0" using a by (simp add: is_arena_def)
  have o: "unat (pg_ofs b) = 12 + i * bsz h d" unfolding i(2) by (rule block_addr_page(2) [OF z pb(2) al i(1)])
  then have "arena_size \<le> pg_ofs b" by (simp add: word_le_nat_alt arena_size_def)
  then have "unat (pg_ofs b - arena_size) = i * bsz h d" using o by (simp add: unat_sub arena_size_def)
  then have "(pg_ofs b - arena_size) mod block_size (descs h ! d) = 0"
    by (simp add: unat_eq_zero [symmetric] unat_mod del: unat_eq_zero)
  then show ?thesis using a pb(1) by (simp add: block_to_arena_def is_arena_def Let_def)
qed

lemma pop_block:
  assumes ok: "heap_ok h" and d: "d < 7" and fb: "fl h d = b # bs"
  defines "h1 \<equiv> set_free_list d bs h"
  defines "a \<equiv> pg_round_down b"
  defines "h' \<equiv> set_arena a ((arenas h1 a)\<lparr>free_cnt := free_cnt (arenas h1 a) - 1\<rparr>) h1"
  shows "block_to_arena b h1 = Inr a" "heap_ok h'" "live h' = insert b (live h)" "b \<notin> live h" "extent h' = extent h"
    "hp h' = hp h" "b \<noteq> NULL" "extent h b = {unat b..<unat b + bsz h d}"
proof -
  note z = heap_okD(2) [OF ok]
  have len: "d < length (descs h)" using sizes_facts(1) [OF z] d by simp
  note sf = set_free_list_fields [OF len, of bs]
  have fo: "free_ok h d" by (rule heap_okD(5) [OF ok d])
  then have a: "is_arena h a" "a_desc (arenas h a) = Some d" and b: "block_in h d a b"
    using fb by (simp_all add: free_ok_def a_def)
  have ao: "arena_ok h a" by (rule heap_okD(3) [OF ok a(1)])
  have cnt: "unat (free_cnt (arenas h a)) = card (free_in h d a)" using ao a(2) by (simp add: arena_ok_def)
  have split: "free_in h d a = insert b {y \<in> set bs. pg_round_down y = a}" "b \<notin> set bs" "distinct bs"
    using fo fb by (auto simp: free_in_def free_ok_def a_def)
  then have c: "card (free_in h d a) = Suc (card {y \<in> set bs. pg_round_down y = a})" by simp
  then have nz: "free_cnt (arenas h a) \<noteq> 0" using cnt by auto
  have dec: "unat (free_cnt (arenas h a) - 1) = card {y \<in> set bs. pg_round_down y = a}"
    using cnt c nz by (simp add: unat_minus_one)
  have f: "hp h' = hp h" "arenas h' = (arenas h)(a := (arenas h a)\<lparr>free_cnt := free_cnt (arenas h a) - 1\<rparr>)"
    "\<And>d'. descs h' ! d' = (if d' = d then (descs h ! d)\<lparr>free_list := bs\<rparr> else descs h ! d')"
    "sizes (descs h') = sizes (descs h)"
    by (simp_all add: h'_def h1_def set_arena_def sf)
  note ch = change_free [OF ok a b heap_okD(1) [OF ok, folded f(1)] arg_cong [OF f(1), of kernel_pool] f(4,3,2) split(3) _ dec]
  have xs: "set bs - {b} = set (fl h d) - {b}" using fb split(2) by auto
  show "heap_ok h'" "extent h' = extent h" using ch(1,4) [OF xs] by simp_all
  have nl: "b \<notin> live h" unfolding live_def using fb a by (simp add: a_def [symmetric])
  show "b \<notin> live h" by (rule nl)
  show "live h' = insert b (live h)" using ch(2,3) [OF xs] split(2) nl by blast
  show "hp h' = hp h" by (rule f)
  have "pg_round_down NULL = NULL" by (simp add: pg_round_down_def)
  then show "b \<noteq> NULL" using a(1) by (auto simp: is_arena_def a_def)
  show "extent h b = {unat b..<unat b + bsz h d}" using a(2) by (simp add: extent_def a_def)
  have "block_to_arena b h1 = block_to_arena b h"
    by (simp add: block_to_arena_def h1_def sf a(2) [unfolded a_def])
  then show "block_to_arena b h1 = Inr a" using to_arena [OF ok a b] by simp
qed

section \<open>New arenas\<close>

lemma kernel_pages_of:
  assumes ok: "pages_ok p" and g: "palloc_get_multiple 0 cnt p = okE (a, p')" and a: "a \<noteq> NULL"
  shows "pages_ok p' \<and> pg_ofs a = 0 \<and> 0 < cnt \<and> page_range a cnt \<inter> pages_used p = {} \<and>
    pool_used (kernel_pool p') = pool_used (kernel_pool p) \<union> page_range a cnt"
proof -
  have c: "0 < cnt" using g a by (auto simp: palloc_get_multiple_def word_neq_0_conv [symmetric])
  have u: "False = ((0 :: u32) AND PAL_USER \<noteq> 0)" by simp
  have r: "pages_ok p'" "pg_ofs a = 0" "page_range a cnt \<inter> pages_used p = {}"
    "pages_used p' = pages_used p \<union> page_range a cnt" "page_range a cnt \<subseteq> pool_pages (pool_of False p)"
    using get_multiple_result [OF ok c u] g a by auto
  have "pool_used (pool_of False p') = pool_used (pool_of False p) \<union> page_range a cnt"
    using r(4,5) unfolding pool_used_Int [OF ok] pool_used_Int [OF r(1)] get_multiple_pools [OF ok g] by blast
  then show ?thesis using r c by (simp add: pool_of_def)
qed

text \<open>A fresh page is not an arena yet.\<close>

lemma fresh_not_arena:
  assumes ok: "heap_ok h" and a: "pg_ofs a = 0" "page_range a cnt \<inter> pages_used (hp h) = {}" "0 < cnt"
  shows "\<not> is_arena h a" "is_arena h x \<Longrightarrow> arena_pages h x \<inter> page_range a cnt = {}"
proof -
  have sub: "arena_pages h x \<subseteq> pages_used (hp h)" if "is_arena h x" for x
    using heap_okD(3) [OF ok that] by (auto simp: arena_ok_def pages_used_def)
  then show "is_arena h x \<Longrightarrow> arena_pages h x \<inter> page_range a cnt = {}" using a(2) by blast
  show "\<not> is_arena h a"
  proof
    assume ia: "is_arena h a"
    have "arena_ok h a" by (rule heap_okD(3) [OF ok ia])
    then have "unat (pg_no a) \<in> arena_pages h a"
      by (auto simp: arena_pages_def page_range_def arena_ok_def word_less_nat_alt split: option.splits)
    moreover have "unat (pg_no a) \<in> page_range a cnt" using a(3) by (simp add: page_range_def word_less_nat_alt)
    ultimately show False using sub [OF ia] a(2) by blast
  qed
qed

lemma push_blocks_result:
  assumes "a \<noteq> NULL" "a_magic (arenas h a) = ARENA_MAGIC" "a_desc (arenas h a) = Some d" "d < length (descs h)"
    "i + n \<le> bpa h d"
  shows "push_blocks d a i n h = Inr (set_free_list d (fl h d @ map (block_addr h d a) [i..<i + n]) h)"
  using assms
proof (induction n arbitrary: i h)
  case 0
  then show ?case by (simp add: set_free_list_def)
next
  case (Suc n)
  let ?h = "set_free_list d (fl h d @ [block_addr h d a i]) h"
  note sf = set_free_list_fields [OF Suc.prems(4)]
  have "i < bpa h d" using Suc.prems(5) by simp
  then have "of_nat i < blocks_per_arena (descs h ! d)"
    by (metis word_less_nat_alt unat_of_nat mod_less_eq_dividend order.strict_trans1)
  then have "arena_to_block a (of_nat i) h = Inr (block_addr h d a i)"
    using Suc.prems by (simp add: arena_to_block_def block_addr_def)
  moreover have "push_blocks d a (Suc i) n ?h =
      Inr (set_free_list d (fl ?h d @ map (block_addr ?h d a) [Suc i..<Suc i + n]) ?h)"
    by (rule Suc.IH) (use Suc.prems in \<open>simp_all add: sf\<close>)
  moreover have "block_addr ?h d = block_addr h d" by (rule block_addr_cong) (simp add: sf)
  moreover have "[i..<i + Suc n] = i # [Suc i..<Suc i + n]" by (simp add: upt_conv_Cons)
  ultimately show ?case using Suc.prems(4) by (simp add: sf) (simp add: set_free_list_def)
qed

lemma new_arena:
  assumes ok: "heap_ok h" and d: "d < 7" "fl h d = []" and g: "palloc_get_page 0 (hp h) = okE (a, p)" and a: "a \<noteq> NULL"
  defines "h1 \<equiv> set_arena a \<lparr>a_magic = ARENA_MAGIC, a_desc = Some d, free_cnt = blocks_per_arena (descs h ! d)\<rparr> (h\<lparr>hp := p\<rparr>)"
  defines "h2 \<equiv> set_free_list d (map (block_addr h d a) [0..<bpa h d]) h1"
  shows "push_blocks d a 0 (bpa h d) h1 = Inr h2" "heap_ok h2" "live h2 = live h"
    "\<And>x. x \<in> live h \<Longrightarrow> extent h2 x = extent h x" "fl h2 d \<noteq> []" "bsz h2 d = bsz h d"
proof -
  note z = heap_okD(2) [OF ok]
  have kp: "pages_ok p" "pg_ofs a = 0" "page_range a 1 \<inter> pages_used (hp h) = {}"
    "pool_used (kernel_pool p) = pool_used (kernel_pool (hp h)) \<union> page_range a 1"
    using kernel_pages_of [OF heap_okD(1) [OF ok] g [unfolded palloc_get_page_def] a] by simp_all
  note fr = fresh_not_arena [OF ok kp(2,3)]
  have na: "\<not> is_arena h a" using fr(1) by simp
  have len: "d < length (descs h)" "d < length (descs h1)" using sizes_facts(1) [OF z] d by (simp_all add: h1_def set_arena_def)
  note sf = set_free_list_fields [OF len(2)]
  have f: "hp h2 = p" "\<And>x. arenas h2 x = (if x = a then \<lparr>a_magic = ARENA_MAGIC, a_desc = Some d,
      free_cnt = blocks_per_arena (descs h ! d)\<rparr> else arenas h x)"
    "\<And>d'. descs h2 ! d' = (if d' = d then (descs h ! d)\<lparr>free_list := map (block_addr h d a) [0..<bpa h d]\<rparr> else descs h ! d')"
    "sizes (descs h2) = sizes (descs h)"
    by (simp_all add: h2_def sf) (simp_all add: h1_def set_arena_def)
  have h1d: "descs h1 = descs h" by (simp add: h1_def set_arena_def)
  have "block_addr h1 d a = block_addr h d a" by (simp add: block_addr_def fun_eq_iff h1d)
  then show "push_blocks d a 0 (bpa h d) h1 = Inr h2"
    using push_blocks_result [of a h1 d 0 "bpa h d"] a len(2) d(2) by (simp add: h2_def h1d) (simp add: h1_def set_arena_def)
  have ia: "is_arena h2 x \<longleftrightarrow> is_arena h x \<or> x = a" for x using kp(2) a by (auto simp: is_arena_def f)
  have bs: "block_size (descs h2 ! d') = block_size (descs h ! d')" "blocks_per_arena (descs h2 ! d') = blocks_per_arena (descs h ! d')" for d'
    by (simp_all add: f(3))
  have bi: "block_in h2 d' y w \<longleftrightarrow> block_in h d' y w" for d' y w by (simp add: block_in_def block_addr_def bs)
  have fd: "fl h2 d = map (block_addr h d a) [0..<bpa h d]" "\<And>d'. d' \<noteq> d \<Longrightarrow> fl h2 d' = fl h d'" by (simp_all add: f(3))
  have pg: "pg_round_down (block_addr h d a i) = a" if "i < bpa h d" for i
    by (rule block_addr_page(1) [OF z d(1) kp(2) that])
  have ap: "arena_pages h2 x = (if x = a then page_range a 1 else arena_pages h x)" for x
    by (simp add: arena_pages_def f cong: option.case_cong)
  have nin: "x \<noteq> a \<Longrightarrow> free_in h2 d' x = free_in h d' x" for x d'
    using pg d(2) fd by (cases "d' = d") (auto simp: free_in_def)
  have inj: "inj_on (block_addr h d a) {..<bpa h d}"
    using block_addr_inj [OF z d(1) kp(2)] by (auto simp: inj_on_def)
  have cnt: "card (free_in h2 d a) = bpa h d"
  proof -
    have "free_in h2 d a = block_addr h d a ` {..<bpa h d}" using pg by (auto simp: free_in_def fd)
    then show ?thesis using card_image [OF inj] by simp
  qed
  have ao: "arena_ok h2 x" if x: "is_arena h2 x" for x
  proof (cases "x = a")
    case True
    then show ?thesis using kp(4) d(1) cnt by (simp add: arena_ok_def ap f)
  next
    case False
    then have "arena_ok h x" using x by (intro heap_okD(3) [OF ok]) (simp add: ia)
    then show ?thesis using False kp(4) by (auto simp: arena_ok_def ap f nin split: option.splits)
  qed
  have dis: "arena_pages h2 x \<inter> arena_pages h2 y = {}" if "is_arena h2 x" "is_arena h2 y" "x \<noteq> y" for x y
    using that heap_okD(4) [OF ok, of x y] fr(2) [of x] fr(2) [of y] by (auto simp: ia ap split: if_splits)
  have fo: "free_ok h2 d'" if d': "d' < 7" for d'
  proof (cases "d' = d")
    case True
    have "distinct (fl h2 d)" using inj by (simp add: fd distinct_map lessThan_atLeast0)
    moreover have "is_arena h2 (pg_round_down w) \<and> a_desc (arenas h2 (pg_round_down w)) = Some d \<and>
        block_in h2 d (pg_round_down w) w" if w: "w \<in> set (fl h2 d)" for w
    proof -
      obtain i where i: "i < bpa h d" "w = block_addr h d a i" using w by (auto simp: fd)
      then have "block_in h d a w" by (auto simp: block_in_def)
      then show ?thesis using pg [OF i(1)] i(2) by (simp add: ia f(2) bi)
    qed
    ultimately show ?thesis by (simp add: free_ok_def True)
  next
    case False
    have "pg_round_down w \<noteq> a" if "w \<in> set (fl h d')" for w
      using heap_okD(5) [OF ok d'] that na by (auto simp: free_ok_def)
    then show ?thesis using False heap_okD(5) [OF ok d'] by (simp add: free_ok_def fd(2) ia bi f(2))
  qed
  show "heap_ok h2" unfolding heap_ok_def using kp(1) z f(1,4) ao dis fo by simp
  have lv: "w \<in> live h2 \<longleftrightarrow> w \<in> live h" for w
  proof (cases "pg_round_down w = a")
    case True
    have "w \<notin> live h" using live_arena [of w h] na True by auto
    moreover have "w \<notin> live h2"
    proof
      assume w: "w \<in> live h2"
      have "a_desc (arenas h2 (pg_round_down w)) = Some d" by (simp add: True f(2))
      note s = live_small(2,3) [OF w this, unfolded True]
      obtain i where "i < bpa h2 d" "w = block_addr h2 d a i" using s(1) by (elim exE conjE)
      then have "w \<in> set (fl h2 d)" by (simp add: bs fd block_addr_cong [OF f(3) [of d, simplified]])
      then show False using s(2) by simp
    qed
    ultimately show ?thesis by simp
  next
    case False
    have "w \<notin> set (fl h2 d)" using pg False by (auto simp: fd)
    then show ?thesis
      using False d(2) fd(2) unfolding live_def
      by (cases "a_desc (arenas h (pg_round_down w)) = Some d") (auto simp: ia f(2) bi split: option.splits)
  qed
  then show "live h2 = live h" by blast
  show "extent h2 x = extent h x" if "x \<in> live h" for x
    using live_arena [OF that] na by (auto simp: extent_def f(2) bs split: option.splits)
  show "fl h2 d \<noteq> []" using sizes_facts(3) [OF z d(1)] by (simp add: fd)
  show "bsz h2 d = bsz h d" by (simp add: bs)
qed

lemma new_big:
  assumes ok: "heap_ok h" and g: "palloc_get_multiple 0 cnt (hp h) = okE (a, p)" and a: "a \<noteq> NULL"
  defines "h' \<equiv> set_arena a \<lparr>a_magic = ARENA_MAGIC, a_desc = None, free_cnt = cnt\<rparr> (h\<lparr>hp := p\<rparr>)"
  shows "heap_ok h'" "live h' = insert (a + arena_size) (live h)" "a + arena_size \<notin> live h"
    "\<And>x. x \<in> live h \<Longrightarrow> extent h' x = extent h x" "a + arena_size \<noteq> NULL"
    "extent h' (a + arena_size) = {unat (a + arena_size)..<unat (a + arena_size) + (4096 * unat cnt - 12)}"
proof -
  note z = heap_okD(2) [OF ok]
  have kp: "pages_ok p" "pg_ofs a = 0" "0 < cnt" "page_range a cnt \<inter> pages_used (hp h) = {}"
    "pool_used (kernel_pool p) = pool_used (kernel_pool (hp h)) \<union> page_range a cnt"
    using kernel_pages_of [OF heap_okD(1) [OF ok] g a] by simp_all
  note fr = fresh_not_arena [OF ok kp(2,4,3)]
  have f: "hp h' = p" "descs h' = descs h" "\<And>x. arenas h' x = (if x = a then \<lparr>a_magic = ARENA_MAGIC, a_desc = None,
      free_cnt = cnt\<rparr> else arenas h x)" by (simp_all add: h'_def set_arena_def)
  have ia: "is_arena h' x \<longleftrightarrow> is_arena h x \<or> x = a" for x using kp(2) a by (auto simp: is_arena_def f)
  have bi: "block_in h' d' y w \<longleftrightarrow> block_in h d' y w" for d' y w by (simp add: block_in_def block_addr_def f)
  have ap: "arena_pages h' x = (if x = a then page_range a cnt else arena_pages h x)" for x
    by (simp add: arena_pages_def f cong: option.case_cong)
  have ao: "arena_ok h' x" if x: "is_arena h' x" for x
  proof (cases "x = a")
    case True
    then show ?thesis using kp(3,5) by (simp add: arena_ok_def ap f)
  next
    case False
    then have "arena_ok h x" using x by (intro heap_okD(3) [OF ok]) (simp add: ia)
    then show ?thesis using False kp(5) by (auto simp: arena_ok_def ap f free_in_def split: option.splits)
  qed
  have dis: "arena_pages h' x \<inter> arena_pages h' y = {}" if "is_arena h' x" "is_arena h' y" "x \<noteq> y" for x y
    using that heap_okD(4) [OF ok, of x y] fr(2) [of x] fr(2) [of y] by (auto simp: ia ap split: if_splits)
  have fo: "free_ok h' d'" if d': "d' < 7" for d'
  proof -
    have "pg_round_down w \<noteq> a" if "w \<in> set (fl h d')" for w
      using heap_okD(5) [OF ok d'] that fr(1) by (auto simp: free_ok_def)
    then show ?thesis using heap_okD(5) [OF ok d'] by (simp add: free_ok_def ia bi f)
  qed
  show "heap_ok h'" unfolding heap_ok_def using kp(1) z f(1,2) ao dis fo by simp
  have ua: "unat (a + arena_size) = unat a + 12"
    using page_no_bound [OF kp(2)] by (simp add: unat_word_ariths arena_size_def)
  have pa: "pg_round_down (a + arena_size) = a" by (rule in_page(1) [OF kp(2) ua]) simp
  have lv: "w \<in> live h' \<longleftrightarrow> w \<in> live h \<or> w = a + arena_size" for w
  proof (cases "pg_round_down w = a")
    case True
    then have "w \<notin> live h" using live_arena [of w h] fr(1) by auto
    moreover have "w \<in> live h' \<longleftrightarrow> w = a + arena_size" unfolding live_def using True by (simp add: ia f(3))
    ultimately show ?thesis by simp
  next
    case False
    then have "w \<noteq> a + arena_size" using pa by auto
    then show ?thesis unfolding live_def using False by (simp add: ia f bi cong: option.case_cong)
  qed
  then show "live h' = insert (a + arena_size) (live h)" by blast
  show "a + arena_size \<notin> live h" using live_arena [of "a + arena_size" h] fr(1) pa by auto
  show "extent h' x = extent h x" if "x \<in> live h" for x
    using live_arena [OF that] fr(1) by (auto simp: extent_def f split: option.splits)
  show "a + arena_size \<noteq> NULL" using ua by (metis add_is_0 unat_0 zero_neq_numeral)
  show "extent h' (a + arena_size) = {unat (a + arena_size)..<unat (a + arena_size) + (4096 * unat cnt - 12)}"
    by (simp add: extent_def pa f)
qed

section \<open>Allocation\<close>

lemma find_desc_bound: "find_desc sz ds \<le> length ds"
  by (induction ds) auto

lemma find_desc_fits: "find_desc sz ds < length ds \<Longrightarrow> block_size (ds ! find_desc sz ds) \<ge> sz"
  by (induction ds) auto

text \<open>
  A request so large that adding the arena header wraps around is excluded: the block would be
  shorter than asked for.
\<close>

definition no_overflow :: "u32 \<Rightarrow> bool" where
  "no_overflow sz \<longleftrightarrow> unat sz + 12 + 4096 \<le> 2 ^ 32"

lemma big_fits:
  assumes "no_overflow sz"
  shows "unat sz \<le> 4096 * unat (DIV_ROUND_UP (sz + arena_size) PGSIZE) - 12"
proof -
  have "unat (sz + arena_size) = unat sz + 12" using assms by (simp add: no_overflow_def unat_word_ariths arena_size_def)
  then have "unat (DIV_ROUND_UP (sz + arena_size) PGSIZE) = (unat sz + 12 + 4095) div 4096"
    using assms unat_div_round_up [of "sz + arena_size" PGSIZE] by (simp add: no_overflow_def PGSIZE_eq)
  moreover have "unat sz + 12 \<le> 4096 * ((unat sz + 12 + 4095) div 4096)" by linarith
  ultimately show ?thesis by simp
qed

lemma get_zero: "palloc_get_multiple flags 0 p = okE (NULL, p)"
  by (simp add: palloc_get_multiple_def)

lemma get_returns:
  assumes "pages_ok p"
  shows "\<exists>a p'. palloc_get_multiple flags cnt p = okE (a, p') \<and> (a = NULL \<longrightarrow> p' = p)"
proof (cases "cnt = 0")
  case True
  then show ?thesis by (simp add: get_zero)
next
  case False
  then have "0 < cnt" by (simp add: word_neq_0_conv)
  from get_multiple_result [OF assms this refl, of flags] show ?thesis by (metis (no_types, lifting))
qed

definition allocated :: "u32 \<Rightarrow> heap \<Rightarrow> ptr \<Rightarrow> heap \<Rightarrow> bool" where
  "allocated sz h b h' \<longleftrightarrow> heap_ok h' \<and> live h' = insert b (live h) \<and> b \<notin> live h \<and>
     (\<forall>x \<in> live h. extent h' x = extent h x) \<and> (no_overflow sz \<longrightarrow> {unat b..<unat b + unat sz} \<subseteq> extent h' b)"

lemma malloc_big:
  assumes ok: "heap_ok h" and sz: "sz \<noteq> 0" and d: "find_desc sz (descs h) = length (descs h)"
  shows "\<exists>b h'. malloc sz h = okE (b, h') \<and> (if b = NULL then h' = h else allocated sz h b h')"
proof -
  let ?c = "DIV_ROUND_UP (sz + arena_size) PGSIZE"
  obtain a p where g: "palloc_get_multiple 0 ?c (hp h) = okE (a, p)" "a = NULL \<longrightarrow> p = hp h"
    using get_returns [OF heap_okD(1) [OF ok]] by blast
  show ?thesis
  proof (cases "a = NULL")
    case True
    then show ?thesis using sz d g by (simp add: malloc_def Let_def)
  next
    case False
    note n = new_big [OF ok g(1) False]
    have "allocated sz h (a + arena_size) (set_arena a \<lparr>a_magic = ARENA_MAGIC, a_desc = None, free_cnt = ?c\<rparr> (h\<lparr>hp := p\<rparr>))"
      unfolding allocated_def using n(1-4) big_fits [of sz] by (auto simp: n(6))
    then show ?thesis using False sz d g n(5) by (simp add: malloc_def Let_def)
  qed
qed

lemma malloc_pop:
  assumes ok: "heap_ok h" and d: "d < 7" "fl h d \<noteq> []" "block_size (descs h ! d) \<ge> sz"
  shows "\<exists>b h'. (case fl h d of [] \<Rightarrow> Some (Inl Assert_fail)
      | b # bs \<Rightarrow> let h = set_free_list d bs h in
          bindE (Some (block_to_arena b h)) (\<lambda>a.
          okE (b, set_arena a ((arenas h a)\<lparr>free_cnt := free_cnt (arenas h a) - 1\<rparr>) h))) = okE (b, h') \<and>
    b \<noteq> NULL \<and> allocated sz h b h'"
proof -
  obtain b bs where fb: "fl h d = b # bs" using d(2) by (cases "fl h d") auto
  note p = pop_block [OF ok d(1) fb]
  have "{unat b..<unat b + unat sz} \<subseteq> extent h b" using p(8) d(3) by (auto simp: word_le_nat_alt)
  then show ?thesis using p by (auto simp: fb allocated_def Let_def)
qed

lemma malloc_result:
  assumes ok: "heap_ok h"
  shows "\<exists>b h'. malloc sz h = okE (b, h') \<and> (if b = NULL then h' = h else allocated sz h b h')"
proof (cases "sz = 0 \<or> find_desc sz (descs h) = length (descs h)")
  case True
  then show ?thesis using malloc_big [OF ok] by (cases "sz = 0") (simp_all add: malloc_def)
next
  case False
  define d where "d = find_desc sz (descs h)"
  note z = heap_okD(2) [OF ok]
  have d: "d < length (descs h)" "d < 7"
    using False find_desc_bound [of sz "descs h"] sizes_facts(1) [OF z] by (simp_all add: d_def)
  have fits: "block_size (descs h ! d) \<ge> sz" using find_desc_fits d(1) by (simp add: d_def)
  show ?thesis
  proof (cases "fl h d = []")
    case has: False
    from malloc_pop [OF ok d(2) has fits] obtain b h' where
      "(case fl h d of [] \<Rightarrow> Some (Inl Assert_fail) | b # bs \<Rightarrow> let h = set_free_list d bs h in
          bindE (Some (block_to_arena b h)) (\<lambda>a.
          okE (b, set_arena a ((arenas h a)\<lparr>free_cnt := free_cnt (arenas h a) - 1\<rparr>) h))) = okE (b, h')"
      "b \<noteq> NULL" "allocated sz h b h'" by blast
    then show ?thesis using has d(1) False by (simp add: malloc_def d_def [symmetric] Let_def)
  next
    case none: True
    obtain a p where g: "palloc_get_multiple 0 1 (hp h) = okE (a, p)" "a = NULL \<longrightarrow> p = hp h"
      using get_returns [OF heap_okD(1) [OF ok]] by blast
    show ?thesis
    proof (cases "a = NULL")
      case True
      then show ?thesis using none d(1) False g by (simp add: malloc_def d_def [symmetric] palloc_get_page_def Let_def)
    next
      case a: False
      note n = new_arena [OF ok d(2) none g(1) [folded palloc_get_page_def] a]
      define h2 where "h2 = set_free_list d (map (block_addr h d a) [0..<bpa h d])
        (set_arena a \<lparr>a_magic = ARENA_MAGIC, a_desc = Some d, free_cnt = blocks_per_arena (descs h ! d)\<rparr> (h\<lparr>hp := p\<rparr>))"
      have f2: "block_size (descs h2 ! d) \<ge> sz" using fits n(6) by (simp add: h2_def word_le_nat_alt)
      from malloc_pop [OF n(2) d(2) n(5), folded h2_def, OF f2] obtain b h' where
        r: "(case fl h2 d of [] \<Rightarrow> Some (Inl Assert_fail) | b # bs \<Rightarrow> let h = set_free_list d bs h2 in
            bindE (Some (block_to_arena b h)) (\<lambda>a.
            okE (b, set_arena a ((arenas h a)\<lparr>free_cnt := free_cnt (arenas h a) - 1\<rparr>) h))) = okE (b, h')"
        "b \<noteq> NULL" "allocated sz h2 b h'" by blast
      have "allocated sz h b h'" using r(3) n(3,4) unfolding allocated_def h2_def by simp
      then show ?thesis
        using r(1,2) none d(1) False g a n(1) by (simp add: malloc_def d_def [symmetric] palloc_get_page_def h2_def [symmetric] Let_def)
    qed
  qed
qed

section \<open>Release\<close>

text \<open>An arena disappears, with the free blocks it has.\<close>

lemma drop_arena:
  assumes ok: "heap_ok h" and a: "is_arena h a"
    and f: "pages_ok (hp h')" "pool_used (kernel_pool (hp h')) = pool_used (kernel_pool (hp h)) - arena_pages h a"
      "sizes (descs h') = sizes (descs h)"
      "\<And>d. d < 7 \<Longrightarrow> descs h' ! d = (descs h ! d)\<lparr>free_list := filter (\<lambda>b. pg_round_down b \<noteq> a) (fl h d)\<rparr>"
      "\<And>x. is_arena h' x \<longleftrightarrow> is_arena h x \<and> x \<noteq> a" "\<And>x. is_arena h x \<Longrightarrow> x \<noteq> a \<Longrightarrow> arenas h' x = arenas h x"
  shows "heap_ok h'" "live h' = {b \<in> live h. pg_round_down b \<noteq> a}" "\<And>x. x \<in> live h' \<Longrightarrow> extent h' x = extent h x"
proof -
  note z = heap_okD(2) [OF ok]
  have bi: "block_in h' d y w \<longleftrightarrow> block_in h d y w" if "d < 7" for d y w
    by (simp add: block_in_def block_addr_def f(4) [OF that])
  have ap: "arena_pages h' x = arena_pages h x" if "is_arena h x" "x \<noteq> a" for x
    by (simp add: arena_pages_def f(6) [OF that] split: option.splits)
  have ao: "arena_ok h' x" if x: "is_arena h' x" for x
  proof -
    have x1: "is_arena h x" "x \<noteq> a" using x f(5) by auto
    have o: "arena_ok h x" by (rule heap_okD(3) [OF ok x1(1)])
    have "arena_pages h x \<inter> arena_pages h a = {}" by (rule heap_okD(4) [OF ok x1(1) a x1(2)])
    moreover have "free_in h' d x = free_in h d x" if "d < 7" for d using x1(2) by (auto simp: free_in_def f(4) [OF that])
    ultimately show ?thesis using o by (auto simp: arena_ok_def ap [OF x1] f(2) f(6) [OF x1] split: option.splits)
  qed
  have fo: "free_ok h' d" if d: "d < 7" for d
    using heap_okD(5) [OF ok d] f(6) by (auto simp: free_ok_def f(4) [OF d] f(5) bi [OF d])
  have dis: "arena_pages h' x \<inter> arena_pages h' y = {}" if "is_arena h' x" "is_arena h' y" "x \<noteq> y" for x y
    using that heap_okD(4) [OF ok, of x y] f(5) ap by auto
  show "heap_ok h'" unfolding heap_ok_def using f(1,3) z ao dis fo by simp
  have lv: "w \<in> live h' \<longleftrightarrow> w \<in> live h \<and> pg_round_down w \<noteq> a" for w
  proof (cases "is_arena h (pg_round_down w) \<and> pg_round_down w \<noteq> a")
    case False
    then show ?thesis using f(5) live_arena [of w h] live_arena [of w h'] by auto
  next
    case True
    then have o: "arena_ok h (pg_round_down w)" using heap_okD(3) [OF ok] by simp
    have e: "arenas h' (pg_round_down w) = arenas h (pg_round_down w)" using f(6) True by simp
    show ?thesis
    proof (cases "a_desc (arenas h (pg_round_down w))")
      case None
      then show ?thesis unfolding live_def using True by (simp add: f(5) e)
    next
      case (Some d)
      then have d: "d < 7" using o by (simp add: arena_ok_def)
      show ?thesis unfolding live_def using True Some by (simp add: f(5) e bi [OF d] f(4) [OF d])
    qed
  qed
  then show "live h' = {b \<in> live h. pg_round_down b \<noteq> a}" by blast
  show "extent h' x = extent h x" if "x \<in> live h'" for x
  proof -
    have x: "is_arena h (pg_round_down x)" "pg_round_down x \<noteq> a" using lv that live_arena by auto
    then have "arena_ok h (pg_round_down x)" using heap_okD(3) [OF ok] by simp
    then show ?thesis using f(4) by (auto simp: extent_def f(6) [OF x] arena_ok_def split: option.splits)
  qed
qed

lemma arena_span:
  assumes ok: "heap_ok h" and a: "is_arena h a" and n: "page_range a n = arena_pages h a" "0 < n"
  shows "unat (pg_no a) + unat n \<le> 2 ^ 20" "unat (PGSIZE * n) = 4096 * unat n"
proof -
  have sub: "page_range a n \<subseteq> pool_pages (kernel_pool (hp h))"
    using heap_okD(3) [OF ok a] pool_used_sub [of "kernel_pool (hp h)"] n(1) by (auto simp: arena_ok_def)
  have pk: "first_page (kernel_pool (hp h)) + page_count (kernel_pool (hp h)) \<le> 2 ^ 20"
    using heap_okD(1) [OF ok] by (simp add: pages_ok_def pool_ok_def)
  have n0: "0 < unat n" using n(2) by (simp add: word_less_nat_alt)
  then have "unat (pg_no a) + unat n - 1 \<in> page_range a n" by (auto simp: page_range_def)
  then have "unat (pg_no a) + unat n - 1 \<in> pool_pages (kernel_pool (hp h))" using sub by blast
  then have "unat (pg_no a) + unat n - 1 < 2 ^ 20" using pk by (simp add: pool_pages_def)
  then show e: "unat (pg_no a) + unat n \<le> 2 ^ 20" using n0 by linarith
  have "pg_ofs a = 0" "a \<noteq> NULL" using a by (simp_all add: is_arena_def)
  then have "0 < unat (pg_no a)" using base_address [of a] by (auto simp: unat_eq_zero intro!: gr0I)
  then show "unat (PGSIZE * n) = 4096 * unat n" using e by (simp add: PGSIZE_eq unat_word_ariths)
qed

lemma arena_bytes:
  assumes ok: "heap_ok h" and a: "is_arena h a" and n: "page_range a n = arena_pages h a" "0 < n"
    and x: "is_arena h x" "in_block x a (PGSIZE * n)"
  shows "x = a"
proof (rule ccontr)
  assume ne: "x \<noteq> a"
  have al: "pg_ofs a = 0" "pg_ofs x = 0" using a x(1) by (simp_all add: is_arena_def)
  note e = arena_span(1) [OF ok a n] and bytes = arena_span(2) [OF ok a n]
  have lt: "unat (x - a) < 4096 * unat n" using x(2) bytes by (simp add: in_block_def word_less_nat_alt)
  have "unat (pg_no x) \<in> page_range a n"
  proof (cases "unat a \<le> unat x")
    case True
    then have "unat x - unat a < 4096 * unat n" using lt by (simp add: unat_sub word_le_nat_alt)
    then show ?thesis using base_address al True by (simp add: page_range_def)
  next
    case False
    then have "unat (x - a) = 2 ^ 32 + unat x - unat a" by (simp add: unat_sub_if')
    then show ?thesis using lt base_address [OF al(1)] e by simp
  qed
  moreover have "unat (pg_no x) \<in> arena_pages h x"
    using heap_okD(3) [OF ok x(1)] by (auto simp: arena_ok_def arena_pages_def page_range_def word_less_nat_alt split: option.splits)
  ultimately show False using heap_okD(4) [OF ok a x(1)] ne n(1) by auto
qed

lemma wipe_result:
  assumes "heap_ok h" "is_arena h a" "page_range a n = arena_pages h a" "0 < n"
  shows "is_arena (wipe_arenas a n h) x \<longleftrightarrow> is_arena h x \<and> x \<noteq> a"
    "is_arena h x \<Longrightarrow> x \<noteq> a \<Longrightarrow> arenas (wipe_arenas a n h) x = arenas h x"
proof -
  have ib: "in_block a a (PGSIZE * n)"
    using arena_span(2) [OF assms] assms(4) by (simp add: in_block_def word_less_nat_alt)
  show keep: "is_arena h x \<Longrightarrow> x \<noteq> a \<Longrightarrow> arenas (wipe_arenas a n h) x = arenas h x"
    using arena_bytes [OF assms] by (auto simp: wipe_arenas_def)
  show "is_arena (wipe_arenas a n h) x \<longleftrightarrow> is_arena h x \<and> x \<noteq> a"
  proof (cases "is_arena h x \<and> x \<noteq> a")
    case True
    then show ?thesis using keep by (simp add: is_arena_def)
  next
    case False
    then show ?thesis using ib by (auto simp: is_arena_def wipe_arenas_def ARENA_MAGIC_def)
  qed
qed

lemma remove_blocks_result:
  assumes "a \<noteq> NULL" "a_magic (arenas h a) = ARENA_MAGIC" "a_desc (arenas h a) = Some d" "d < length (descs h)"
    "i + n \<le> bpa h d" "distinct (fl h d)" "\<And>j. i \<le> j \<Longrightarrow> j < i + n \<Longrightarrow> block_addr h d a j \<in> set (fl h d)"
    "inj_on (block_addr h d a) {..<bpa h d}"
  shows "remove_blocks d a i n h = Inr (set_free_list d (filter (\<lambda>b. b \<notin> block_addr h d a ` {i..<i + n}) (fl h d)) h)"
  using assms
proof (induction n arbitrary: i h)
  case 0
  then show ?case by (simp add: set_free_list_def)
next
  case (Suc n)
  let ?b = "block_addr h d a i"
  let ?h = "set_free_list d (remove1 ?b (fl h d)) h"
  note sf = set_free_list_fields [OF Suc.prems(4)]
  have i: "i < bpa h d" using Suc.prems(5) by simp
  then have "of_nat i < blocks_per_arena (descs h ! d)"
    by (metis word_less_nat_alt unat_of_nat mod_less_eq_dividend order.strict_trans1)
  then have b: "arena_to_block a (of_nat i) h = Inr ?b"
    using Suc.prems(1-3) by (simp add: arena_to_block_def block_addr_def Let_def)
  have ba: "block_addr ?h d = block_addr h d" by (rule block_addr_cong) (simp add: sf)
  have "block_addr ?h d a j \<in> set (fl ?h d)" if j: "Suc i \<le> j" "j < Suc i + n" for j
  proof -
    have "block_addr h d a j \<noteq> ?b" using inj_onD [OF Suc.prems(8), of j i] j i Suc.prems(5) by auto
    then show ?thesis using Suc.prems(7) [of j] j by (simp add: ba sf)
  qed
  then have "remove_blocks d a (Suc i) n ?h
    = Inr (set_free_list d (filter (\<lambda>b. b \<notin> block_addr ?h d a ` {Suc i..<Suc i + n}) (fl ?h d)) ?h)"
    using Suc.prems by (intro Suc.IH) (simp_all add: sf ba)
  moreover have "{i..<i + Suc n} = insert i {Suc i..<Suc i + n}" by auto
  then have "filter (\<lambda>b. b \<notin> block_addr h d a ` {Suc i..<Suc i + n}) (remove1 ?b (fl h d))
    = filter (\<lambda>b. b \<notin> block_addr h d a ` {i..<i + Suc n}) (fl h d)"
    unfolding distinct_remove1_removeAll [OF Suc.prems(6)] removeAll_filter_not_eq filter_filter
    by (intro filter_cong refl) auto
  moreover have "?b \<in> set (fl h d)" using Suc.prems(7) [of i] by simp
  moreover have "set_free_list d xs ?h = set_free_list d xs h" for xs
    using Suc.prems(4) by (simp add: set_free_list_def)
  moreover have "fl ?h d = remove1 ?b (fl h d)" by (simp add: sf)
  ultimately show ?case unfolding ba by (simp add: b)
qed

definition released :: "heap \<Rightarrow> ptr \<Rightarrow> heap \<Rightarrow> bool" where
  "released h b h' \<longleftrightarrow> heap_ok h' \<and> live h' = live h - {b} \<and> (\<forall>x \<in> live h'. extent h' x = extent h x)"

lemma free_pages:
  assumes ok: "heap_ok h" and a: "is_arena h a" and n: "page_range a n = arena_pages h a" "0 < n"
  shows "\<exists>p. palloc_free_multiple a n (hp h) = Inr p \<and> pages_ok p \<and>
    pool_used (kernel_pool p) = pool_used (kernel_pool (hp h)) - arena_pages h a"
proof -
  note pok = heap_okD(1) [OF ok]
  have al: "pg_ofs a = 0" "a \<noteq> NULL" using a by (simp_all add: is_arena_def)
  have sub: "page_range a n \<subseteq> pool_used (pool_of False (hp h))"
    using heap_okD(3) [OF ok a] n(1) by (simp add: arena_ok_def pool_of_def)
  obtain p where f: "palloc_free_multiple a n (hp h) = Inr p"
    using free_multiple_succeeds [OF pok al(1) n(2) sub] by blast
  have r: "pages_ok p" "pages_used p = pages_used (hp h) - page_range a n"
    using free_multiple_result [OF pok al(2) n(2) f] by simp_all
  have "pool_used (pool_of False p) = pool_used (pool_of False (hp h)) - page_range a n"
    unfolding pool_used_Int [OF pok] pool_used_Int [OF r(1)] free_multiple_pools [OF pok f] r(2) by blast
  then show ?thesis using f r(1) n(1) by (simp add: pool_of_def)
qed

text \<open>The arena \<open>a\<close> goes back to the page allocator, after its free blocks have left their list.\<close>

lemma give_back:
  assumes ok: "heap_ok h" and a: "is_arena h a" and n: "page_range a n = arena_pages h a" "0 < n"
    and f: "palloc_free_multiple a n (hp h) = Inr p" "hp h2 = hp h" "arenas h2 = arenas h"
      "sizes (descs h2) = sizes (descs h)"
      "\<And>d. d < 7 \<Longrightarrow> descs h2 ! d = (descs h ! d)\<lparr>free_list := filter (\<lambda>b. pg_round_down b \<noteq> a) (fl h d)\<rparr>"
  defines "h' \<equiv> wipe_arenas a n (h2\<lparr>hp := p\<rparr>)"
  shows "heap_ok h'" "live h' = {b \<in> live h. pg_round_down b \<noteq> a}" "\<And>x. x \<in> live h' \<Longrightarrow> extent h' x = extent h x"
proof -
  have g: "pages_ok p" "pool_used (kernel_pool p) = pool_used (kernel_pool (hp h)) - arena_pages h a"
    using free_pages [OF ok a n] f(1) by auto
  have e: "arenas h' x = arenas (wipe_arenas a n h) x" "hp h' = p" "descs h' = descs h2" for x
    by (simp_all add: h'_def wipe_arenas_def f(3))
  have w: "is_arena h' x \<longleftrightarrow> is_arena h x \<and> x \<noteq> a" for x
    using wipe_result(1) [OF ok a n, of x] by (simp add: is_arena_def e)
  note dr = drop_arena [OF ok a, of h', unfolded e, OF g f(4,5) w wipe_result(2) [OF ok a n]]
  show "heap_ok h'" "live h' = {b \<in> live h. pg_round_down b \<noteq> a}" "\<And>x. x \<in> live h' \<Longrightarrow> extent h' x = extent h x"
    using dr by simp_all
qed

lemma free_big:
  assumes ok: "heap_ok h" and b: "b \<in> live h" "a_desc (arenas h (pg_round_down b)) = None"
  shows "\<exists>h'. free b h = Inr h' \<and> released h b h'"
proof -
  define a where "a = pg_round_down b"
  note l = live_big [OF b, folded a_def]
  have d: "a_desc (arenas h a) = None" using b(2) by (simp add: a_def)
  have n: "page_range a (free_cnt (arenas h a)) = arena_pages h a" "0 < free_cnt (arenas h a)"
    using heap_okD(3) [OF ok l(1)] d by (simp_all add: arena_pages_def arena_ok_def)
  obtain p where f: "palloc_free_multiple a (free_cnt (arenas h a)) (hp h) = Inr p" using free_pages [OF ok l(1) n] by blast
  have fl: "filter (\<lambda>b. pg_round_down b \<noteq> a) (fl h d') = fl h d'" if "d' < 7" for d'
    using heap_okD(5) [OF ok that] d by (auto simp: free_ok_def filter_id_conv)
  have ds: "descs h ! d' = (descs h ! d')\<lparr>free_list := filter (\<lambda>b. pg_round_down b \<noteq> a) (fl h d')\<rparr>" if "d' < 7" for d'
    unfolding fl [OF that] by simp
  note gb = give_back [OF ok l(1) n f refl refl refl ds]
  have al: "pg_ofs a = 0" "a \<noteq> NULL" "a_magic (arenas h a) = ARENA_MAGIC" using l(1) by (simp_all add: is_arena_def)
  have "unat b = unat a + 12" unfolding l(2) using page_no_bound [OF al(1)] by (simp add: unat_word_ariths arena_size_def)
  then have "unat (pg_ofs b) = 12" using in_page(2) [OF al(1)] by simp
  then have "pg_ofs b = arena_size" by (simp add: arena_size_def word_unat_eq_iff)
  then have "block_to_arena b h = Inr a" using al d by (simp add: block_to_arena_def a_def [symmetric])
  moreover have nb: "b \<noteq> NULL" using al(2) unfolding a_def by (auto simp: pg_round_down_def)
  ultimately have "free b h = Inr (wipe_arenas a (free_cnt (arenas h a)) (h\<lparr>hp := p\<rparr>))" using f d by (simp add: free_def)
  moreover have "x = b" if "x \<in> live h" "pg_round_down x = a" for x
    using live_big(2) [OF that(1)] that(2) d l(2) by simp
  then have "{x \<in> live h. pg_round_down x \<noteq> a} = live h - {b}" by (auto simp: a_def)
  ultimately show ?thesis using gb unfolding released_def by simp
qed

lemma push_block:
  fixes m :: bmem
  assumes ok: "heap_ok h" and b: "b \<in> live h" and d: "a_desc (arenas h (pg_round_down b)) = Some d"
  defines "a \<equiv> pg_round_down b"
  defines "h0 \<equiv> set_free_list d (b # fl h d) (h\<lparr>hp := (hp h)\<lparr>pmem := m\<rparr>\<rparr>)"
  defines "h1 \<equiv> set_arena a ((arenas h0 a)\<lparr>free_cnt := free_cnt (arenas h0 a) + 1\<rparr>) h0"
  shows "block_to_arena b h = Inr a" "heap_ok h1" "live h1 = live h - {b}" "extent h1 = extent h" "is_arena h1 a"
    "a_desc (arenas h1 a) = Some d" "d < 7"
proof -
  note l = live_small [OF b d, folded a_def] and z = heap_okD(2) [OF ok]
  have d: "a_desc (arenas h a) = Some d" using d by (simp add: a_def)
  have bi: "block_in h d a b" using l(2) by (simp add: block_in_def)
  show d7: "d < 7" by (rule block_in_page(2) [OF ok l(1) d bi])
  have "d < length (descs (h\<lparr>hp := (hp h)\<lparr>pmem := m\<rparr>\<rparr>))" using sizes_facts(1) [OF z] d7 by simp
  note sf = set_free_list_fields [OF this, of "b # fl h d"]
  have c: "unat (free_cnt (arenas h a)) = card (free_in h d a)" using heap_okD(3) [OF ok l(1)] d by (simp add: arena_ok_def)
  have "{y \<in> set (b # fl h d). pg_round_down y = a} = insert b (free_in h d a)" by (auto simp: free_in_def a_def)
  moreover have "b \<notin> free_in h d a" using l(3) by (simp add: free_in_def)
  ultimately have cx: "card {y \<in> set (b # fl h d). pg_round_down y = a} = Suc (card (free_in h d a))"
    using card_arena_blocks(2) [OF ok l(1) d] by simp
  have "card (free_in h d a) \<le> 255" using card_arena_blocks(1) [OF ok l(1) d] sizes_facts(3) [OF z d7] by linarith
  then have cnt: "unat (free_cnt (arenas h a) + 1) = card {y \<in> set (b # fl h d). pg_round_down y = a}"
    unfolding cx using c by (simp add: unat_word_ariths)
  have f: "hp h1 = (hp h)\<lparr>pmem := m\<rparr>" "arenas h1 = (arenas h)(a := (arenas h a)\<lparr>free_cnt := free_cnt (arenas h a) + 1\<rparr>)"
    "\<And>d'. descs h1 ! d' = (if d' = d then (descs h ! d)\<lparr>free_list := b # fl h d\<rparr> else descs h ! d')"
    "sizes (descs h1) = sizes (descs h)"
    by (simp_all add: h1_def h0_def set_arena_def sf)
  have pk: "pages_ok (hp h1)" "kernel_pool (hp h1) = kernel_pool (hp h)"
    using heap_okD(1) [OF ok] by (simp_all add: f(1) pages_ok_def)
  have x: "distinct (b # fl h d)" "set (b # fl h d) - {b} = set (fl h d) - {b}"
    using heap_okD(5) [OF ok d7] l(3) by (auto simp: free_ok_def)
  note ch = change_free [OF ok l(1) d bi pk f(4,3,2) x cnt]
  show "heap_ok h1" "extent h1 = extent h" by (rule ch)+
  show "live h1 = live h - {b}" using ch(2,3) by auto
  show "is_arena h1 a" "a_desc (arenas h1 a) = Some d" using l(1) d by (simp_all add: f(2) is_arena_def)
  show "block_to_arena b h = Inr a" by (rule to_arena [OF ok l(1) d bi])
qed

lemma drop_empty:
  assumes ok: "heap_ok h" and a: "is_arena h a" "a_desc (arenas h a) = Some d"
    and full: "card (free_in h d a) = bpa h d"
  shows "\<exists>h2 p. remove_blocks d a 0 (bpa h d) h = Inr h2 \<and> palloc_free_page a (hp h2) = Inr p \<and>
    heap_ok (wipe_arenas a 1 (h2\<lparr>hp := p\<rparr>)) \<and> live (wipe_arenas a 1 (h2\<lparr>hp := p\<rparr>)) = live h \<and>
    (\<forall>x \<in> live h. extent (wipe_arenas a 1 (h2\<lparr>hp := p\<rparr>)) x = extent h x)"
proof -
  note z = heap_okD(2) [OF ok]
  have al: "pg_ofs a = 0" "a \<noteq> NULL" "a_magic (arenas h a) = ARENA_MAGIC" using a(1) by (simp_all add: is_arena_def)
  have d7: "d < 7" using heap_okD(3) [OF ok a(1)] a(2) by (simp add: arena_ok_def)
  then have len: "d < length (descs h)" using sizes_facts(1) [OF z] by simp
  have fo: "free_ok h d" by (rule heap_okD(5) [OF ok d7])
  let ?B = "block_addr h d a ` {..<bpa h d}"
  have sub: "free_in h d a \<subseteq> ?B" using fo unfolding free_ok_def free_in_def block_in_def by (auto simp: image_iff)
  have eq: "free_in h d a = ?B"
    by (rule card_subset_eq [OF _ sub]) (use full card_image_le [of "{..<bpa h d}" "block_addr h d a"] card_mono [OF _ sub] in simp_all)
  have inj: "inj_on (block_addr h d a) {..<bpa h d}" using block_addr_inj [OF z d7 al(1)] by (auto simp: inj_on_def)
  have rm: "remove_blocks d a 0 (bpa h d) h = Inr (set_free_list d (filter (\<lambda>b. b \<notin> block_addr h d a ` {0..<0 + bpa h d}) (fl h d)) h)"
    by (rule remove_blocks_result [OF al(2,3) a(2) len _ _ _ inj]) (use fo eq in \<open>auto simp: free_ok_def free_in_def\<close>)
  have "filter (\<lambda>b. b \<notin> block_addr h d a ` {0..<0 + bpa h d}) (fl h d) = filter (\<lambda>b. pg_round_down b \<noteq> a) (fl h d)"
    using eq by (intro filter_cong refl) (auto simp: free_in_def atLeast0LessThan)
  then obtain h2 where h2: "remove_blocks d a 0 (bpa h d) h = Inr h2" "h2 = set_free_list d (filter (\<lambda>b. pg_round_down b \<noteq> a) (fl h d)) h"
    using rm by simp
  note sf = set_free_list_fields [OF len, of "filter (\<lambda>b. pg_round_down b \<noteq> a) (fl h d)", folded h2(2)]
  have n: "page_range a 1 = arena_pages h a" "(0 :: u32) < 1" using a(2) by (simp_all add: arena_pages_def)
  obtain p where p: "palloc_free_multiple a 1 (hp h) = Inr p" using free_pages [OF ok a(1) n] by blast
  have other: "filter (\<lambda>b. pg_round_down b \<noteq> a) (fl h d') = fl h d'" if "d' < 7" "d' \<noteq> d" for d'
    using heap_okD(5) [OF ok that(1)] a(2) that(2) by (auto simp: free_ok_def filter_id_conv)
  have ds: "descs h2 ! d' = (descs h ! d')\<lparr>free_list := filter (\<lambda>b. pg_round_down b \<noteq> a) (fl h d')\<rparr>" if "d' < 7" for d'
    using other [OF that] by (cases "d' = d") (simp_all add: sf)
  note gb = give_back [OF ok a(1) n p sf(1,2,4) ds]
  have "pg_round_down x \<noteq> a" if x: "x \<in> live h" for x
  proof
    assume pa: "pg_round_down x = a"
    from live_small [OF x, of d] a(2) pa have "x \<in> ?B" "x \<notin> set (fl h d)" by auto
    then show False using eq by (auto simp: free_in_def)
  qed
  then have "{x \<in> live h. pg_round_down x \<noteq> a} = live h" by blast
  then show ?thesis using gb h2(1) p sf(1) by (simp add: palloc_free_page_def)
qed

lemma free_small:
  assumes ok: "heap_ok h" and b: "b \<in> live h" "a_desc (arenas h (pg_round_down b)) = Some d"
  shows "\<exists>h'. free b h = Inr h' \<and> released h b h'"
proof -
  define a where "a = pg_round_down b"
  define m where "m = memset_loop b 0xcc (block_size (descs h ! d)) (pmem (hp h))"
  define h0 where "h0 = set_free_list d (b # fl h d) (h\<lparr>hp := (hp h)\<lparr>pmem := m\<rparr>\<rparr>)"
  define h1 where "h1 = set_arena a ((arenas h0 a)\<lparr>free_cnt := free_cnt (arenas h0 a) + 1\<rparr>) h0"
  note pb = push_block(1) [OF ok b, folded a_def] push_block(2-6) [OF ok b, of m, folded a_def, folded h0_def, folded h1_def]
  have d: "a_desc (arenas h a) = Some d" using b(2) by (simp add: a_def)
  have "pg_round_down NULL = NULL" by (simp add: pg_round_down_def)
  then have nb: "b \<noteq> NULL" using pb(5) by (auto simp: is_arena_def a_def)
  have "arenas h1 a = (arenas h0 a)\<lparr>free_cnt := free_cnt (arenas h0 a) + 1\<rparr>" by (simp add: h1_def set_arena_def)
  have cc: "unat (free_cnt (arenas h1 a)) = card (free_in h1 d a)"
    using heap_okD(3) [OF pb(2,5)] pb(6) by (simp add: arena_ok_def)
  have run: "free b h = (if free_cnt (arenas h1 a) \<ge> blocks_per_arena (descs h1 ! d)
      then require (free_cnt (arenas h1 a) = blocks_per_arena (descs h1 ! d))
        (bindR (remove_blocks d a 0 (bpa h1 d) h1) (\<lambda>h.
         bindR (palloc_free_page a (hp h)) (\<lambda>p. Inr (wipe_arenas a 1 (h\<lparr>hp := p\<rparr>)))))
      else Inr h1)"
    using nb pb(1) d by (simp add: free_def heap_memset_def memset_def m_def [symmetric] h0_def [symmetric] h1_def [symmetric] Let_def)
  show ?thesis
  proof (cases "free_cnt (arenas h1 a) \<ge> blocks_per_arena (descs h1 ! d)")
    case False
    then show ?thesis using run pb(2-4) by (simp add: released_def)
  next
    case True
    then have full: "card (free_in h1 d a) = bpa h1 d"
      using card_arena_blocks(1) [OF pb(2,5,6)] cc by (simp add: word_le_nat_alt)
    then have eq: "free_cnt (arenas h1 a) = blocks_per_arena (descs h1 ! d)" using cc by (simp add: word_unat_eq_iff)
    obtain h2 p where "remove_blocks d a 0 (bpa h1 d) h1 = Inr h2" "palloc_free_page a (hp h2) = Inr p"
      "released h b (wipe_arenas a 1 (h2\<lparr>hp := p\<rparr>))"
      using drop_empty [OF pb(2,5,6) full] pb(3,4) unfolding released_def by (elim exE conjE) simp
    then show ?thesis using run eq by simp
  qed
qed

lemma free_result: "heap_ok h \<Longrightarrow> b \<in> live h \<Longrightarrow> \<exists>h'. free b h = Inr h' \<and> released h b h'"
  using free_small [of h b] free_big [of h b] by (cases "a_desc (arenas h (pg_round_down b))") auto

text \<open>The heap hands out extents of bytes.\<close>

definition malloc_take :: "heap \<Rightarrow> nat set \<Rightarrow> heap \<Rightarrow> bool" where
  "malloc_take h X h' \<longleftrightarrow> (\<exists>sz b. malloc sz h = okE (b, h') \<and> b \<noteq> NULL \<and> X = extent h' b)"

definition malloc_give :: "heap \<Rightarrow> nat set \<Rightarrow> heap \<Rightarrow> bool" where
  "malloc_give h X h' \<longleftrightarrow> (\<exists>b \<in> live h. free b h = Inr h' \<and> X = extent h b)"

interpretation heap_extents: extent_allocator heap_ok heap_used malloc_take malloc_give
proof unfold_locales
  fix h X h'
  assume ok: "heap_ok h"
  show "heap_ok h' \<and> X \<inter> heap_used h = {} \<and> heap_used h' = heap_used h \<union> X" if t: "malloc_take h X h'"
  proof -
    obtain sz b where m: "malloc sz h = okE (b, h')" "b \<noteq> NULL" "X = extent h' b" using t by (auto simp: malloc_take_def)
    have a: "allocated sz h b h'" using malloc_result [OF ok, of sz] m by auto
    then show ?thesis using used_insert [of h' b h] m(3) by (simp add: allocated_def)
  qed
  show "heap_ok h' \<and> X \<subseteq> heap_used h \<and> heap_used h' = heap_used h - X" if g: "malloc_give h X h'"
  proof -
    obtain b where b: "b \<in> live h" "free b h = Inr h'" "X = extent h b" using g by (auto simp: malloc_give_def)
    have "released h b h'" using free_result [OF ok b(1)] b(2) by auto
    then show ?thesis using used_remove [OF ok _ b(1), of h'] b(3) by (simp add: released_def)
  qed
qed

text \<open>The heap at the start of the kernel, before any arena exists.\<close>

definition new_heap :: "pages \<Rightarrow> desc list \<Rightarrow> heap" where
  "new_heap p ds = \<lparr>hp = p, descs = ds, arenas = (\<lambda>_. \<lparr>a_magic = 0, a_desc = None, free_cnt = 0\<rparr>)\<rparr>"

lemma new_heap_ok:
  assumes p: "pages_ok p" and m: "malloc_init = Inr ds"
  shows "heap_ok (new_heap p ds)" "live (new_heap p ds) = {}" "heap_used (new_heap p ds) = {}"
proof -
  have n: "\<not> is_arena (new_heap p ds) a" for a by (simp add: is_arena_def new_heap_def ARENA_MAGIC_def)
  have s: "sizes ds = std_sizes" "\<forall>d \<in> set ds. free_list d = []" using malloc_init_result unfolding m by auto
  then have "length ds = 7" using sizes_facts(1) [of "new_heap p ds"] by (simp add: new_heap_def)
  then have "free_ok (new_heap p ds) d" if "d < 7" for d using s(2) that by (simp add: free_ok_def new_heap_def)
  then show "heap_ok (new_heap p ds)" using n p s(1) by (simp add: heap_ok_def) (simp add: new_heap_def)
  show l: "live (new_heap p ds) = {}" using n by (simp add: live_def)
  show "heap_used (new_heap p ds) = {}" by (simp add: heap_used_def l)
qed

section \<open>The properties\<close>

text \<open>
  C3. Allocating a block returns: a null pointer, the heap unchanged, or a block that was not in
  use, after which the blocks in use are the old ones, with their extents, and the new one, and
  the new one has at least the size asked for unless that size is within a header of \<open>2 ^ 32\<close>.
\<close>

theorem malloc_correct:
  assumes "heap_ok h"
  shows "\<exists>b h'. malloc sz h = okE (b, h') \<and> heap_ok h' \<and>
    (if b = NULL then h' = h
     else live h' = insert b (live h) \<and> b \<notin> live h \<and> (\<forall>x. x \<in> live h \<longrightarrow> extent h' x = extent h x) \<and>
       extent h' b \<inter> heap_used h = {} \<and> (no_overflow sz \<longrightarrow> {unat b..<unat b + unat sz} \<subseteq> extent h' b))"
proof -
  obtain b h' where m: "malloc sz h = okE (b, h')" "if b = NULL then h' = h else allocated sz h b h'"
    using malloc_result [OF assms, of sz] by (elim exE conjE)
  show ?thesis
  proof (cases "b = NULL")
    case True
    then show ?thesis using m assms by auto
  next
    case False
    then have a: "allocated sz h b h'" using m(2) by simp
    then have "extent h' b \<inter> heap_used h = {}" using used_insert [of h' b h] by (simp add: allocated_def)
    then show ?thesis using a False m(1) by (auto simp: allocated_def)
  qed
qed

text \<open>
  C4. Releasing a block in use succeeds: exactly that block is no longer in use and the others keep
  their extents.
\<close>

theorem free_correct:
  assumes "heap_ok h" "b \<in> live h"
  shows "\<exists>h'. free b h = Inr h' \<and> heap_ok h' \<and> live h' = live h - {b} \<and> (\<forall>x. x \<in> live h' \<longrightarrow> extent h' x = extent h x)"
  using free_result [OF assms] by (auto simp: released_def)

text \<open>
  C17. After any sequence of calls of \<^verbatim>\<open>malloc\<close> and \<^verbatim>\<open>free\<close> since the start of the kernel, the bytes of
  the blocks in the hands of clients are pairwise disjoint, and no block is lost: they are exactly
  the bytes in use.
\<close>

theorem malloc_live_disjoint:
  assumes "pages_ok p" "malloc_init = Inr ds" "history malloc_take malloc_give (new_heap p ds) live_blocks h"
  shows "heap_ok h \<and> disjoint_list live_blocks \<and> heap_used h = \<Union> (set live_blocks)"
  using heap_extents.history_disjoint [OF assms(3)] new_heap_ok [OF assms(1,2)] by simp

definition demo_heap :: heap where
  "demo_heap = new_heap demo_pages (case malloc_init of Inr ds \<Rightarrow> ds | _ \<Rightarrow> [])"

lemma demo_heap_ok: "heap_ok demo_heap" "live demo_heap = {}"
  "\<exists>ds. malloc_init = Inr ds \<and> demo_heap = new_heap demo_pages ds"
proof -
  obtain ds where m: "malloc_init = Inr ds" using malloc_init_result by blast
  have d: "demo_heap = new_heap demo_pages ds" unfolding demo_heap_def m by simp
  show "heap_ok demo_heap" "live demo_heap = {}" unfolding d by (rule new_heap_ok [OF demo_pages_ok m])+
  show "\<exists>ds. malloc_init = Inr ds \<and> demo_heap = new_heap demo_pages ds" using m d by blast
qed

theorem malloc_correct_witness:
  "\<exists>b h'. malloc 100 demo_heap = okE (b, h') \<and> heap_ok h' \<and> (b \<noteq> NULL \<longrightarrow> {unat b..<unat b + 100} \<subseteq> extent h' b)"
  using malloc_correct [OF demo_heap_ok(1), of 100] by (auto simp: no_overflow_def split: if_splits)

text \<open>A block of 3000 bytes gets the first free page of the kernel pool for itself.\<close>

lemma demo_block: "\<exists>b h. malloc 3000 demo_heap = okE (b, h) \<and> b \<noteq> NULL"
proof -
  obtain ds where ds: "malloc_init = Inr ds" "demo_heap = new_heap demo_pages ds" using demo_heap_ok(3) by blast
  have one: "(0 :: u32) < 1" by simp
  have u: "False = ((0 :: u32) AND PAL_USER \<noteq> 0)" by simp
  obtain a p where g: "palloc_get_multiple 0 1 demo_pages = okE (a, p)"
    "a = NULL \<longrightarrow> (\<forall>k. k \<in> pool_pages (pool_of False demo_pages) \<longrightarrow> k \<in> pages_used demo_pages)"
    using get_multiple_result [OF demo_pages_ok one u] by (elim exE conjE) (auto split: if_splits)
  have "0xc0101 \<in> pool_pages (pool_of False demo_pages) - pages_used demo_pages"
    by (auto simp: demo_pages_def pool_of_def pool_pages_def pages_used_def pool_used_def used_bits_def
        bm_bits_def bit_at_def pg_no_def vaddr_defs)
  then have "a \<noteq> NULL" using g(2) by auto
  moreover have "find_desc 3000 ds = 7" "length ds = 7"
    using ds(1) by (auto simp: malloc_init_def malloc_init_loop.simps PGSIZE_eq arena_size_def)
  moreover have "DIV_ROUND_UP (3000 + arena_size) PGSIZE = 1" by (simp add: DIV_ROUND_UP_def arena_size_def PGSIZE_eq)
  ultimately obtain h where "malloc 3000 demo_heap = okE (a + arena_size, h)"
    using g(1) by (simp add: malloc_def ds(2) new_heap_def Let_def)
  moreover have "a + arena_size \<noteq> NULL" using new_big(5) [OF demo_heap_ok(1), of 1 a p] g(1) \<open>a \<noteq> NULL\<close>
    by (simp add: ds(2) new_heap_def)
  ultimately show ?thesis by blast
qed

theorem free_correct_witness:
  "\<exists>b h h'. malloc 3000 demo_heap = okE (b, h) \<and> b \<noteq> NULL \<and> free b h = Inr h' \<and> live h' = {}"
proof -
  obtain b h where h: "malloc 3000 demo_heap = okE (b, h)" "b \<noteq> NULL" using demo_block by blast
  then have "heap_ok h" "live h = {b}"
    using malloc_result [OF demo_heap_ok(1), of 3000] by (auto simp: allocated_def demo_heap_ok)
  then show ?thesis using free_correct [of h b] h by auto
qed

theorem malloc_live_witness:
  "\<exists>b h. malloc 3000 demo_heap = okE (b, h) \<and> b \<noteq> NULL \<and> heap_used h = extent h b"
proof -
  obtain b h where h: "malloc 3000 demo_heap = okE (b, h)" "b \<noteq> NULL" using demo_block by blast
  then have t: "malloc_take demo_heap (extent h b) h" unfolding malloc_take_def by fastforce
  obtain ds where ds: "malloc_init = Inr ds" "demo_heap = new_heap demo_pages ds" using demo_heap_ok(3) by blast
  have "history malloc_take malloc_give (new_heap demo_pages ds) [extent h b] h"
    by (rule history.taken [where take_ext = malloc_take, OF history.start t [unfolded ds(2)]])
  from malloc_live_disjoint [OF demo_pages_ok ds(1) this] show ?thesis using h by auto
qed

end
