(* ===== verification/Kinode.thy ===== *)
theory Kinode
  imports Kextent "HOL-Library.Signed_Division"
begin

text \<open>
  The data path of \<^verbatim>\<open>filesys/inode.c\<close>: the layout of an inode on disk, and reading and writing the
  bytes of a file sector by sector. The disk is the array of sectors that \<^verbatim>\<open>devices/disk.c\<close> presents;
  the in-memory objects of the file system live in stores indexed by object numbers, and an object
  that was freed is no longer in its store. Whether the next memory allocation succeeds is given by
  the sequence \<open>allocs\<close>. A file offset (\<^verbatim>\<open>off_t\<close>, a signed 32-bit integer) is an integer.
\<close>

section \<open>The code\<close>

definition DISK_SECTOR_SIZE :: int where "DISK_SECTOR_SIZE = 512"
definition INODE_MAGIC :: u32 where "INODE_MAGIC = 0x494e4f44"

record inode_disk =
  d_start :: u32
  d_length :: int
  d_magic :: u32
  d_unused :: "u32 list"

record inode =
  i_sector :: u32
  open_cnt :: int
  removed :: bool
  deny_write_cnt :: int
  i_data :: inode_disk

record open_file =
  f_inode :: nat
  f_pos :: int
  f_deny_write :: bool
  f_fd :: int
  f_mapping :: int

record dir =
  dir_inode :: nat
  dir_pos :: int

record fsys =
  sectors :: "u32 \<Rightarrow> u8 list"
  capacity :: u32
  free_map :: bitmap
  free_map_file :: "nat option"
  inodes :: "nat \<rightharpoonup> inode"
  open_inodes :: "nat list"
  files :: "nat \<rightharpoonup> open_file"
  dirs :: "nat \<rightharpoonup> dir"
  allocs :: "nat \<Rightarrow> bool"
  brk :: nat

text \<open>The number of a new object, if there is memory for it.\<close>

definition fs_alloc :: "fsys \<Rightarrow> nat option \<times> fsys" where
  "fs_alloc s = ((if allocs s (brk s) then Some (brk s) else None), s\<lparr>brk := brk s + 1\<rparr>)"

definition get_inode :: "nat \<Rightarrow> fsys \<Rightarrow> inode res" where
  "get_inode i s = (case inodes s i of None \<Rightarrow> Inl Bad_access | Some x \<Rightarrow> Inr x)"

definition set_inode :: "nat \<Rightarrow> inode \<Rightarrow> fsys \<Rightarrow> fsys" where
  "set_inode i x s = s\<lparr>inodes := (inodes s)(i \<mapsto> x)\<rparr>"

text \<open>The bytes of an inode on disk.\<close>

definition inode_bytes :: "inode_disk \<Rightarrow> u8 list" where
  "inode_bytes d = int_bytes (d_start d) @ int_bytes (word_of_int (d_length d)) @ int_bytes (d_magic d) @
     concat (map int_bytes (d_unused d))"

definition bytes_inode :: "u8 list \<Rightarrow> inode_disk" where
  "bytes_inode bs = \<lparr>d_start = bytes_int (take 4 bs), d_length = sint (bytes_int (take 4 (drop 4 bs))),
     d_magic = bytes_int (take 4 (drop 8 bs)),
     d_unused = map (\<lambda>k. bytes_int (take 4 (drop (12 + k * 4) bs))) [0..<125]\<rparr>"

definition sector_read :: "u32 \<Rightarrow> fsys \<Rightarrow> u8 list res" where
  "sector_read sec_no s = require (sec_no < capacity s) (require (sec_no < push_bit 28 1) (Inr (sectors s sec_no)))"

definition sector_write :: "u32 \<Rightarrow> u8 list \<Rightarrow> fsys \<Rightarrow> fsys res" where
  "sector_write sec_no buffer s = require (sec_no < capacity s) (require (sec_no < push_bit 28 1)
     (Inr (s\<lparr>sectors := (sectors s)(sec_no := buffer)\<rparr>)))"

definition bytes_to_sectors :: "int \<Rightarrow> u32" where
  "bytes_to_sectors sz = word_of_int ((sz + DISK_SECTOR_SIZE - 1) sdiv DISK_SECTOR_SIZE)"

definition inode_length :: "inode \<Rightarrow> int" where
  "inode_length inode = d_length (i_data inode)"

definition byte_to_sector :: "inode \<Rightarrow> int \<Rightarrow> u32" where
  "byte_to_sector inode pos =
     (if pos < inode_length inode then d_start (i_data inode) + word_of_int (pos sdiv DISK_SECTOR_SIZE) else - 1)"

text \<open>How much of a request the current sector can serve.\<close>

definition chunk_at :: "inode \<Rightarrow> int \<Rightarrow> int \<Rightarrow> int" where
  "chunk_at inode sz offset =
     (let sector_ofs = offset smod DISK_SECTOR_SIZE;
          inode_left = inode_length inode - offset;
          sector_left = DISK_SECTOR_SIZE - sector_ofs;
          min_left = (if inode_left < sector_left then inode_left else sector_left)
      in if sz < min_left then sz else min_left)"

definition get_bounce :: "bool \<Rightarrow> fsys \<Rightarrow> bool \<times> fsys" where
  "get_bounce bounce s = (if bounce then (True, s) else (let (p, s) = fs_alloc s in (p \<noteq> None, s)))"

function read_loop :: "inode \<Rightarrow> int \<Rightarrow> int \<Rightarrow> bool \<Rightarrow> u8 list \<Rightarrow> fsys \<Rightarrow> (u8 list \<times> fsys) res" where
  "read_loop inode sz offset bounce buffer s =
     (if sz > 0 then
        let sector_idx = byte_to_sector inode offset;
            sector_ofs = offset smod DISK_SECTOR_SIZE;
            chunk_size = chunk_at inode sz offset
        in if chunk_size \<le> 0 then Inr (buffer, s)
           else if sector_ofs = 0 \<and> chunk_size = DISK_SECTOR_SIZE
           then bindR (sector_read sector_idx s) (\<lambda>d.
             read_loop inode (sz - chunk_size) (offset + chunk_size) bounce (buffer @ d) s)
           else (case get_bounce bounce s of (have, s) \<Rightarrow>
             if \<not> have then Inr (buffer, s)
             else bindR (sector_read sector_idx s) (\<lambda>d.
               read_loop inode (sz - chunk_size) (offset + chunk_size) True
                 (buffer @ take (nat chunk_size) (drop (nat sector_ofs) d)) s))
      else Inr (buffer, s))"
  by pat_completeness auto
termination
  by (relation "measure (\<lambda>(_, sz, _). nat sz)") auto

definition inode_read_at :: "nat \<Rightarrow> int \<Rightarrow> int \<Rightarrow> fsys \<Rightarrow> (u8 list \<times> fsys) res" where
  "inode_read_at inode sz offset s = bindR (get_inode inode s) (\<lambda>x. read_loop x sz offset False [] s)"

text \<open>The bounce buffer with the chunk copied over it.\<close>

definition overlay :: "nat \<Rightarrow> u8 list \<Rightarrow> u8 list \<Rightarrow> u8 list" where
  "overlay k new old = take k old @ new @ drop (k + length new) old"

function write_loop :: "inode \<Rightarrow> u8 list \<Rightarrow> int \<Rightarrow> int \<Rightarrow> bool \<Rightarrow> int \<Rightarrow> fsys \<Rightarrow> (int \<times> fsys) res" where
  "write_loop inode buffer sz offset bounce bytes_written s =
     (if sz > 0 then
        let sector_idx = byte_to_sector inode offset;
            sector_ofs = offset smod DISK_SECTOR_SIZE;
            sector_left = DISK_SECTOR_SIZE - sector_ofs;
            chunk_size = chunk_at inode sz offset;
            chunk = take (nat chunk_size) (drop (nat bytes_written) buffer)
        in if chunk_size \<le> 0 then Inr (bytes_written, s)
           else if sector_ofs = 0 \<and> chunk_size = DISK_SECTOR_SIZE
           then bindR (sector_write sector_idx chunk s) (\<lambda>s.
             write_loop inode buffer (sz - chunk_size) (offset + chunk_size) bounce (bytes_written + chunk_size) s)
           else (case get_bounce bounce s of (have, s) \<Rightarrow>
             if \<not> have then Inr (bytes_written, s)
             else bindR (if sector_ofs > 0 \<or> chunk_size < sector_left then sector_read sector_idx s
                         else Inr (replicate (nat DISK_SECTOR_SIZE) 0)) (\<lambda>d.
               bindR (sector_write sector_idx (overlay (nat sector_ofs) chunk d) s) (\<lambda>s.
               write_loop inode buffer (sz - chunk_size) (offset + chunk_size) True (bytes_written + chunk_size) s)))
      else Inr (bytes_written, s))"
  by pat_completeness auto
termination
  by (relation "measure (\<lambda>(_, _, sz, _). nat sz)") auto

definition inode_write_at :: "nat \<Rightarrow> u8 list \<Rightarrow> int \<Rightarrow> int \<Rightarrow> fsys \<Rightarrow> (int \<times> fsys) res" where
  "inode_write_at inode buffer sz offset s = bindR (get_inode inode s) (\<lambda>x.
     if deny_write_cnt x \<noteq> 0 then Inr (0, s) else write_loop x buffer sz offset False 0 s)"

declare read_loop.simps [simp del] write_loop.simps [simp del]

section \<open>The bytes of a file\<close>

text \<open>A file occupies consecutive sectors of the disk.\<close>

definition sector_of :: "inode \<Rightarrow> nat \<Rightarrow> u32" where
  "sector_of x k = d_start (i_data x) + of_nat (k div 512)"

definition byte_at :: "inode \<Rightarrow> fsys \<Rightarrow> nat \<Rightarrow> u8" where
  "byte_at x s k = sectors s (sector_of x k) ! (k mod 512)"

abbreviation flen :: "inode \<Rightarrow> nat" where "flen x \<equiv> nat (inode_length x)"

definition content :: "inode \<Rightarrow> fsys \<Rightarrow> u8 list" where
  "content x s = map (byte_at x s) [0..<flen x]"

definition extent_of :: "inode \<Rightarrow> nat set" where
  "extent_of x = {unat (d_start (i_data x))..<unat (d_start (i_data x)) + (flen x + 511) div 512}"

definition disk_ok :: "fsys \<Rightarrow> bool" where
  "disk_ok s \<longleftrightarrow> capacity s \<le> push_bit 28 1 \<and> (\<forall>n. length (sectors s n) = 512)"

definition inode_ok :: "inode \<Rightarrow> fsys \<Rightarrow> bool" where
  "inode_ok x s \<longleftrightarrow> 0 \<le> inode_length x \<and> inode_length x < 2 ^ 31 \<and> extent_of x \<subseteq> {..<unat (capacity s)}"

lemma sector_in_extent:
  assumes "inode_ok x s" "disk_ok s" "k < flen x"
  shows "unat (sector_of x k) = unat (d_start (i_data x)) + k div 512" "sector_of x k < capacity s"
    "unat (sector_of x k) \<in> extent_of x"
proof -
  let ?b = "unat (d_start (i_data x))"
  have i: "?b + k div 512 \<in> extent_of x" using assms(3) by (auto simp: extent_of_def)
  then have c: "?b + k div 512 < unat (capacity s)" using assms(1) by (auto simp: inode_ok_def)
  then have "?b + k div 512 < 2 ^ 32" using unat_lt2p [of "capacity s"] by simp
  then show e: "unat (sector_of x k) = ?b + k div 512"
    by (simp add: sector_of_def unat_word_ariths unat_of_nat)
  show "sector_of x k < capacity s" using c e by (simp add: word_less_nat_alt)
  show "unat (sector_of x k) \<in> extent_of x" using i e by simp
qed

lemma sdiv_nonneg: "0 \<le> (a :: int) \<Longrightarrow> 0 < b \<Longrightarrow> a sdiv b = a div b"
  by (cases "a = 0") (simp_all add: signed_divide_int_def)

lemma smod_nonneg: "0 \<le> (a :: int) \<Longrightarrow> 0 < b \<Longrightarrow> a smod b = a mod b"
  by (cases "a = 0") (simp_all add: smod_int_alt_def)

lemma byte_to_sector_nat:
  assumes "k < flen x"
  shows "byte_to_sector x (int k) = sector_of x k" "int k smod 512 = int (k mod 512)"
proof -
  have "int k < inode_length x" using assms by linarith
  moreover have "int k sdiv 512 = int (k div 512)" by (simp add: sdiv_nonneg zdiv_int)
  ultimately show "byte_to_sector x (int k) = sector_of x k"
    by (simp only: byte_to_sector_def sector_of_def DISK_SECTOR_SIZE_def if_True of_int_of_nat_eq)
  show "int k smod 512 = int (k mod 512)" by (simp add: smod_nonneg zmod_int)
qed

text \<open>The size of the next chunk, in the range where the code is used.\<close>

lemma chunk_at_nat:
  assumes "k < flen x"
  shows "chunk_at x sz (int k) = min sz (int (min (flen x - k) (512 - k mod 512)))"
proof -
  obtain L where L: "inode_length x = int L" using assms by (metis int_nat_eq less_nat_zero_code nat_eq_iff2)
  then have k: "k < L" using assms by simp
  have "k mod 512 < 512" by simp
  then have "int (512 - k mod 512) = 512 - int (k mod 512)" "int (L - k) = int L - int k"
    using k by (simp_all only: of_nat_diff less_imp_le of_nat_numeral)
  then show ?thesis
    unfolding chunk_at_def DISK_SECTOR_SIZE_def byte_to_sector_nat(2) [OF assms] Let_def L of_nat_min min_def by auto
qed

lemma within_block:
  fixes m :: nat
  assumes "k mod m + j < m"
  shows "(k + j) div m = k div m \<and> (k + j) mod m = k mod m + j"
proof -
  have e: "k + j = (k mod m + j) + m * (k div m)" by simp
  have "(k + j) div m = (k mod m + j) div m + k div m"
    unfolding arg_cong [OF e, of "\<lambda>x. x div m"] using assms div_mult_self2 [of m "k mod m + j" "k div m"] by simp
  moreover have "(k + j) mod m = (k mod m + j) mod m" by (rule mod_add_left_eq [symmetric])
  ultimately show ?thesis using assms by simp
qed

text \<open>One sector's part of the file.\<close>

lemma sector_slice:
  assumes "disk_ok s" "c \<le> 512 - k mod 512"
  shows "take c (drop (k mod 512) (sectors s (sector_of x k))) = map (byte_at x s) [k..<k + c]"
proof (rule nth_equalityI)
  have l: "length (sectors s (sector_of x k)) = 512" using assms(1) by (simp add: disk_ok_def)
  then show "length (take c (drop (k mod 512) (sectors s (sector_of x k)))) = length (map (byte_at x s) [k..<k + c])"
    using assms(2) by simp
  fix j assume "j < length (take c (drop (k mod 512) (sectors s (sector_of x k))))"
  then have j: "j < c" by simp
  then have m: "k mod 512 + j < 512" using assms(2) by linarith
  note within_block [OF m]
  then show "take c (drop (k mod 512) (sectors s (sector_of x k))) ! j = map (byte_at x s) [k..<k + c] ! j"
    using j m l by (simp add: byte_at_def sector_of_def)
qed

text \<open>Loops only count allocations besides the work they do on the disk.\<close>

definition same_disk :: "fsys \<Rightarrow> fsys \<Rightarrow> bool" where
  "same_disk s s' \<longleftrightarrow> s' = s\<lparr>brk := brk s'\<rparr>"

lemma same_disk_refl [simp]: "same_disk s s"
  by (simp add: same_disk_def)

lemma same_disk_trans: "same_disk s s' \<Longrightarrow> same_disk s' s'' \<Longrightarrow> same_disk s s''"
  unfolding same_disk_def by (metis (no_types, lifting) fsys.surjective fsys.update_convs(10))

lemma same_diskD:
  assumes "same_disk s s'"
  shows "byte_at x s' = byte_at x s" "inode_ok x s' = inode_ok x s" "disk_ok s' = disk_ok s" "allocs s' = allocs s"
    "sectors s' = sectors s" "capacity s' = capacity s" "inodes s' = inodes s"
proof -
  obtain n where n: "s' = s\<lparr>brk := n\<rparr>" using assms unfolding same_disk_def ..
  show "byte_at x s' = byte_at x s" "inode_ok x s' = inode_ok x s" "disk_ok s' = disk_ok s" "allocs s' = allocs s"
    "sectors s' = sectors s" "capacity s' = capacity s" "inodes s' = inodes s"
    by (simp_all add: n byte_at_def inode_ok_def disk_ok_def fun_eq_iff)
qed

lemma get_bounce_result:
  assumes "get_bounce b s = (have, s')"
  shows "same_disk s s'" "(\<forall>n. allocs s n) \<Longrightarrow> have"
  using assms by (auto simp: get_bounce_def fs_alloc_def same_disk_def Let_def split: if_splits)

lemma read_ok:
  assumes "inode_ok x s" "disk_ok s" "k < flen x"
  shows "sector_read (byte_to_sector x (int k)) s = Inr (sectors s (sector_of x k))"
    "sector_write (byte_to_sector x (int k)) d s = Inr (s\<lparr>sectors := (sectors s)(sector_of x k := d)\<rparr>)"
proof -
  have c: "sector_of x k < capacity s" by (rule sector_in_extent(2) [OF assms])
  also have "capacity s \<le> push_bit 28 1" using assms(2) by (simp add: disk_ok_def)
  finally have "sector_of x k < push_bit 28 1" .
  with c show "sector_read (byte_to_sector x (int k)) s = Inr (sectors s (sector_of x k))"
    "sector_write (byte_to_sector x (int k)) d s = Inr (s\<lparr>sectors := (sectors s)(sector_of x k := d)\<rparr>)"
    by (simp_all add: sector_read_def sector_write_def byte_to_sector_nat [OF assms(3)])
qed

lemma chunk_rest:
  assumes "c \<le> L - k" "int c \<le> sz"
  shows "c + nat (min (sz - int c) (int L - int (k + c))) = nat (min sz (int L - int k))"
  using assms by linarith

lemma read_loop_result:
  assumes "inode_ok x s" "disk_ok s" "0 \<le> sz"
  shows "\<exists>n s'. read_loop x sz (int k) b buf s = Inr (buf @ map (byte_at x s) [k..<k + n], s') \<and> same_disk s s' \<and>
    n \<le> nat (min sz (int (flen x) - int k)) \<and> ((\<forall>n. allocs s n) \<longrightarrow> n = nat (min sz (int (flen x) - int k)))"
  using assms
proof (induction "nat sz" arbitrary: sz k b buf s rule: less_induct)
  case less
  show ?case
  proof (cases "0 < sz \<and> k < flen x")
    case False
    have "chunk_at x sz (int k) \<le> 0" if "0 < sz"
    proof -
      have "inode_length x \<le> int k" using False that by linarith
      then show ?thesis by (auto simp: chunk_at_def Let_def)
    qed
    then have "read_loop x sz (int k) b buf s = Inr (buf, s)" by (subst read_loop.simps) (simp add: Let_def)
    moreover have "nat (min sz (int (flen x) - int k)) = 0" using False by linarith
    ultimately show ?thesis by (intro exI [of _ 0] exI [of _ s]) simp
  next
    case True
    then have k: "k < flen x" and sz: "0 < sz" by simp_all
    define c where "c = min (nat sz) (min (flen x - k) (512 - k mod 512))"
    have c: "0 < c" "c \<le> flen x - k" "c \<le> 512 - k mod 512" "int c \<le> sz" using k sz unfolding c_def min_def by auto
    have ch: "chunk_at x sz (int k) = int c" using sz unfolding chunk_at_nat [OF k] c_def of_nat_min [of "nat sz"] by simp
    have step: "\<exists>n s'. read_loop x (sz - int c) (int k + int c) b' (buf @ map (byte_at x s) [k..<k + c]) s1 =
        Inr (buf @ map (byte_at x s) [k..<k + n], s') \<and> same_disk s s' \<and>
        n \<le> nat (min sz (int (flen x) - int k)) \<and> ((\<forall>n. allocs s n) \<longrightarrow> n = nat (min sz (int (flen x) - int k)))"
      if s1: "same_disk s s1" for b' s1
    proof -
      note e = same_diskD [OF s1]
      have "nat (sz - int c) < nat sz" "0 \<le> sz - int c" using c(1,4) sz by simp_all
      from less.hyps [OF this(1), of s1 "k + c" b' "buf @ map (byte_at x s) [k..<k + c]"] this(2) less.prems(1,2)
      obtain n s' where n: "read_loop x (sz - int c) (int k + int c) b' (buf @ map (byte_at x s) [k..<k + c]) s1 =
          Inr (buf @ map (byte_at x s) [k..<k + c] @ map (byte_at x s) [k + c..<k + c + n], s')" "same_disk s1 s'"
          "n \<le> nat (min (sz - int c) (int (flen x) - int (k + c)))"
          "(\<forall>n. allocs s n) \<longrightarrow> n = nat (min (sz - int c) (int (flen x) - int (k + c)))"
        by (auto simp: e)
      have "c + nat (min (sz - int c) (int (flen x) - int (k + c))) = nat (min sz (int (flen x) - int k))"
        by (rule chunk_rest [OF c(2,4)])
      moreover have "map (byte_at x s) [k..<k + c] @ map (byte_at x s) [k + c..<k + c + n] = map (byte_at x s) [k..<k + (c + n)]"
        using upt_add_eq_append [of k "k + c" n] by (simp add: add.assoc)
      ultimately show ?thesis using n same_disk_trans [OF s1 n(2)] by (intro exI [of _ "c + n"] exI [of _ s']) auto
    qed
    show ?thesis
    proof (cases "k mod 512 = 0 \<and> c = 512")
      case True
      then have "read_loop x sz (int k) b buf s =
          read_loop x (sz - int c) (int k + int c) b (buf @ sectors s (sector_of x k)) s"
        using sz c(1) read_ok(1) [OF less.prems(1,2) k]
        by (subst read_loop.simps) (simp add: ch byte_to_sector_nat(2) [OF k] DISK_SECTOR_SIZE_def Let_def)
      moreover have "sectors s (sector_of x k) = map (byte_at x s) [k..<k + c]"
        using sector_slice [OF less.prems(2) c(3), of x] True less.prems(2) by (simp add: disk_ok_def)
      ultimately show ?thesis using step [of s b] by simp
    next
      case False
      obtain got s1 where g: "get_bounce b s = (got, s1)" by fastforce
      note s1 = get_bounce_result [OF g] and e = same_diskD [OF get_bounce_result(1) [OF g]]
      have bad: "\<not> (int (k mod 512) = 0 \<and> int c = 512)" using False by simp
      have "read_loop x sz (int k) b buf s = (if \<not> got then Inr (buf, s1) else
          read_loop x (sz - int c) (int k + int c) True (buf @ take c (drop (k mod 512) (sectors s (sector_of x k)))) s1)"
        using sz c(1) bad g read_ok(1) [of x s1 k] less.prems(1,2) k
        by (subst read_loop.simps) (auto simp: ch byte_to_sector_nat(2) [OF k] DISK_SECTOR_SIZE_def Let_def e)
      then have r: "read_loop x sz (int k) b buf s = (if \<not> got then Inr (buf, s1) else
          read_loop x (sz - int c) (int k + int c) True (buf @ map (byte_at x s) [k..<k + c]) s1)"
        unfolding sector_slice [OF less.prems(2) c(3)] .
      show ?thesis
      proof (cases got)
        case True
        then show ?thesis using r step [OF s1(1), of True] by simp
      next
        case no: False
        then show ?thesis using r s1 by (intro exI [of _ 0] exI [of _ s1]) auto
      qed
    qed
  qed
qed

section \<open>Writing\<close>

lemma overlay_nth:
  assumes "k + length new \<le> length old" "i < length old"
  shows "overlay k new old ! i = (if k \<le> i \<and> i < k + length new then new ! (i - k) else old ! i)"
  using assms by (auto simp: overlay_def nth_append not_less min_def)

lemma overlay_length: "k + length new \<le> length old \<Longrightarrow> length (overlay k new old) = length old"
  by (simp add: overlay_def)

text \<open>
  What a write of \<open>bs\<close> at offset \<open>k\<close> leaves: the bytes of the file are replaced there, sectors the
  range does not touch are as before, and so is everything that is not on the disk.
\<close>

definition wrote :: "inode \<Rightarrow> nat \<Rightarrow> u8 list \<Rightarrow> fsys \<Rightarrow> fsys \<Rightarrow> bool" where
  "wrote x k bs s s' \<longleftrightarrow> s' = s\<lparr>sectors := sectors s', brk := brk s'\<rparr> \<and> disk_ok s' \<and>
     (\<forall>j < flen x. byte_at x s' j = (if k \<le> j \<and> j < k + length bs then bs ! (j - k) else byte_at x s j)) \<and>
     (\<forall>q. q \<notin> sector_of x ` {k..<k + length bs} \<longrightarrow> sectors s' q = sectors s q)"

lemma wrote_nothing: "disk_ok s \<Longrightarrow> same_disk s s' \<Longrightarrow> wrote x k [] s s'"
  using same_diskD [of s s'] by (auto simp: wrote_def same_disk_def)

lemma wrote_fields:
  assumes "wrote x k bs s s'"
  shows "inode_ok y s' = inode_ok y s" "disk_ok s'" "allocs s' = allocs s" "inodes s' = inodes s" "capacity s' = capacity s"
proof -
  obtain sec n where "s' = s\<lparr>sectors := sec, brk := n\<rparr>" using assms unfolding wrote_def by blast
  then show "inode_ok y s' = inode_ok y s" "disk_ok s'" "allocs s' = allocs s" "inodes s' = inodes s" "capacity s' = capacity s"
    using assms by (simp_all add: inode_ok_def wrote_def)
qed

lemma wrote_sector:
  assumes ok: "inode_ok x s" "disk_ok s" and k: "k < flen x" and c: "length bs \<le> 512 - k mod 512" "k + length bs \<le> flen x" "bs \<noteq> []"
  shows "wrote x k bs s (s\<lparr>sectors := (sectors s)(sector_of x k := overlay (k mod 512) bs (sectors s (sector_of x k)))\<rparr>)"
    (is "wrote x k bs s ?s")
proof -
  let ?q = "sector_of x k" and ?old = "sectors s (sector_of x k)"
  have l: "length ?old = 512" using ok(2) by (simp add: disk_ok_def)
  have fit: "k mod 512 + length bs \<le> 512" using c(1) by simp
  have same: "j div 512 = k div 512 \<and> j mod 512 = k mod 512 + (j - k)" if "k \<le> j" "j < k + length bs" for j
    using within_block [of k 512 "j - k"] that fit by simp
  have "byte_at x ?s j = (if k \<le> j \<and> j < k + length bs then bs ! (j - k) else byte_at x s j)" if j: "j < flen x" for j
  proof (cases "j div 512 = k div 512")
    case True
    then have q: "sector_of x j = ?q" by (simp add: sector_of_def)
    have "(k mod 512 \<le> j mod 512 \<and> j mod 512 < k mod 512 + length bs) = (k \<le> j \<and> j < k + length bs)"
      "k \<le> j \<Longrightarrow> j mod 512 - k mod 512 = j - k"
      using True div_mult_mod_eq [of j 512] div_mult_mod_eq [of k 512] by linarith+
    then show ?thesis using q fit l by (simp add: byte_at_def overlay_nth)
  next
    case False
    then have "sector_of x j \<noteq> ?q" using sector_in_extent(1) [OF ok j] sector_in_extent(1) [OF ok k] by auto
    then show ?thesis using same [of j] False by (auto simp: byte_at_def)
  qed
  moreover have "?q \<in> sector_of x ` {k..<k + length bs}" using c(3) by auto
  moreover have "disk_ok ?s" using ok(2) fit l overlay_length by (simp add: disk_ok_def)
  ultimately show ?thesis by (auto simp: wrote_def)
qed

lemma wrote_append:
  assumes w: "wrote x k bs s s1" "wrote x (k + length bs) bs' s1 s'"
  shows "wrote x k (bs @ bs') s s'"
proof -
  obtain sec n sec' n' where "s1 = s\<lparr>sectors := sec, brk := n\<rparr>" "s' = s1\<lparr>sectors := sec', brk := n'\<rparr>"
    using w unfolding wrote_def by blast
  then have "s' = s\<lparr>sectors := sectors s', brk := brk s'\<rparr>" by simp
  moreover have "byte_at x s' j = (if k \<le> j \<and> j < k + length (bs @ bs') then (bs @ bs') ! (j - k) else byte_at x s j)"
    if j: "j < flen x" for j
    using w j by (auto simp: wrote_def nth_append)
  moreover have "sectors s' q = sectors s q" if "q \<notin> sector_of x ` {k..<k + length (bs @ bs')}" for q
  proof -
    have "{k..<k + length (bs @ bs')} = {k..<k + length bs} \<union> {k + length bs..<k + length bs + length bs'}" by auto
    then have "q \<notin> sector_of x ` {k..<k + length bs}" "q \<notin> sector_of x ` {k + length bs..<k + length bs + length bs'}"
      using that by (simp_all only: image_Un Un_iff de_Morgan_disj not_False_eq_True)
    then have "sectors s1 q = sectors s q" "sectors s' q = sectors s1 q" using w unfolding wrote_def by blast+
    then show ?thesis by simp
  qed
  moreover have "disk_ok s'" using w(2) by (simp add: wrote_def)
  ultimately show ?thesis unfolding wrote_def by blast
qed

lemma wrote_same_disk: "disk_ok s \<Longrightarrow> same_disk s s1 \<Longrightarrow> wrote x k bs s1 s' \<Longrightarrow> wrote x k bs s s'"
  using wrote_append [OF wrote_nothing, of s s1 x k bs s'] by simp

lemma write_loop_result:
  assumes "inode_ok x s" "disk_ok s" "0 \<le> sz" "w + nat sz \<le> length buf"
  shows "\<exists>n s'. write_loop x buf sz (int k) b (int w) s = Inr (int (w + n), s') \<and>
    wrote x k (take n (drop w buf)) s s' \<and> n \<le> nat (min sz (int (flen x) - int k)) \<and>
    ((\<forall>n. allocs s n) \<longrightarrow> n = nat (min sz (int (flen x) - int k)))"
  using assms
proof (induction "nat sz" arbitrary: sz k b w s rule: less_induct)
  case less
  show ?case
  proof (cases "0 < sz \<and> k < flen x")
    case False
    have "chunk_at x sz (int k) \<le> 0" if "0 < sz"
    proof -
      have "inode_length x \<le> int k" using False that by linarith
      then show ?thesis by (auto simp: chunk_at_def Let_def)
    qed
    then have "write_loop x buf sz (int k) b (int w) s = Inr (int w, s)" by (subst write_loop.simps) (simp add: Let_def)
    moreover have "nat (min sz (int (flen x) - int k)) = 0" using False by linarith
    ultimately show ?thesis using wrote_nothing [OF less.prems(2), of s] by (intro exI [of _ 0] exI [of _ s]) simp
  next
    case True
    then have k: "k < flen x" and sz: "0 < sz" by simp_all
    define c where "c = min (nat sz) (min (flen x - k) (512 - k mod 512))"
    define ch where "ch = take c (drop w buf)"
    have c: "0 < c" "c \<le> flen x - k" "c \<le> 512 - k mod 512" "int c \<le> sz" using k sz unfolding c_def min_def by auto
    have ca: "chunk_at x sz (int k) = int c" using sz unfolding chunk_at_nat [OF k] c_def of_nat_min [of "nat sz"] by simp
    have lch: "length ch = c" "ch \<noteq> []" using less.prems(4) c(1,4) by (auto simp: ch_def)
    let ?sec = "\<lambda>s. s\<lparr>sectors := (sectors s)(sector_of x k := overlay (k mod 512) ch (sectors s (sector_of x k)))\<rparr>"
    have step: "\<exists>n s'. write_loop x buf (sz - int c) (int k + int c) b' (int w + int c) (?sec s1) = Inr (int (w + n), s') \<and>
        wrote x k (take n (drop w buf)) s s' \<and> n \<le> nat (min sz (int (flen x) - int k)) \<and>
        ((\<forall>n. allocs s n) \<longrightarrow> n = nat (min sz (int (flen x) - int k)))"
      if s1: "same_disk s s1" for b' s1
    proof -
      note e = same_diskD [OF s1]
      have w1: "wrote x k ch s (?sec s1)"
        using wrote_sector [of x s1 k ch] less.prems(1,2) k c lch by (intro wrote_same_disk [OF less.prems(2) s1]) (simp add: e)
      note wf = wrote_fields [OF w1]
      have m: "nat (sz - int c) < nat sz" "0 \<le> sz - int c" "(w + c) + nat (sz - int c) \<le> length buf"
        using c(1,4) sz less.prems(4) by simp_all
      from less.hyps [OF m(1), of "?sec s1" "w + c" "k + c" b'] m(2,3) less.prems(1)
      obtain n s' where n: "write_loop x buf (sz - int c) (int k + int c) b' (int w + int c) (?sec s1) = Inr (int (w + (c + n)), s')"
          "wrote x (k + c) (take n (drop (w + c) buf)) (?sec s1) s'"
          "n \<le> nat (min (sz - int c) (int (flen x) - int (k + c)))"
          "(\<forall>n. allocs s n) \<longrightarrow> n = nat (min (sz - int c) (int (flen x) - int (k + c)))"
        by (auto simp: wf add.assoc)
      have "wrote x k (ch @ take n (drop (w + c) buf)) s s'" using wrote_append [OF w1] n(2) by (simp add: lch)
      moreover have "ch @ take n (drop (w + c) buf) = take (c + n) (drop w buf)"
        by (simp add: ch_def take_add add.commute)
      ultimately show ?thesis using n chunk_rest [OF c(2,4)] by (intro exI [of _ "c + n"] exI [of _ s']) auto
    qed
    show ?thesis
    proof (cases "k mod 512 = 0 \<and> c = 512")
      case True
      moreover have "overlay 0 ch (sectors s (sector_of x k)) = ch"
        using True lch(1) less.prems(2) by (simp add: overlay_def disk_ok_def)
      ultimately have "write_loop x buf sz (int k) b (int w) s =
          write_loop x buf (sz - int c) (int k + int c) b (int w + int c) (?sec s)"
        using sz c(1) read_ok(2) [OF less.prems(1,2) k]
        by (subst write_loop.simps) (simp add: ca byte_to_sector_nat(2) [OF k] DISK_SECTOR_SIZE_def Let_def ch_def)
      then show ?thesis using step [of s b] by simp
    next
      case False
      obtain got s1 where g: "get_bounce b s = (got, s1)" by fastforce
      note s1 = get_bounce_result [OF g] and e = same_diskD [OF get_bounce_result(1) [OF g]]
      have part: "0 < int (k mod 512) \<or> int c < 512 - int (k mod 512)" using False c(3) by linarith
      have r: "write_loop x buf sz (int k) b (int w) s = (if \<not> got then Inr (int w, s1) else
          write_loop x buf (sz - int c) (int k + int c) True (int w + int c) (?sec s1))"
        using sz c(1) False part g read_ok [of x s1 k] less.prems(1,2) k
        by (subst write_loop.simps) (auto simp: ca byte_to_sector_nat(2) [OF k] DISK_SECTOR_SIZE_def Let_def e ch_def)
      show ?thesis
      proof (cases got)
        case True
        then show ?thesis using r step [OF s1(1), of True] by simp
      next
        case no: False
        then show ?thesis using r s1 wrote_nothing [OF less.prems(2) s1(1)]
          by (intro exI [of _ 0] exI [of _ s1]) auto
      qed
    qed
  qed
qed

section \<open>Files as sequences of bytes\<close>

abbreviation mem_ok :: "fsys \<Rightarrow> bool" where "mem_ok s \<equiv> \<forall>n. allocs s n"

definition room :: "inode \<Rightarrow> int \<Rightarrow> int \<Rightarrow> nat" where
  "room x sz offset = nat (min sz (inode_length x - offset))"

lemma content_length [simp]: "length (content x s) = flen x"
  by (simp add: content_def)

lemma content_slice: "k + n \<le> flen x \<or> n = 0 \<Longrightarrow> map (byte_at x s) [k..<k + n] = take n (drop k (content x s))"
  by (auto simp: content_def drop_map take_map)

lemma content_cong: "same_disk s s' \<Longrightarrow> content x s' = content x s"
  by (simp add: content_def same_diskD)

lemma room_nat: "inode_ok x s \<Longrightarrow> room x sz (int k) = nat (min sz (int (flen x) - int k))"
  by (simp add: room_def inode_ok_def)

lemma inode_read_result:
  assumes "inodes s i = Some x" "inode_ok x s" "disk_ok s" "0 \<le> sz" "0 \<le> offset"
  shows "\<exists>n s'. inode_read_at i sz offset s = Inr (take n (drop (nat offset) (content x s)), s') \<and> same_disk s s' \<and>
    n \<le> room x sz offset \<and> (mem_ok s \<longrightarrow> n = room x sz offset)"
proof -
  obtain k where k: "offset = int k" using assms(5) nonneg_int_cases by blast
  obtain n s' where n: "read_loop x sz (int k) False [] s = Inr ([] @ map (byte_at x s) [k..<k + n], s')" "same_disk s s'"
      "n \<le> room x sz (int k)" "mem_ok s \<longrightarrow> n = room x sz (int k)"
    using read_loop_result [OF assms(2-4), of k False "[]"] unfolding room_nat [OF assms(2)] by blast
  have "k + n \<le> flen x \<or> n = 0" using n(3) unfolding room_nat [OF assms(2)] by linarith
  then show ?thesis using n assms(1) content_slice [of k n x s] by (auto simp: inode_read_at_def get_inode_def k)
qed

text \<open>A write replaces bytes of this file and no byte of a file elsewhere on the disk.\<close>

lemma wrote_content:
  assumes w: "wrote x k bs s s'" and k: "k + length bs \<le> flen x"
  shows "content x s' = overlay k bs (content x s)"
proof (rule nth_equalityI)
  show l: "length (content x s') = length (overlay k bs (content x s))" using k by (simp add: overlay_length)
  fix j assume "j < length (content x s')"
  then have j: "j < flen x" by simp
  then have "byte_at x s' j = (if k \<le> j \<and> j < k + length bs then bs ! (j - k) else byte_at x s j)"
    using w by (simp add: wrote_def)
  then show "content x s' ! j = overlay k bs (content x s) ! j"
    using j k by (simp add: overlay_nth) (simp add: content_def)
qed

lemma wrote_elsewhere:
  assumes w: "wrote x k bs s s'" and ok: "inode_ok x s" "inode_ok y s" "disk_ok s" and k: "k + length bs \<le> flen x"
    and d: "extent_of x \<inter> extent_of y = {}"
  shows "content y s' = content y s"
proof -
  have "byte_at y s' j = byte_at y s j" if j: "j < flen y" for j
  proof -
    have "sector_of y j \<notin> sector_of x ` {k..<k + length bs}"
    proof
      assume "sector_of y j \<in> sector_of x ` {k..<k + length bs}"
      then obtain m where m: "sector_of y j = sector_of x m" "m \<in> {k..<k + length bs}" by blast
      then have "m < flen x" using k by simp
      then show False using m(1) sector_in_extent(3) [OF ok(1,3)] sector_in_extent(3) [OF ok(2,3) j] d by fastforce
    qed
    then show ?thesis using w by (simp add: wrote_def byte_at_def)
  qed
  then show ?thesis by (simp add: content_def)
qed

lemma inode_write_result:
  assumes "inodes s i = Some x" "inode_ok x s" "disk_ok s" "0 \<le> sz" "0 \<le> offset" "nat sz \<le> length buf" "deny_write_cnt x = 0"
  shows "\<exists>n s'. inode_write_at i buf sz offset s = Inr (int n, s') \<and> wrote x (nat offset) (take n buf) s s' \<and>
    (nat offset + n \<le> flen x \<or> n = 0) \<and> n \<le> room x sz offset \<and> (mem_ok s \<longrightarrow> n = room x sz offset)"
proof -
  obtain k where k: "offset = int k" using assms(5) nonneg_int_cases by blast
  obtain n s' where n: "write_loop x buf sz (int k) False (int 0) s = Inr (int (0 + n), s')"
      "wrote x k (take n (drop 0 buf)) s s'" "n \<le> room x sz (int k)" "mem_ok s \<longrightarrow> n = room x sz (int k)"
    using write_loop_result [OF assms(2-4), of 0 buf k False] assms(6) unfolding room_nat [OF assms(2)] by auto
  have "k + n \<le> flen x \<or> n = 0" using n(3) unfolding room_nat [OF assms(2)] by linarith
  then show ?thesis using n assms(1,7) by (auto simp: inode_write_at_def get_inode_def k)
qed

text \<open>The layout of the inode on disk.\<close>

lemma inode_bytes_length: "length (d_unused d) = 125 \<Longrightarrow> length (inode_bytes d) = 512"
  by (simp add: inode_bytes_def encoded_length)

lemma bytes_inode_bytes:
  assumes "length (d_unused d) = 125" "- (2 ^ 31) \<le> d_length d" "d_length d < 2 ^ 31"
  shows "bytes_inode (inode_bytes d) = d"
proof -
  have l: "length (int_bytes w) = 4" for w by simp
  have "sint (word_of_int (d_length d) :: u32) = d_length d" using assms(2,3) by (simp add: sint_sbintrunc' signed_take_bit_int_eq_self_iff)
  moreover have "map (\<lambda>k. bytes_int (take 4 (drop (12 + k * 4) (inode_bytes d)))) [0..<125] = d_unused d"
    using assms(1) by (intro nth_equalityI) (simp_all add: inode_bytes_def encoded_elem)
  ultimately show ?thesis by (simp add: bytes_inode_def inode_bytes_def)
qed

end
