(* ===== verification/Kfile.thy ===== *)
theory Kfile
  imports Kinode
begin

text \<open>
  The rest of \<^verbatim>\<open>filesys/inode.c\<close>, \<^verbatim>\<open>filesys/file.c\<close>, \<^verbatim>\<open>filesys/free-map.c\<close> and the file input and output of
  \<^verbatim>\<open>lib/kernel/bitmap.c\<close>: the table of open inodes with their reference counts, open files with their
  position, and the map of free sectors, which is itself kept in a file. A pointer that may be null
  is an optional object number.
\<close>

section \<open>Inodes in memory\<close>

definition inode_init :: "fsys \<Rightarrow> fsys" where
  "inode_init s = s\<lparr>open_inodes := []\<rparr>"

definition inode_reopen :: "nat option \<Rightarrow> fsys \<Rightarrow> (nat option \<times> fsys) res" where
  "inode_reopen inode s = (case inode of
     None \<Rightarrow> Inr (inode, s)
   | Some i \<Rightarrow> bindR (get_inode i s) (\<lambda>x. Inr (inode, set_inode i (x\<lparr>open_cnt := open_cnt x + 1\<rparr>) s)))"

definition inode_get_inumber :: "nat \<Rightarrow> fsys \<Rightarrow> u32 res" where
  "inode_get_inumber inode s = bindR (get_inode inode s) (\<lambda>x. Inr (i_sector x))"

definition inode_remove :: "nat option \<Rightarrow> fsys \<Rightarrow> fsys res" where
  "inode_remove inode s = (case inode of
     None \<Rightarrow> Inl Assert_fail
   | Some i \<Rightarrow> bindR (get_inode i s) (\<lambda>x. Inr (set_inode i (x\<lparr>removed := True\<rparr>) s)))"

definition inode_deny_write :: "nat \<Rightarrow> fsys \<Rightarrow> fsys res" where
  "inode_deny_write inode s = bindR (get_inode inode s) (\<lambda>x.
     let x = x\<lparr>deny_write_cnt := deny_write_cnt x + 1\<rparr> in
     require (deny_write_cnt x \<le> open_cnt x) (Inr (set_inode inode x s)))"

definition inode_allow_write :: "nat \<Rightarrow> fsys \<Rightarrow> fsys res" where
  "inode_allow_write inode s = bindR (get_inode inode s) (\<lambda>x.
     require (deny_write_cnt x > 0) (require (deny_write_cnt x \<le> open_cnt x)
     (Inr (set_inode inode (x\<lparr>deny_write_cnt := deny_write_cnt x - 1\<rparr>) s))))"

text \<open>The search of the list of open inodes.\<close>

fun find_open :: "u32 \<Rightarrow> nat list \<Rightarrow> fsys \<Rightarrow> nat option res" where
  "find_open sector [] s = Inr None"
| "find_open sector (i # is) s = bindR (get_inode i s) (\<lambda>x.
     if i_sector x = sector then Inr (Some i) else find_open sector is s)"

definition inode_open :: "u32 \<Rightarrow> fsys \<Rightarrow> (nat option \<times> fsys) res" where
  "inode_open sector s = bindR (find_open sector (open_inodes s) s) (\<lambda>found.
     case found of
       Some i \<Rightarrow> inode_reopen (Some i) s
     | None \<Rightarrow> (case fs_alloc s of
         (None, s) \<Rightarrow> Inr (None, s)
       | (Some i, s) \<Rightarrow>
           let s = s\<lparr>open_inodes := i # open_inodes s\<rparr> in
           bindR (sector_read sector s) (\<lambda>d.
           Inr (Some i, set_inode i \<lparr>i_sector = sector, open_cnt = 1, removed = False, deny_write_cnt = 0,
             i_data = bytes_inode d\<rparr> s))))"

section \<open>Files, positions, bitmaps in files\<close>

definition get_file :: "nat \<Rightarrow> fsys \<Rightarrow> open_file res" where
  "get_file f s = (case files s f of None \<Rightarrow> Inl Bad_access | Some x \<Rightarrow> Inr x)"

definition set_file :: "nat \<Rightarrow> open_file \<Rightarrow> fsys \<Rightarrow> fsys" where
  "set_file f x s = s\<lparr>files := (files s)(f \<mapsto> x)\<rparr>"

definition file_get_inode :: "nat \<Rightarrow> fsys \<Rightarrow> nat res" where
  "file_get_inode f s = bindR (get_file f s) (\<lambda>x. Inr (f_inode x))"

definition file_read :: "nat \<Rightarrow> int \<Rightarrow> fsys \<Rightarrow> (u8 list \<times> fsys) res" where
  "file_read f sz s = bindR (get_file f s) (\<lambda>x.
     bindR (inode_read_at (f_inode x) sz (f_pos x) s) (\<lambda>(bs, s).
     Inr (bs, set_file f (x\<lparr>f_pos := f_pos x + int (length bs)\<rparr>) s)))"

definition file_read_at :: "nat \<Rightarrow> int \<Rightarrow> int \<Rightarrow> fsys \<Rightarrow> (u8 list \<times> fsys) res" where
  "file_read_at f sz file_ofs s = bindR (get_file f s) (\<lambda>x. inode_read_at (f_inode x) sz file_ofs s)"

definition file_write :: "nat \<Rightarrow> u8 list \<Rightarrow> int \<Rightarrow> fsys \<Rightarrow> (int \<times> fsys) res" where
  "file_write f buffer sz s = bindR (get_file f s) (\<lambda>x.
     bindR (inode_write_at (f_inode x) buffer sz (f_pos x) s) (\<lambda>(n, s).
     Inr (n, set_file f (x\<lparr>f_pos := f_pos x + n\<rparr>) s)))"

definition file_write_at :: "nat \<Rightarrow> u8 list \<Rightarrow> int \<Rightarrow> int \<Rightarrow> fsys \<Rightarrow> (int \<times> fsys) res" where
  "file_write_at f buffer sz file_ofs s = bindR (get_file f s) (\<lambda>x. inode_write_at (f_inode x) buffer sz file_ofs s)"

definition file_deny_write :: "nat option \<Rightarrow> fsys \<Rightarrow> fsys res" where
  "file_deny_write f s = (case f of None \<Rightarrow> Inl Assert_fail | Some f \<Rightarrow> bindR (get_file f s) (\<lambda>x.
     if \<not> f_deny_write x then inode_deny_write (f_inode x) (set_file f (x\<lparr>f_deny_write := True\<rparr>) s) else Inr s))"

definition file_allow_write :: "nat option \<Rightarrow> fsys \<Rightarrow> fsys res" where
  "file_allow_write f s = (case f of None \<Rightarrow> Inl Assert_fail | Some f \<Rightarrow> bindR (get_file f s) (\<lambda>x.
     if f_deny_write x then inode_allow_write (f_inode x) (set_file f (x\<lparr>f_deny_write := False\<rparr>) s) else Inr s))"

definition file_length :: "nat option \<Rightarrow> fsys \<Rightarrow> int res" where
  "file_length f s = (case f of None \<Rightarrow> Inl Assert_fail | Some f \<Rightarrow> bindR (get_file f s) (\<lambda>x.
     bindR (get_inode (f_inode x) s) (\<lambda>i. Inr (inode_length i))))"

definition file_seek :: "nat option \<Rightarrow> int \<Rightarrow> fsys \<Rightarrow> fsys res" where
  "file_seek f new_pos s = (case f of None \<Rightarrow> Inl Assert_fail | Some f \<Rightarrow> require (new_pos \<ge> 0)
     (bindR (get_file f s) (\<lambda>x. Inr (set_file f (x\<lparr>f_pos := new_pos\<rparr>) s))))"

definition file_tell :: "nat option \<Rightarrow> fsys \<Rightarrow> int res" where
  "file_tell f s = (case f of None \<Rightarrow> Inl Assert_fail | Some f \<Rightarrow> bindR (get_file f s) (\<lambda>x. Inr (f_pos x)))"

text \<open>The bits of a bitmap as the bytes of its words.\<close>

definition bitmap_bytes :: "bitmap \<Rightarrow> u8 list" where
  "bitmap_bytes b = concat (map int_bytes (bits b))"

definition bytes_words :: "u8 list \<Rightarrow> u32 list" where
  "bytes_words bs = map (\<lambda>k. bytes_int (take 4 (drop (k * 4) bs))) [0..<length bs div 4]"

definition bitmap_file_size :: "bitmap \<Rightarrow> u32" where
  "bitmap_file_size b = byte_cnt (bit_cnt b)"

definition bitmap_read :: "bitmap \<Rightarrow> nat \<Rightarrow> fsys \<Rightarrow> (bool \<times> bitmap \<times> fsys) res" where
  "bitmap_read b f s =
     (if bit_cnt b > 0
      then let sz = sint (byte_cnt (bit_cnt b)) in
        bindR (file_read_at f sz 0 s) (\<lambda>(bs, s).
        let b = b\<lparr>bits := bytes_words (overlay 0 bs (bitmap_bytes b))\<rparr> in
        bindR (update_elem b (elem_cnt (bit_cnt b) - 1) (\<lambda>e. e AND last_mask b)) (\<lambda>b.
        Inr (int (length bs) = sz, b, s)))
      else Inr (True, b, s))"

definition bitmap_write :: "bitmap \<Rightarrow> nat \<Rightarrow> fsys \<Rightarrow> (bool \<times> fsys) res" where
  "bitmap_write b f s = (let sz = sint (byte_cnt (bit_cnt b)) in
     bindR (file_write_at f (bitmap_bytes b) sz 0 s) (\<lambda>(n, s). Inr (n = sz, s)))"

section \<open>The free map\<close>

definition free_map_allocate :: "u32 \<Rightarrow> fsys \<Rightarrow> (u32 option \<times> fsys) exec" where
  "free_map_allocate cnt s = bindE (bitmap_scan_and_flip (free_map s) 0 cnt False) (\<lambda>(sector, b).
     let s = s\<lparr>free_map := b\<rparr> in
     bindE (if sector \<noteq> BITMAP_ERROR
            then (case free_map_file s of
                None \<Rightarrow> okE (sector, s)
              | Some f \<Rightarrow> bindE (Some (bitmap_write (free_map s) f s)) (\<lambda>(written, s).
                  if written then okE (sector, s)
                  else bindE (Some (bitmap_set_multiple (free_map s) sector cnt False)) (\<lambda>b.
                    okE (BITMAP_ERROR, s\<lparr>free_map := b\<rparr>))))
            else okE (sector, s)) (\<lambda>(sector, s).
     okE (if sector \<noteq> BITMAP_ERROR then Some sector else None, s)))"

definition free_map_release :: "u32 \<Rightarrow> u32 \<Rightarrow> fsys \<Rightarrow> fsys res" where
  "free_map_release sector cnt s =
     bindR (bitmap_all (free_map s) sector cnt) (\<lambda>full. require full
     (bindR (bitmap_set_multiple (free_map s) sector cnt False) (\<lambda>b.
      let s = s\<lparr>free_map := b\<rparr> in
      case free_map_file s of
        None \<Rightarrow> Inl Bad_access
      | Some f \<Rightarrow> bindR (bitmap_write (free_map s) f s) (\<lambda>(_, s). Inr s))))"

section \<open>Creating and closing inodes, opening and closing files\<close>

fun zero_sectors :: "u32 \<Rightarrow> nat \<Rightarrow> nat \<Rightarrow> fsys \<Rightarrow> fsys res" where
  "zero_sectors start i 0 s = Inr s"
| "zero_sectors start i (Suc n) s = bindR (sector_write (start + of_nat i) (replicate (nat DISK_SECTOR_SIZE) 0) s)
     (\<lambda>s. zero_sectors start (Suc i) n s)"

definition inode_create :: "u32 \<Rightarrow> int \<Rightarrow> fsys \<Rightarrow> (bool \<times> fsys) exec" where
  "inode_create sector len s = requireE (len \<ge> 0)
     (case fs_alloc s of
        (None, s) \<Rightarrow> okE (False, s)
      | (Some _, s) \<Rightarrow>
          let sects = bytes_to_sectors len in
          bindE (free_map_allocate sects s) (\<lambda>(got, s). case got of
            None \<Rightarrow> okE (False, s)
          | Some start \<Rightarrow>
              let d = \<lparr>d_start = start, d_length = len, d_magic = INODE_MAGIC, d_unused = replicate 125 0\<rparr> in
              bindE (Some (sector_write sector (inode_bytes d) s)) (\<lambda>s.
              bindE (if sects > 0 then Some (zero_sectors start 0 (unat sects) s) else okE s) (\<lambda>s.
              okE (True, s)))))"

definition inode_close :: "nat option \<Rightarrow> fsys \<Rightarrow> fsys res" where
  "inode_close inode s = (case inode of
     None \<Rightarrow> Inr s
   | Some i \<Rightarrow> bindR (get_inode i s) (\<lambda>x.
       let x = x\<lparr>open_cnt := open_cnt x - 1\<rparr>; s = set_inode i x s in
       if open_cnt x = 0
       then let s = s\<lparr>open_inodes := remove1 i (open_inodes s)\<rparr> in
         bindR (if removed x
                then bindR (free_map_release (i_sector x) 1 s) (\<lambda>s.
                  free_map_release (d_start (i_data x)) (bytes_to_sectors (inode_length x)) s)
                else Inr s) (\<lambda>s.
         Inr (s\<lparr>inodes := (inodes s)(i := None)\<rparr>))
       else Inr s))"

definition file_open :: "nat option \<Rightarrow> fsys \<Rightarrow> (nat option \<times> fsys) res" where
  "file_open inode s = (case fs_alloc s of (f, s) \<Rightarrow>
     case (inode, f) of
       (Some i, Some f) \<Rightarrow> Inr (Some f, set_file f \<lparr>f_inode = i, f_pos = 0, f_deny_write = False, f_fd = 0, f_mapping = 0\<rparr> s)
     | _ \<Rightarrow> bindR (inode_close inode s) (\<lambda>s. Inr (None, s)))"

definition file_reopen :: "nat \<Rightarrow> fsys \<Rightarrow> (nat option \<times> fsys) res" where
  "file_reopen f s = bindR (get_file f s) (\<lambda>x.
     bindR (inode_reopen (Some (f_inode x)) s) (\<lambda>(i, s). file_open i s))"

definition file_close :: "nat option \<Rightarrow> fsys \<Rightarrow> fsys res" where
  "file_close f s = (case f of
     None \<Rightarrow> Inr s
   | Some g \<Rightarrow> bindR (file_allow_write f s) (\<lambda>s.
       bindR (get_file g s) (\<lambda>x.
       bindR (inode_close (Some (f_inode x)) s) (\<lambda>s. Inr (s\<lparr>files := (files s)(g := None)\<rparr>)))))"

text \<open>Starting and stopping the free map.\<close>

definition FREE_MAP_SECTOR :: u32 where "FREE_MAP_SECTOR = 0"
definition ROOT_DIR_SECTOR :: u32 where "ROOT_DIR_SECTOR = 1"

definition free_map_init :: "u32 list option \<Rightarrow> fsys \<Rightarrow> fsys res" where
  "free_map_init block s = (case fs_alloc s of (m, s) \<Rightarrow>
     bindR (bitmap_create (m \<noteq> None) block (capacity s)) (\<lambda>fm. case fm of
       None \<Rightarrow> Inl Kernel_panic
     | Some b \<Rightarrow> bindR (bitmap_mark b FREE_MAP_SECTOR) (\<lambda>b.
         bindR (bitmap_mark b ROOT_DIR_SECTOR) (\<lambda>b. Inr (s\<lparr>free_map := b\<rparr>)))))"

definition open_free_map_file :: "fsys \<Rightarrow> (nat \<times> fsys) res" where
  "open_free_map_file s = bindR (inode_open FREE_MAP_SECTOR s) (\<lambda>(i, s).
     bindR (file_open i s) (\<lambda>(f, s). case f of
       None \<Rightarrow> Inl Kernel_panic
     | Some g \<Rightarrow> Inr (g, s\<lparr>free_map_file := f\<rparr>)))"

definition free_map_open :: "fsys \<Rightarrow> fsys res" where
  "free_map_open s = bindR (open_free_map_file s) (\<lambda>(f, s).
     bindR (bitmap_read (free_map s) f s) (\<lambda>(ok, b, s).
     if ok then Inr (s\<lparr>free_map := b\<rparr>) else Inl Kernel_panic))"

definition free_map_close :: "fsys \<Rightarrow> fsys res" where
  "free_map_close s = file_close (free_map_file s) s"

definition free_map_create :: "fsys \<Rightarrow> fsys exec" where
  "free_map_create s = bindE (inode_create FREE_MAP_SECTOR (sint (bitmap_file_size (free_map s))) s) (\<lambda>(ok, s).
     if \<not> ok then Some (Inl Kernel_panic)
     else bindE (Some (open_free_map_file s)) (\<lambda>(f, s).
       bindE (Some (bitmap_write (free_map s) f s)) (\<lambda>(written, s).
       if written then okE s else Some (Inl Kernel_panic))))"

section \<open>Writes stay on the disk\<close>

text \<open>
  \<open>on_disk s s'\<close>: only the contents of sectors, whose sizes are kept, and the count of
  allocations differ.
\<close>

definition on_disk :: "fsys \<Rightarrow> fsys \<Rightarrow> bool" where
  "on_disk s s' \<longleftrightarrow> s' = s\<lparr>sectors := sectors s', brk := brk s'\<rparr>"

lemma on_disk_refl [simp]: "on_disk s s"
  by (simp add: on_disk_def)

lemma on_disk_trans: "on_disk s s' \<Longrightarrow> on_disk s' s'' \<Longrightarrow> on_disk s s''"
proof -
  assume "on_disk s s'" "on_disk s' s''"
  then obtain a n b m where "s' = s\<lparr>sectors := a, brk := n\<rparr>" "s'' = s'\<lparr>sectors := b, brk := m\<rparr>"
    unfolding on_disk_def by blast
  then show "on_disk s s''" by (simp add: on_disk_def)
qed

lemma on_diskD:
  assumes "on_disk s s'"
  shows "free_map s' = free_map s" "free_map_file s' = free_map_file s" "inodes s' = inodes s" "files s' = files s"
    "open_inodes s' = open_inodes s" "dirs s' = dirs s" "capacity s' = capacity s" "allocs s' = allocs s"
proof -
  obtain a n where "s' = s\<lparr>sectors := a, brk := n\<rparr>" using assms unfolding on_disk_def ..
  then show "free_map s' = free_map s" "free_map_file s' = free_map_file s" "inodes s' = inodes s" "files s' = files s"
    "open_inodes s' = open_inodes s" "dirs s' = dirs s" "capacity s' = capacity s" "allocs s' = allocs s"
    by simp_all
qed

lemma sector_write_on_disk: "sector_write q d s = Inr s' \<Longrightarrow> on_disk s s'"
  by (auto simp: sector_write_def on_disk_def)

lemma get_bounce_on_disk: "get_bounce b s = (have, s') \<Longrightarrow> on_disk s s'"
  by (auto simp: get_bounce_def fs_alloc_def on_disk_def Let_def split: if_splits)

lemma write_loop_on_disk: "write_loop x buf sz offset b w s = Inr (n, s') \<Longrightarrow> on_disk s s'"
proof (induction "nat sz" arbitrary: sz offset b w s rule: less_induct)
  case less
  let ?c = "chunk_at x sz offset" and ?so = "offset smod DISK_SECTOR_SIZE" and ?q = "byte_to_sector x offset"
  let ?ch = "take (nat ?c) (drop (nat w) buf)"
  show ?case
  proof (cases "sz > 0 \<and> \<not> ?c \<le> 0")
    case False
    then show ?thesis using less.prems by (subst (asm) write_loop.simps) (auto simp: Let_def split: if_splits)
  next
    case go: True
    then have sm: "nat (sz - ?c) < nat sz" by simp
    show ?thesis
    proof (cases "?so = 0 \<and> ?c = DISK_SECTOR_SIZE")
      case True
      then obtain s1 where "sector_write ?q ?ch s = Inr s1"
          "write_loop x buf (sz - ?c) (offset + ?c) b (w + ?c) s1 = Inr (n, s')"
        using less.prems go by (subst (asm) write_loop.simps) (auto simp: Let_def)
      then show ?thesis using on_disk_trans sector_write_on_disk less.hyps [OF sm] by blast
    next
      case False
      obtain got s1 where g: "get_bounce b s = (got, s1)" by fastforce
      note o1 = get_bounce_on_disk [OF g]
      show ?thesis
      proof (cases got)
        case no: False
        then show ?thesis using less.prems go False g o1 by (subst (asm) write_loop.simps) (auto simp: Let_def)
      next
        case yes: True
        then obtain d s2 where "sector_write ?q (overlay (nat ?so) ?ch d) s1 = Inr s2"
            "write_loop x buf (sz - ?c) (offset + ?c) True (w + ?c) s2 = Inr (n, s')"
          using less.prems go False g by (subst (asm) write_loop.simps) (auto simp: Let_def split: if_splits)
        then show ?thesis using on_disk_trans sector_write_on_disk less.hyps [OF sm] o1 by blast
      qed
    qed
  qed
qed

lemma bitmap_write_on_disk: "bitmap_write b f s = Inr (r, s') \<Longrightarrow> on_disk s s'"
  by (auto simp: bitmap_write_def file_write_at_def inode_write_at_def get_file_def get_inode_def Let_def
      dest: write_loop_on_disk split: option.splits if_splits)

section \<open>The free map hands out sectors\<close>

abbreviation sectors_used :: "fsys \<Rightarrow> nat set" where "sectors_used s \<equiv> used_bits (free_map s)"

definition map_ok :: "fsys \<Rightarrow> bool" where
  "map_ok s \<longleftrightarrow> bm_wf (free_map s)"

definition map_take :: "fsys \<Rightarrow> nat set \<Rightarrow> fsys \<Rightarrow> bool" where
  "map_take s X s' \<longleftrightarrow> (\<exists>cnt sector. free_map_allocate cnt s = okE (Some sector, s') \<and> 0 < cnt \<and>
     X = {unat sector..<unat sector + unat cnt})"

definition map_give :: "fsys \<Rightarrow> nat set \<Rightarrow> fsys \<Rightarrow> bool" where
  "map_give s X s' \<longleftrightarrow> (\<exists>cnt sector. free_map_release sector cnt s = Inr s' \<and> 0 < cnt \<and>
     X = {unat sector..<unat sector + unat cnt})"

lemma allocate_result:
  assumes wf: "bm_wf (free_map s)" and c: "0 < cnt" and a: "free_map_allocate cnt s = okE (r, s')"
  shows "bm_wf (free_map s')" "bit_cnt (free_map s') = bit_cnt (free_map s)"
    "on_disk (s\<lparr>free_map := free_map s'\<rparr>) s'"
    "case r of None \<Rightarrow> sectors_used s' = sectors_used s
     | Some q \<Rightarrow> unat q + unat cnt \<le> unat (bit_cnt (free_map s)) \<and> {unat q..<unat q + unat cnt} \<inter> sectors_used s = {} \<and>
         sectors_used s' = sectors_used s \<union> {unat q..<unat q + unat cnt}"
proof -
  obtain q b where q: "bitmap_scan_and_flip (free_map s) 0 cnt False = okE (q, b)" "bm_wf b" "bit_cnt b = bit_cnt (free_map s)"
    and n: "q = BITMAP_ERROR \<Longrightarrow> b = free_map s"
    and f: "q \<noteq> BITMAP_ERROR \<Longrightarrow> unat q + unat cnt \<le> unat (bit_cnt (free_map s)) \<and>
       {unat q..<unat q + unat cnt} \<inter> sectors_used s = {} \<and> used_bits b = sectors_used s \<union> {unat q..<unat q + unat cnt}"
    using scan_and_flip_used [OF wf c] by (elim exE conjE) (auto split: if_splits)
  let ?s = "s\<lparr>free_map := b\<rparr>"
  consider (none) "r = None" "s' = ?s" "q = BITMAP_ERROR" | (plain) "r = Some q" "s' = ?s" "q \<noteq> BITMAP_ERROR"
    | (kept) f s2 where "r = Some q" "bitmap_write b f ?s = Inr (True, s2)" "s' = s2" "q \<noteq> BITMAP_ERROR"
    | (undone) f s2 b2 where "r = None" "bitmap_write b f ?s = Inr (False, s2)" "bitmap_set_multiple b q cnt False = Inr b2"
        "s' = s2\<lparr>free_map := b2\<rparr>" "q \<noteq> BITMAP_ERROR"
    using a q(1) on_diskD(1) [OF bitmap_write_on_disk [of b _ ?s]]
    by (auto simp: free_map_allocate_def Let_def split: if_splits option.splits)
  then have "bm_wf (free_map s') \<and> bit_cnt (free_map s') = bit_cnt (free_map s) \<and> on_disk (s\<lparr>free_map := free_map s'\<rparr>) s' \<and>
    (case r of None \<Rightarrow> sectors_used s' = sectors_used s
     | Some q \<Rightarrow> unat q + unat cnt \<le> unat (bit_cnt (free_map s)) \<and> {unat q..<unat q + unat cnt} \<inter> sectors_used s = {} \<and>
         sectors_used s' = sectors_used s \<union> {unat q..<unat q + unat cnt})"
  proof cases
    case none
    then show ?thesis using n q by simp
  next
    case plain
    then show ?thesis using f q by simp
  next
    case kept
    note o = bitmap_write_on_disk [OF kept(2)]
    have "free_map s' = b" using on_diskD(1) [OF o] kept(3) by simp
    then show ?thesis using f q kept o by simp
  next
    case undone
    note o = bitmap_write_on_disk [OF undone(2)]
    obtain sec k where "s2 = ?s\<lparr>sectors := sec, brk := k\<rparr>" using o unfolding on_disk_def ..
    then have "on_disk (s\<lparr>free_map := b2\<rparr>) s'" using undone(4) by (simp add: on_disk_def)
    moreover have "bm_wf b2" "bit_cnt b2 = bit_cnt b" "used_bits b2 = used_bits b - {unat q..<unat q + unat cnt}"
      using set_multiple_used [OF q(2), of q cnt False] f [OF undone(5)] q(3) undone(3) by auto
    ultimately show ?thesis using f [OF undone(5)] q(3) undone by auto
  qed
  then show "bm_wf (free_map s')" "bit_cnt (free_map s') = bit_cnt (free_map s)" "on_disk (s\<lparr>free_map := free_map s'\<rparr>) s'"
    "case r of None \<Rightarrow> sectors_used s' = sectors_used s
     | Some q \<Rightarrow> unat q + unat cnt \<le> unat (bit_cnt (free_map s)) \<and> {unat q..<unat q + unat cnt} \<inter> sectors_used s = {} \<and>
         sectors_used s' = sectors_used s \<union> {unat q..<unat q + unat cnt}"
    by simp_all
qed

lemma release_result:
  assumes wf: "bm_wf (free_map s)" and r: "free_map_release q cnt s = Inr s'"
  shows "bm_wf (free_map s')" "bit_cnt (free_map s') = bit_cnt (free_map s)"
    "{unat q..<unat q + unat cnt} \<subseteq> sectors_used s" "sectors_used s' = sectors_used s - {unat q..<unat q + unat cnt}"
    "on_disk (s\<lparr>free_map := free_map s'\<rparr>) s'"
proof -
  obtain b f w where al: "bitmap_all (free_map s) q cnt = Inr True" and b: "bitmap_set_multiple (free_map s) q cnt False = Inr b"
    and w: "bitmap_write b f (s\<lparr>free_map := b\<rparr>) = Inr (w, s')"
    using r by (auto simp: free_map_release_def Let_def split: option.splits)
  note o = bitmap_write_on_disk [OF w]
  have rng: "unat q + unat cnt \<le> unat (bit_cnt (free_map s))"
    by (rule bitmap_all_in_range [OF al])
  have e: "free_map s' = b" using on_diskD(1) [OF o] by simp
  show "bm_wf (free_map s')" "bit_cnt (free_map s') = bit_cnt (free_map s)"
    "sectors_used s' = sectors_used s - {unat q..<unat q + unat cnt}" "on_disk (s\<lparr>free_map := free_map s'\<rparr>) s'"
    using set_multiple_used [OF wf rng, of False] b e o by auto
  show "{unat q..<unat q + unat cnt} \<subseteq> sectors_used s" using bitmap_all_used [OF wf rng] al by simp
qed

interpretation sector_extents: extent_allocator map_ok sectors_used map_take map_give
proof unfold_locales
  fix s X s'
  assume ok: "map_ok s"
  then have wf: "bm_wf (free_map s)" by (simp add: map_ok_def)
  show "map_ok s' \<and> X \<inter> sectors_used s = {} \<and> sectors_used s' = sectors_used s \<union> X" if t: "map_take s X s'"
  proof -
    obtain cnt q where a: "free_map_allocate cnt s = okE (Some q, s')" "0 < cnt" "X = {unat q..<unat q + unat cnt}"
      using t by (auto simp: map_take_def)
    show ?thesis using allocate_result [OF wf a(2,1)] a(3) by (simp add: map_ok_def)
  qed
  show "map_ok s' \<and> X \<subseteq> sectors_used s \<and> sectors_used s' = sectors_used s - X" if g: "map_give s X s'"
  proof -
    obtain cnt q where r: "free_map_release q cnt s = Inr s'" "X = {unat q..<unat q + unat cnt}"
      using g by (auto simp: map_give_def)
    show ?thesis using release_result [OF wf r(1)] r(2) by (simp add: map_ok_def)
  qed
qed

end
