(* ===== verification/Kdir.thy ===== *)
theory Kdir
  imports Kfile
begin

text \<open>
  \<^verbatim>\<open>filesys/directory.c\<close> and \<^verbatim>\<open>filesys/filesys.c\<close>: directories as files of fixed-size entries, and
  the operations on files by name. A file name is the sequence of its characters, without the null
  character that ends it in memory. The local variable \<^verbatim>\<open>e\<close> of the directory functions is not
  initialised; its first contents are an argument. An offset past the end of the directory ends
  the search, so offsets do not wrap around.
\<close>

section \<open>Directory entries\<close>

definition NAME_MAX :: nat where "NAME_MAX = 14"

text \<open>The 20 bytes of a directory entry: the inode's sector, the name and the flag.\<close>

definition entry_size :: nat where "entry_size = 20"

definition entry_sector :: "u8 list \<Rightarrow> u32" where
  "entry_sector e = bytes_int (take 4 e)"

definition entry_name :: "u8 list \<Rightarrow> u8 list" where
  "entry_name e = take (NAME_MAX + 1) (drop 4 e)"

definition entry_in_use :: "u8 list \<Rightarrow> bool" where
  "entry_in_use e \<longleftrightarrow> e ! 19 \<noteq> 0"

text \<open>The string in a buffer; one that is not terminated is read past its end.\<close>

definition cstring :: "u8 list \<Rightarrow> u8 list res" where
  "cstring bs = (if 0 \<in> set bs then Inr (takeWhile (\<lambda>c. c \<noteq> 0) bs) else Inl Bad_access)"

definition entry_matches :: "u8 list \<Rightarrow> u8 list \<Rightarrow> bool res" where
  "entry_matches name e = (if entry_in_use e then bindR (cstring (entry_name e)) (\<lambda>n. Inr (name = n)) else Inr False)"

definition fill_entry :: "u8 list \<Rightarrow> u32 \<Rightarrow> u8 list \<Rightarrow> u8 list" where
  "fill_entry name inode_sector e = int_bytes inode_sector @ overlay 0 (name @ [0]) (entry_name e) @ [1]"

definition erase_entry :: "u8 list \<Rightarrow> u8 list" where
  "erase_entry e = e[19 := 0]"

section \<open>Directories\<close>

definition get_dir :: "nat \<Rightarrow> fsys \<Rightarrow> dir res" where
  "get_dir d s = (case dirs s d of None \<Rightarrow> Inl Bad_access | Some x \<Rightarrow> Inr x)"

definition dir_create :: "u32 \<Rightarrow> u32 \<Rightarrow> fsys \<Rightarrow> (bool \<times> fsys) exec" where
  "dir_create sector entry_cnt s = inode_create sector (sint (entry_cnt * of_nat entry_size)) s"

definition dir_open :: "nat option \<Rightarrow> fsys \<Rightarrow> (nat option \<times> fsys) res" where
  "dir_open inode s = (case fs_alloc s of (d, s) \<Rightarrow>
     case (inode, d) of
       (Some i, Some d) \<Rightarrow> Inr (Some d, s\<lparr>dirs := (dirs s)(d \<mapsto> \<lparr>dir_inode = i, dir_pos = 0\<rparr>)\<rparr>)
     | _ \<Rightarrow> bindR (inode_close inode s) (\<lambda>s. Inr (None, s)))"

definition dir_open_root :: "fsys \<Rightarrow> (nat option \<times> fsys) res" where
  "dir_open_root s = bindR (inode_open ROOT_DIR_SECTOR s) (\<lambda>(i, s). dir_open i s)"

definition dir_reopen :: "nat \<Rightarrow> fsys \<Rightarrow> (nat option \<times> fsys) res" where
  "dir_reopen d s = bindR (get_dir d s) (\<lambda>x.
     bindR (inode_reopen (Some (dir_inode x)) s) (\<lambda>(i, s). dir_open i s))"

definition dir_close :: "nat option \<Rightarrow> fsys \<Rightarrow> fsys res" where
  "dir_close d s = (case d of
     None \<Rightarrow> Inr s
   | Some d \<Rightarrow> bindR (get_dir d s) (\<lambda>x.
       bindR (inode_close (Some (dir_inode x)) s) (\<lambda>s. Inr (s\<lparr>dirs := (dirs s)(d := None)\<rparr>))))"

definition dir_get_inode :: "nat \<Rightarrow> fsys \<Rightarrow> nat res" where
  "dir_get_inode d s = bindR (get_dir d s) (\<lambda>x. Inr (dir_inode x))"

partial_function (option) lookup_loop ::
    "nat \<Rightarrow> u8 list \<Rightarrow> u8 list \<Rightarrow> int \<Rightarrow> fsys \<Rightarrow> ((u8 list \<times> int) option \<times> fsys) exec" where
  "lookup_loop inode name e ofs s =
     bindE (Some (inode_read_at inode (int entry_size) ofs s)) (\<lambda>r.
     let bs = fst r; s = snd r; e = overlay 0 bs e in
     if length bs = entry_size
     then bindE (Some (entry_matches name e)) (\<lambda>m.
       if m then okE (Some (e, ofs), s) else lookup_loop inode name e (ofs + int entry_size) s)
     else okE (None, s))"

definition lookup :: "nat option \<Rightarrow> u8 list \<Rightarrow> u8 list \<Rightarrow> fsys \<Rightarrow> ((u8 list \<times> int) option \<times> fsys) exec" where
  "lookup d name e s = (case d of None \<Rightarrow> Some (Inl Assert_fail)
     | Some d \<Rightarrow> bindE (Some (get_dir d s)) (\<lambda>x. lookup_loop (dir_inode x) name e 0 s))"

definition dir_lookup :: "nat option \<Rightarrow> u8 list \<Rightarrow> u8 list \<Rightarrow> fsys \<Rightarrow> (nat option \<times> fsys) exec" where
  "dir_lookup d name e s = bindE (lookup d name e s) (\<lambda>(found, s).
     case found of
       Some (e, _) \<Rightarrow> Some (inode_open (entry_sector e) s)
     | None \<Rightarrow> okE (None, s))"

partial_function (option) slot_loop :: "nat \<Rightarrow> u8 list \<Rightarrow> int \<Rightarrow> fsys \<Rightarrow> (u8 list \<times> int \<times> fsys) exec" where
  "slot_loop inode e ofs s =
     bindE (Some (inode_read_at inode (int entry_size) ofs s)) (\<lambda>r.
     let bs = fst r; s = snd r; e = overlay 0 bs e in
     if length bs = entry_size \<and> entry_in_use e then slot_loop inode e (ofs + int entry_size) s
     else okE (e, ofs, s))"

definition dir_add :: "nat option \<Rightarrow> u8 list \<Rightarrow> u32 \<Rightarrow> u8 list \<Rightarrow> u8 list \<Rightarrow> fsys \<Rightarrow> (bool \<times> fsys) exec" where
  "dir_add d name inode_sector e0 e s = (case d of None \<Rightarrow> Some (Inl Assert_fail)
     | Some d \<Rightarrow>
       if name = [] \<or> length name > NAME_MAX then okE (False, s)
       else bindE (lookup (Some d) name e0 s) (\<lambda>(found, s).
         if found \<noteq> None then okE (False, s)
         else bindE (Some (get_dir d s)) (\<lambda>x.
           bindE (slot_loop (dir_inode x) e 0 s) (\<lambda>(e, ofs, s).
           bindE (Some (inode_write_at (dir_inode x) (fill_entry name inode_sector e) (int entry_size) ofs s)) (\<lambda>(n, s).
           okE (n = int entry_size, s))))))"

definition dir_remove :: "nat option \<Rightarrow> u8 list \<Rightarrow> u8 list \<Rightarrow> fsys \<Rightarrow> (bool \<times> fsys) exec" where
  "dir_remove d name e s = bindE (lookup d name e s) (\<lambda>(found, s).
     case found of
       None \<Rightarrow> bindE (Some (inode_close None s)) (\<lambda>s. okE (False, s))
     | Some (e, ofs) \<Rightarrow> bindE (Some (inode_open (entry_sector e) s)) (\<lambda>(i, s).
         if i = None then bindE (Some (inode_close i s)) (\<lambda>s. okE (False, s))
         else (case d of None \<Rightarrow> Some (Inl Assert_fail) | Some d \<Rightarrow>
           bindE (Some (get_dir d s)) (\<lambda>x.
           bindE (Some (inode_write_at (dir_inode x) (erase_entry e) (int entry_size) ofs s)) (\<lambda>(n, s).
           if n \<noteq> int entry_size then bindE (Some (inode_close i s)) (\<lambda>s. okE (False, s))
           else bindE (Some (inode_remove i s)) (\<lambda>s.
             bindE (Some (inode_close i s)) (\<lambda>s. okE (True, s))))))))"

partial_function (option) readdir_loop :: "nat \<Rightarrow> u8 list \<Rightarrow> fsys \<Rightarrow> (u8 list option \<times> fsys) exec" where
  "readdir_loop d e s =
     bindE (Some (get_dir d s)) (\<lambda>x.
     bindE (Some (inode_read_at (dir_inode x) (int entry_size) (dir_pos x) s)) (\<lambda>r.
     let bs = fst r; s = snd r; e = overlay 0 bs e in
     if length bs = entry_size
     then let s = s\<lparr>dirs := (dirs s)(d \<mapsto> x\<lparr>dir_pos := dir_pos x + int entry_size\<rparr>)\<rparr> in
       if entry_in_use e then bindE (Some (cstring (entry_name e))) (\<lambda>n. okE (Some (take NAME_MAX n), s))
       else readdir_loop d e s
     else okE (None, s)))"

definition dir_readdir :: "nat \<Rightarrow> u8 list \<Rightarrow> fsys \<Rightarrow> (u8 list option \<times> fsys) exec" where
  "dir_readdir d e s = readdir_loop d e s"

section \<open>Files by name\<close>

text \<open>The contents of the uninitialised local variables of the directory functions.\<close>

record locals =
  l_lookup :: "u8 list"
  l_add :: "u8 list"

definition filesys_create :: "locals \<Rightarrow> u8 list \<Rightarrow> int \<Rightarrow> fsys \<Rightarrow> (bool \<times> fsys) exec" where
  "filesys_create l name initial_size s = bindE (Some (dir_open_root s)) (\<lambda>(d, s).
     bindE (if d = None then okE (False, 0, s)
            else bindE (free_map_allocate 1 s) (\<lambda>(got, s). case got of
              None \<Rightarrow> okE (False, 0, s)
            | Some inode_sector \<Rightarrow>
                bindE (inode_create inode_sector initial_size s) (\<lambda>(ok, s).
                if \<not> ok then okE (False, inode_sector, s)
                else bindE (dir_add d name inode_sector (l_lookup l) (l_add l) s) (\<lambda>(ok, s).
                  okE (ok, inode_sector, s))))) (\<lambda>(success, inode_sector, s).
     bindE (if \<not> success \<and> inode_sector \<noteq> 0 then Some (free_map_release inode_sector 1 s) else okE s) (\<lambda>s.
     bindE (Some (dir_close d s)) (\<lambda>s. okE (success, s)))))"

definition filesys_open :: "locals \<Rightarrow> u8 list \<Rightarrow> fsys \<Rightarrow> (nat option \<times> fsys) exec" where
  "filesys_open l name s = bindE (Some (dir_open_root s)) (\<lambda>(d, s).
     bindE (if d \<noteq> None then dir_lookup d name (l_lookup l) s else okE (None, s)) (\<lambda>(i, s).
     bindE (Some (dir_close d s)) (\<lambda>s. Some (file_open i s))))"

definition filesys_remove :: "locals \<Rightarrow> u8 list \<Rightarrow> fsys \<Rightarrow> (bool \<times> fsys) exec" where
  "filesys_remove l name s = bindE (Some (dir_open_root s)) (\<lambda>(d, s).
     bindE (if d \<noteq> None then dir_remove d name (l_lookup l) s else okE (False, s)) (\<lambda>(success, s).
     bindE (Some (dir_close d s)) (\<lambda>s. okE (success, s))))"

definition do_format :: "fsys \<Rightarrow> fsys exec" where
  "do_format s = bindE (free_map_create s) (\<lambda>s.
     bindE (dir_create ROOT_DIR_SECTOR 16 s) (\<lambda>(ok, s).
     if \<not> ok then Some (Inl Kernel_panic) else Some (free_map_close s)))"

definition filesys_init :: "bool \<Rightarrow> u32 list option \<Rightarrow> bool \<Rightarrow> fsys \<Rightarrow> fsys exec" where
  "filesys_init disk_present block format s =
     (if \<not> disk_present then Some (Inl Kernel_panic)
      else let s = inode_init s in
        bindE (Some (free_map_init block s)) (\<lambda>s.
        bindE (if format then do_format s else okE s) (\<lambda>s. Some (free_map_open s))))"

definition filesys_done :: "fsys \<Rightarrow> fsys res" where
  "filesys_done s = free_map_close s"

end
