(* ===== verification/Kdir_Spec.thy ===== *)
theory Kdir_Spec
  imports Kdir
begin

text \<open>
  A directory implements a finite map from names to inode sectors. The searches of the code visit
  the entries in order and return; adding and erasing an entry are the updates of the map.
\<close>

section \<open>The entries of a directory\<close>

definition entry_of :: "inode \<Rightarrow> fsys \<Rightarrow> nat \<Rightarrow> u8 list" where
  "entry_of x s k = take 20 (drop (20 * k) (content x s))"

abbreviation slots :: "inode \<Rightarrow> nat" where "slots x \<equiv> flen x div 20"

definition ename :: "u8 list \<Rightarrow> u8 list" where
  "ename e = takeWhile (\<lambda>c. c \<noteq> 0) (entry_name e)"

definition named :: "inode \<Rightarrow> fsys \<Rightarrow> u8 list \<Rightarrow> nat \<Rightarrow> bool" where
  "named x s name k \<longleftrightarrow> k < slots x \<and> entry_in_use (entry_of x s k) \<and> ename (entry_of x s k) = name"

definition dir_wf :: "inode \<Rightarrow> fsys \<Rightarrow> bool" where
  "dir_wf x s \<longleftrightarrow> (\<forall>k < slots x. entry_in_use (entry_of x s k) \<longrightarrow> 0 \<in> set (entry_name (entry_of x s k))) \<and>
     (\<forall>k j name. named x s name k \<and> named x s name j \<longrightarrow> k = j)"

definition dir_map :: "inode \<Rightarrow> fsys \<Rightarrow> u8 list \<Rightarrow> u32 option" where
  "dir_map x s name = (if \<exists>k. named x s name k then Some (entry_sector (entry_of x s (LEAST k. named x s name k))) else None)"

lemma dir_wf_unique: "dir_wf x s \<Longrightarrow> named x s name k \<Longrightarrow> named x s name j \<Longrightarrow> k = j"
  unfolding dir_wf_def by blast

lemma dir_map_Some:
  assumes "dir_wf x s" "named x s name k"
  shows "dir_map x s name = Some (entry_sector (entry_of x s k))"
proof -
  have "(LEAST k. named x s name k) = k" using assms by (intro Least_equality) (auto simp: dir_wf_def)
  then show ?thesis using assms(2) by (auto simp: dir_map_def)
qed

lemma dir_map_None: "dir_map x s name = None \<longleftrightarrow> (\<forall>k. \<not> named x s name k)"
  by (simp add: dir_map_def)

lemma entry_length:
  assumes "k < slots x"
  shows "length (entry_of x s k) = 20" "20 * k + 20 \<le> flen x"
proof -
  show "20 * k + 20 \<le> flen x" using assms by linarith
  then show "length (entry_of x s k) = 20" by (simp add: entry_of_def)
qed

lemma entry_cong: "same_disk s s' \<Longrightarrow> entry_of x s' = entry_of x s"
  by (simp add: entry_of_def content_cong fun_eq_iff)

lemma overlay_all: "length bs = length e \<Longrightarrow> overlay 0 bs e = bs"
  by (simp add: overlay_def)

lemma room_entry:
  assumes "inode_ok x s"
  shows "k < slots x \<Longrightarrow> room x 20 (int (20 * k)) = 20" "\<not> k < slots x \<Longrightarrow> room x 20 (int (20 * k)) < 20"
proof -
  have r: "room x 20 (int (20 * k)) = nat (min 20 (int (flen x) - int (20 * k)))" by (rule room_nat [OF assms])
  show "k < slots x \<Longrightarrow> room x 20 (int (20 * k)) = 20" using entry_length(2) [of k x] unfolding r by linarith
  show "\<not> k < slots x \<Longrightarrow> room x 20 (int (20 * k)) < 20"
    using div_mult_mod_eq [of "flen x" 20] mod_less_divisor [of 20 "flen x"] unfolding r by linarith
qed

text \<open>One step of the search.\<close>

lemma read_entry:
  assumes i: "inodes s i = Some x" and ok: "inode_ok x s" "disk_ok s" and m: "mem_ok s" and p: "p = 20 * k"
  shows "\<exists>bs s'. inode_read_at i (int entry_size) (int p) s = Inr (bs, s') \<and> same_disk s s' \<and>
    (if k < slots x then bs = entry_of x s k else length bs < 20)"
proof -
  obtain n s' where n: "inode_read_at i 20 (int p) s = Inr (take n (drop p (content x s)), s')" "same_disk s s'"
      "n = room x 20 (int p)"
    using inode_read_result [OF i ok, of 20 "int p"] m by auto
  have "if k < slots x then take n (drop p (content x s)) = entry_of x s k
    else length (take n (drop p (content x s))) < 20"
    using room_entry [OF ok(1), of k] n(3) p by (auto simp: entry_of_def min_def)
  then show ?thesis using n(1,2) by (auto simp: entry_size_def)
qed

lemma same_disk_step:
  assumes "same_disk s s'" "inodes s i = Some x" "inode_ok x s" "disk_ok s" "mem_ok s" "dir_wf x s"
  shows "inodes s' i = Some x" "inode_ok x s'" "disk_ok s'" "mem_ok s'" "dir_wf x s'" "entry_of x s' = entry_of x s"
    "named x s' = named x s"
  using assms same_diskD [OF assms(1)] entry_cong [OF assms(1), of x]
  by (simp_all add: dir_wf_def named_def fun_eq_iff)

lemma matches_named:
  assumes "dir_wf x s" "k < slots x"
  shows "entry_matches name (entry_of x s k) = Inr (named x s name k)"
  using assms by (auto simp: entry_matches_def cstring_def dir_wf_def named_def ename_def)

text \<open>The search returns the first entry in use with the name, or reports that there is none.\<close>

lemma lookup_loop_result:
  assumes "inodes s i = Some x" "inode_ok x s" "disk_ok s" "mem_ok s" "dir_wf x s" "length e = 20" "p = 20 * k"
  shows "\<exists>r s'. lookup_loop i name e (int p) s = okE (r, s') \<and> same_disk s s' \<and>
    (case r of None \<Rightarrow> \<forall>j \<ge> k. \<not> named x s name j
     | Some (e', o') \<Rightarrow> \<exists>j \<ge> k. named x s name j \<and> e' = entry_of x s j \<and> o' = int (20 * j))"
  using assms
proof (induction "slots x - k" arbitrary: k p e s rule: less_induct)
  case less
  obtain bs s1 where b: "inode_read_at i (int entry_size) (int p) s = Inr (bs, s1)" "same_disk s s1"
      "if k < slots x then bs = entry_of x s k else length bs < 20"
    using read_entry [OF less.prems(1-4,7)] by blast
  note st = same_disk_step [OF b(2) less.prems(1-5)]
  show ?case
  proof (cases "k < slots x")
    case False
    then have "lookup_loop i name e (int p) s = okE (None, s1)"
      using b by (subst lookup_loop.simps) (simp add: entry_size_def Let_def)
    then show ?thesis using b(2) False by (auto simp: named_def)
  next
    case True
    then have bs: "bs = entry_of x s k" "length bs = 20" "overlay 0 bs e = bs"
      using b(3) entry_length(1) less.prems(6) overlay_all [of bs e] by simp_all
    have u: "lookup_loop i name e (int p) s = (if named x s name k then okE (Some (bs, int p), s1)
        else lookup_loop i name bs (int (p + 20)) s1)"
      using b(1) bs matches_named [OF less.prems(5) True] by (subst lookup_loop.simps) (simp add: entry_size_def Let_def)
    show ?thesis
    proof (cases "named x s name k")
      case yes: True
      then show ?thesis using u b(2) bs(1) less.prems(7) by (auto intro!: exI [of _ k])
    next
      case no: False
      have "slots x - Suc k < slots x - k" "p + 20 = 20 * Suc k" using True less.prems(7) by simp_all
      from less.hyps [OF this(1) st(1-5) bs(2) this(2)] obtain r s' where
        r: "lookup_loop i name bs (int (p + 20)) s1 = okE (r, s')" "same_disk s1 s'"
          "case r of None \<Rightarrow> \<forall>j \<ge> Suc k. \<not> named x s name j
           | Some (e', o') \<Rightarrow> \<exists>j \<ge> Suc k. named x s name j \<and> e' = entry_of x s j \<and> o' = int (20 * j)"
        unfolding st(6,7) by blast
      have "case r of None \<Rightarrow> \<forall>j \<ge> k. \<not> named x s name j
           | Some (e', o') \<Rightarrow> \<exists>j \<ge> k. named x s name j \<and> e' = entry_of x s j \<and> o' = int (20 * j)"
      proof (cases r)
        case None
        then show ?thesis using r(3) no by (auto simp: not_less_eq_eq elim: le_SucE) (metis le_antisym not_less_eq_eq)
      next
        case (Some a)
        then show ?thesis using r(3) by (cases a) (auto intro: Suc_leD)
      qed
      then show ?thesis using u no r(1) same_disk_trans [OF b(2) r(2)] by auto
    qed
  qed
qed

lemma lookup_result:
  assumes d: "dirs s d = Some y" "inodes s (dir_inode y) = Some x" and ok: "inode_ok x s" "disk_ok s" "mem_ok s" "dir_wf x s" "length e = 20"
  shows "\<exists>r s'. lookup (Some d) name e s = okE (r, s') \<and> same_disk s s' \<and>
    (case r of None \<Rightarrow> dir_map x s name = None
     | Some (e', o') \<Rightarrow> \<exists>j. named x s name j \<and> e' = entry_of x s j \<and> o' = int (20 * j) \<and> dir_map x s name = Some (entry_sector e'))"
proof -
  obtain r s' where r: "lookup_loop (dir_inode y) name e (int 0) s = okE (r, s')" "same_disk s s'"
    "case r of None \<Rightarrow> \<forall>j \<ge> 0. \<not> named x s name j
       | Some (e', o') \<Rightarrow> \<exists>j \<ge> 0. named x s name j \<and> e' = entry_of x s j \<and> o' = int (20 * j)"
    using lookup_loop_result [OF d(2) ok, of 0 0 name] by auto
  have "case r of None \<Rightarrow> dir_map x s name = None
     | Some (e', o') \<Rightarrow> \<exists>j. named x s name j \<and> e' = entry_of x s j \<and> o' = int (20 * j) \<and> dir_map x s name = Some (entry_sector e')"
    using r(3) dir_map_Some [OF ok(4), of name] by (auto simp: dir_map_None split: option.splits)
  then show ?thesis using r(1,2) d(1) by (auto simp: lookup_def get_dir_def)
qed

text \<open>The search for a free entry.\<close>

lemma slot_loop_result:
  assumes "inodes s i = Some x" "inode_ok x s" "disk_ok s" "mem_ok s" "dir_wf x s" "length e = 20" "p = 20 * k"
    "k \<le> slots x" "\<forall>j < k. entry_in_use (entry_of x s j)"
  shows "\<exists>e' j s'. slot_loop i e (int p) s = okE (e', int (20 * j), s') \<and> same_disk s s' \<and> length e' = 20 \<and> j \<le> slots x \<and>
    (\<forall>m < j. entry_in_use (entry_of x s m)) \<and> (j < slots x \<longrightarrow> \<not> entry_in_use (entry_of x s j))"
  using assms
proof (induction "slots x - k" arbitrary: k p e s rule: less_induct)
  case less
  obtain bs s1 where b: "inode_read_at i (int entry_size) (int p) s = Inr (bs, s1)" "same_disk s s1"
      "if k < slots x then bs = entry_of x s k else length bs < 20"
    using read_entry [OF less.prems(1-4,7)] by blast
  note st = same_disk_step [OF b(2) less.prems(1-5)]
  show ?case
  proof (cases "k < slots x \<and> entry_in_use (entry_of x s k)")
    case False
    have "length (overlay 0 bs e) = 20"
      using b(3) entry_length(1) [of k x s] less.prems(6) by (cases "k < slots x") (simp_all add: overlay_def)
    moreover have "slot_loop i e (int p) s = okE (overlay 0 bs e, int (20 * k), s1)"
    proof (cases "k < slots x")
      case True
      then have "bs = entry_of x s k" "length bs = 20" using b(3) entry_length(1) by simp_all
      then show ?thesis using b(1) False True overlay_all [of bs e] less.prems(6,7)
        by (subst slot_loop.simps) (simp add: entry_size_def Let_def)
    next
      case no: False
      then show ?thesis using b less.prems(7) by (subst slot_loop.simps) (simp add: entry_size_def Let_def)
    qed
    ultimately show ?thesis using b(2) less.prems(8,9) False by blast
  next
    case True
    then have bs: "bs = entry_of x s k" "length bs = 20" "overlay 0 bs e = bs"
      using b(3) entry_length(1) less.prems(6) overlay_all [of bs e] by simp_all
    have u: "slot_loop i e (int p) s = slot_loop i bs (int (p + 20)) s1"
      using b(1) bs True by (subst slot_loop.simps) (simp add: entry_size_def Let_def)
    have n: "slots x - Suc k < slots x - k" "p + 20 = 20 * Suc k" "Suc k \<le> slots x" "\<forall>j < Suc k. entry_in_use (entry_of x s j)"
      using True less.prems(7,9) by (auto simp: less_Suc_eq)
    from less.hyps [OF n(1) st(1-5) bs(2) n(2,3), unfolded st(6), OF n(4)] show ?thesis
      unfolding u using same_disk_trans [OF b(2)] by blast
  qed
qed

section \<open>Changing one entry\<close>

definition valid_name :: "u8 list \<Rightarrow> bool" where
  "valid_name name \<longleftrightarrow> name \<noteq> [] \<and> length name \<le> NAME_MAX \<and> 0 \<notin> set name"

lemma fill_entry_fields:
  assumes "valid_name name" "length e = 20"
  shows "length (fill_entry name q e) = 20" "entry_in_use (fill_entry name q e)" "ename (fill_entry name q e) = name"
    "0 \<in> set (entry_name (fill_entry name q e))" "entry_sector (fill_entry name q e) = q"
proof -
  let ?n = "overlay 0 (name @ [0]) (entry_name e)"
  have l: "length (entry_name e) = 15" "length name \<le> 14" using assms by (simp_all add: entry_name_def NAME_MAX_def valid_name_def)
  have ln: "length ?n = 15" using l by (simp add: overlay_length)
  show "length (fill_entry name q e) = 20" using ln by (simp add: fill_entry_def)
  have "entry_name (fill_entry name q e) = ?n" using ln by (simp add: fill_entry_def entry_name_def NAME_MAX_def)
  moreover have "?n = name @ 0 # drop (length name + 1) (entry_name e)" by (simp add: overlay_def)
  ultimately show "ename (fill_entry name q e) = name" "0 \<in> set (entry_name (fill_entry name q e))"
    using assms(1) by (auto simp: ename_def valid_name_def takeWhile_append)
  show "entry_in_use (fill_entry name q e)" using ln by (simp add: entry_in_use_def fill_entry_def nth_append)
  show "entry_sector (fill_entry name q e) = q" by (simp add: entry_sector_def fill_entry_def)
qed

definition changed :: "inode \<Rightarrow> nat \<Rightarrow> u8 list \<Rightarrow> fsys \<Rightarrow> fsys \<Rightarrow> bool" where
  "changed x j e s s' \<longleftrightarrow> j < slots x \<and> (\<forall>k < slots x. entry_of x s' k = (if k = j then e else entry_of x s k))"

lemma wrote_entry:
  assumes w: "wrote x (20 * j) e s s'" and l: "length e = 20" and j: "j < slots x"
  shows "changed x j e s s'"
proof -
  have c: "content x s' = overlay (20 * j) e (content x s)"
    by (rule wrote_content [OF w]) (use entry_length(2) [OF j] l in simp)
  have "entry_of x s' k = (if k = j then e else entry_of x s k)" if k: "k < slots x" for k
  proof (rule nth_equalityI)
    have n: "length (entry_of x s' k) = 20" "length (entry_of x s k) = 20" using entry_length(1) [OF k] by simp_all
    then show "length (entry_of x s' k) = length (if k = j then e else entry_of x s k)" using l by simp
    fix i assume "i < length (entry_of x s' k)"
    then have i: "i < 20" using n by simp
    have "entry_of x s' k ! i = overlay (20 * j) e (content x s) ! (20 * k + i)"
      using i n(1) by (simp add: entry_of_def c)
    also have "\<dots> = (if 20 * j \<le> 20 * k + i \<and> 20 * k + i < 20 * j + 20 then e ! (20 * k + i - 20 * j) else content x s ! (20 * k + i))"
      using entry_length(2) [OF j] entry_length(2) [OF k] i l by (subst overlay_nth) simp_all
    also have "\<dots> = (if k = j then e else entry_of x s k) ! i"
    proof (cases "k = j")
      case True
      then show ?thesis using i by simp
    next
      case False
      then have "\<not> (20 * j \<le> 20 * k + i \<and> 20 * k + i < 20 * j + 20)" using i by linarith
      moreover have "content x s ! (20 * k + i) = entry_of x s k ! i" using i n(2) by (simp add: entry_of_def)
      ultimately show ?thesis using False by (simp only: if_False)
    qed
    finally show "entry_of x s' k ! i = (if k = j then e else entry_of x s k) ! i" .
  qed
  then show ?thesis using j by (simp add: changed_def)
qed

lemma changed_named:
  assumes "changed x j e s s'"
  shows "named x s' name k \<longleftrightarrow> (if k = j then entry_in_use e \<and> ename e = name else named x s name k)"
  using assms by (auto simp: changed_def named_def)

lemma map_insert_entry:
  assumes c: "changed x j e s s'" and wf: "dir_wf x s" and free: "\<not> entry_in_use (entry_of x s j)"
    and e: "entry_in_use e" "ename e = name" "0 \<in> set (entry_name e)" and new: "dir_map x s name = None"
  shows "dir_wf x s'" "dir_map x s' = (dir_map x s)(name \<mapsto> entry_sector e)"
proof -
  note nm = changed_named [OF c]
  have nn: "\<not> named x s name k" for k using new by (simp add: dir_map_None)
  have nj: "\<not> named x s m j" for m using free by (simp add: named_def)
  show wf': "dir_wf x s'"
    unfolding dir_wf_def
  proof (intro conjI allI impI)
    show "0 \<in> set (entry_name (entry_of x s' k))" if "k < slots x" "entry_in_use (entry_of x s' k)" for k
      using that c wf e(3) by (auto simp: changed_def dir_wf_def split: if_splits)
    show "k = i" if "named x s' m k \<and> named x s' m i" for k i m
      using that nm nn nj e(2) dir_wf_unique [OF wf, of m k i] by (cases "k = j"; cases "i = j") auto
  qed
  show "dir_map x s' = (dir_map x s)(name \<mapsto> entry_sector e)"
  proof
    fix m
    show "dir_map x s' m = ((dir_map x s)(name \<mapsto> entry_sector e)) m"
    proof (cases "m = name")
      case True
      have "named x s' name j" using nm e(1,2) by simp
      from dir_map_Some [OF wf' this] show ?thesis using True c by (simp add: changed_def)
    next
      case False
      have s: "named x s' m k \<longleftrightarrow> named x s m k" for k using nm e(2) False nj by auto
      show ?thesis
      proof (cases "\<exists>k. named x s m k")
        case True
        then obtain k where k: "named x s m k" by blast
        then have "k \<noteq> j" "k < slots x" using nj by (auto simp: named_def)
        then have "entry_of x s' k = entry_of x s k" using c by (simp add: changed_def)
        then show ?thesis using dir_map_Some [OF wf k] dir_map_Some [OF wf', of m k] s k False by simp
      next
        case none: False
        then show ?thesis using s False by (simp add: dir_map_def)
      qed
    qed
  qed
qed

lemma map_erase_entry:
  assumes c: "changed x j e s s'" and wf: "dir_wf x s" and j: "named x s name j" and e: "\<not> entry_in_use e"
  shows "dir_wf x s'" "dir_map x s' = (dir_map x s)(name := None)"
proof -
  have nm: "named x s' m k \<longleftrightarrow> k \<noteq> j \<and> named x s m k" for m k using changed_named [OF c] e by simp
  show wf': "dir_wf x s'"
    unfolding dir_wf_def
  proof (intro conjI allI impI)
    show "0 \<in> set (entry_name (entry_of x s' k))" if "k < slots x" "entry_in_use (entry_of x s' k)" for k
      using that c wf e by (auto simp: changed_def dir_wf_def split: if_splits)
    show "k = i" if "named x s' m k \<and> named x s' m i" for k i m
      using that nm dir_wf_unique [OF wf, of m k i] by simp
  qed
  show "dir_map x s' = (dir_map x s)(name := None)"
  proof
    fix m
    show "dir_map x s' m = ((dir_map x s)(name := None)) m"
    proof (cases "\<exists>k. named x s' m k")
      case True
      then obtain k where k: "named x s m k" "k \<noteq> j" using nm by blast
      then have "entry_of x s' k = entry_of x s k" using c by (simp add: changed_def named_def)
      moreover have "m \<noteq> name" using dir_wf_unique [OF wf j, of k] k by auto
      ultimately show ?thesis using dir_map_Some [OF wf k(1)] dir_map_Some [OF wf', of m k] k nm by simp
    next
      case False
      then have "named x s m k \<Longrightarrow> k = j" for k using nm by blast
      then have "m = name \<or> (\<forall>k. \<not> named x s m k)" using j by (auto simp: named_def)
      then show ?thesis using False by (auto simp: dir_map_def)
    qed
  qed
qed

text \<open>A write behind the last whole entry changes no entry.\<close>

lemma wrote_behind:
  assumes w: "wrote x p bs s s'" and p: "20 * slots x \<le> p" and k: "k < slots x"
  shows "entry_of x s' k = entry_of x s k"
proof (rule nth_equalityI)
  have n: "length (entry_of x s' k) = 20" "length (entry_of x s k) = 20" using entry_length(1) [OF k] by simp_all
  then show "length (entry_of x s' k) = length (entry_of x s k)" by simp
  fix i assume "i < length (entry_of x s' k)"
  then have i: "i < 20" using n by simp
  have l: "20 * k + i < flen x" "20 * k + i < p" using entry_length(2) [OF k] i k p by linarith+
  then have "byte_at x s' (20 * k + i) = byte_at x s (20 * k + i)" using w by (simp add: wrote_def)
  then have "content x s' ! (20 * k + i) = content x s ! (20 * k + i)" using l(1) by (simp add: content_def)
  then show "entry_of x s' k ! i = entry_of x s k ! i" using i n by (simp add: entry_of_def)
qed

lemma dir_cong:
  assumes "\<And>k. k < slots x \<Longrightarrow> entry_of x s' k = entry_of x s k"
  shows "dir_wf x s' = dir_wf x s" "dir_map x s' = dir_map x s"
proof -
  have n: "named x s' = named x s" using assms by (auto simp: named_def fun_eq_iff)
  have "entry_of x s' (LEAST k. named x s name k) = entry_of x s (LEAST k. named x s name k)" if "\<exists>k. named x s name k" for name
    using LeastI_ex [OF that] assms by (simp add: named_def)
  then show "dir_map x s' = dir_map x s" by (auto simp: dir_map_def n fun_eq_iff)
  show "dir_wf x s' = dir_wf x s" using assms by (auto simp: dir_wf_def n)
qed

section \<open>Adding an entry\<close>

text \<open>The state in which a directory \<open>d\<close> with inode \<open>x\<close> can be used.\<close>

definition dir_ready :: "nat \<Rightarrow> inode \<Rightarrow> fsys \<Rightarrow> bool" where
  "dir_ready d x s \<longleftrightarrow> (\<exists>y. dirs s d = Some y \<and> inodes s (dir_inode y) = Some x) \<and> inode_ok x s \<and> disk_ok s \<and>
     mem_ok s \<and> dir_wf x s"

lemma dir_ready_same: "dir_ready d x s \<Longrightarrow> same_disk s s' \<Longrightarrow> dir_ready d x s'"
proof -
  assume r: "dir_ready d x s" and sd: "same_disk s s'"
  then have "dirs s' = dirs s" by (metis same_disk_def fsys.select_convs(8) fsys.surjective fsys.update_convs(10))
  then show ?thesis using r same_diskD [OF sd] dir_cong [of x s' s] entry_cong [OF sd, of x]
    by (auto simp: dir_ready_def)
qed

lemma dir_add_result:
  assumes r: "dir_ready d x s" and dw: "deny_write_cnt x = 0" and l: "length e0 = 20" "length e = 20" and z: "0 \<notin> set name"
  shows "\<exists>ok s'. dir_add (Some d) name q e0 e s = okE (ok, s') \<and> dir_wf x s' \<and>
    (\<exists>k bs. wrote x k bs s s' \<and> (k + length bs \<le> flen x \<or> bs = [])) \<and>
    (if ok then valid_name name \<and> dir_map x s name = None \<and> dir_map x s' = (dir_map x s)(name \<mapsto> q)
     else dir_map x s' = dir_map x s) \<and>
    (valid_name name \<and> dir_map x s name = None \<and> (\<exists>k < slots x. \<not> entry_in_use (entry_of x s k)) \<longleftrightarrow> ok)"
proof (cases "valid_name name")
  case False
  then have "dir_add (Some d) name q e0 e s = okE (False, s)" using z by (auto simp: dir_add_def valid_name_def)
  moreover have "wrote x 0 [] s s" using wrote_nothing r by (simp add: dir_ready_def)
  ultimately show ?thesis using False r by (fastforce simp: dir_ready_def)
next
  case True
  obtain y where y: "dirs s d = Some y" "inodes s (dir_inode y) = Some x" using r by (auto simp: dir_ready_def)
  have ok: "inode_ok x s" "disk_ok s" "mem_ok s" "dir_wf x s" using r by (simp_all add: dir_ready_def)
  obtain fnd s1 where f: "lookup (Some d) name e0 s = okE (fnd, s1)" "same_disk s s1"
    and fc: "case fnd of None \<Rightarrow> dir_map x s name = None
     | Some (e', o') \<Rightarrow> \<exists>j. named x s name j \<and> e' = entry_of x s j \<and> o' = int (20 * j) \<and> dir_map x s name = Some (entry_sector e')"
    using lookup_result [OF y ok l(1), of name] by blast
  have fn: "fnd = None \<longleftrightarrow> dir_map x s name = None" using fc by (cases fnd) auto
  note r1 = dir_ready_same [OF r f(2)] and c1 = entry_cong [OF f(2), of x]
  have m1: "dir_map x s1 = dir_map x s" "dir_wf x s1" using dir_cong [of x s1 s] c1 ok(4) by simp_all
  show ?thesis
  proof (cases "dir_map x s name = None")
    case False
    then have "dir_add (Some d) name q e0 e s = okE (False, s1)"
      using f fn True by (auto simp: dir_add_def valid_name_def NAME_MAX_def)
    then show ?thesis using False m1 wrote_nothing [OF ok(2) f(2), of x 0] by fastforce
  next
    case new: True
    obtain y1 where y1: "dirs s1 d = Some y1" "inodes s1 (dir_inode y1) = Some x" using r1 by (auto simp: dir_ready_def)
    have ok1: "inode_ok x s1" "disk_ok s1" "mem_ok s1" "dir_wf x s1" using r1 by (simp_all add: dir_ready_def)
    obtain e' j s2 where sl: "slot_loop (dir_inode y1) e (int 0) s1 = okE (e', int (20 * j), s2)" "same_disk s1 s2" "length e' = 20"
        "j \<le> slots x" "\<forall>m < j. entry_in_use (entry_of x s1 m)" "j < slots x \<longrightarrow> \<not> entry_in_use (entry_of x s1 j)"
      using slot_loop_result [OF y1(2) ok1 l(2), of 0 0] by auto
    note sd = same_disk_trans [OF f(2) sl(2)]
    note st = same_disk_step [OF sd y(2) ok]
    let ?e = "fill_entry name q e'"
    note fe = fill_entry_fields [OF True sl(3), of q]
    have i2: "inodes s2 (dir_inode y1) = Some x" using y1(2) same_diskD(7) [OF sl(2)] by simp
    define p where "p = 20 * j"
    have w1: "\<exists>n s'. inode_write_at (dir_inode y1) ?e 20 (int p) s2 = Inr (int n, s') \<and> wrote x p (take n ?e) s2 s' \<and>
      (p + n \<le> flen x \<or> n = 0) \<and> n = room x 20 (int p)"
      using inode_write_result [OF i2 st(2,3), of 20 "int p" ?e] fe(1) dw st(4) by auto
    then obtain n s3 where w: "inode_write_at (dir_inode y1) ?e 20 (int (20 * j)) s2 = Inr (int n, s3)"
        "wrote x (20 * j) (take n ?e) s2 s3" "20 * j + n \<le> flen x \<or> n = 0" "n = room x 20 (int (20 * j))"
      unfolding p_def by blast
    have run: "dir_add (Some d) name q e0 e s = okE (int n = 20, s3)"
      using f fn new True y1(1) sl(1) w(1) by (auto simp: dir_add_def valid_name_def NAME_MAX_def get_dir_def entry_size_def)
    have w0: "wrote x (20 * j) (take n ?e) s s3" by (rule wrote_same_disk [OF ok(2) sd w(2)])
    show ?thesis
    proof (cases "j < slots x")
      case j: True
      then have n: "n = 20" using w(4) room_entry(1) [OF ok(1) j] by simp
      have ch: "changed x j ?e s s3" by (rule wrote_entry) (use w0 n fe(1) j in simp_all)
      note ins = map_insert_entry [OF ch ok(4) _ fe(2,3,4) new]
      have "\<not> entry_in_use (entry_of x s j)" using sl(6) j c1 by simp
      then show ?thesis using run n ins fe(5) True new w0 w(3) fe(1) by fastforce
    next
      case False
      then have j: "j = slots x" using sl(4) by simp
      have "int n \<noteq> 20" using w(4) room_entry(2) [OF ok(1) False] by simp
      moreover have "entry_of x s3 k = entry_of x s k" if "k < slots x" for k by (rule wrote_behind [OF w0 _ that]) (simp add: j)
      ultimately show ?thesis using run dir_cong [of x s3 s] ok(4) w0 w(3) fe(1) sl(5) c1 j by fastforce
    qed
  qed
qed

section \<open>The properties\<close>

text \<open>
  C6. Writing to a file and reading the same range back returns the bytes written: the write
  returns the number of bytes that fit before the end of the file, replaces exactly those, leaves
  the contents of every file on other sectors as they were, and the read then returns them.
\<close>

theorem inode_write_read:
  assumes "inodes s i = Some x" "inode_ok x s" "disk_ok s" "mem_ok s" "deny_write_cnt x = 0"
    "0 \<le> sz" "0 \<le> offset" "nat sz \<le> length buf"
  shows "\<exists>s1 s2. inode_write_at i buf sz offset s = Inr (int (room x sz offset), s1) \<and>
    inode_read_at i sz offset s1 = Inr (take (room x sz offset) buf, s2) \<and>
    (room x sz offset \<noteq> 0 \<longrightarrow> content x s1 = overlay (nat offset) (take (room x sz offset) buf) (content x s)) \<and>
    (\<forall>y. inode_ok y s \<and> extent_of x \<inter> extent_of y = {} \<longrightarrow> content y s1 = content y s)"
proof -
  let ?n = "room x sz offset" and ?bs = "take (room x sz offset) buf"
  obtain s1 where w: "inode_write_at i buf sz offset s = Inr (int ?n, s1)" "wrote x (nat offset) ?bs s s1"
      "nat offset + ?n \<le> flen x \<or> ?n = 0"
    using inode_write_result [OF assms(1-3,6,7,8,5)] assms(4) by auto
  have "?n \<le> nat sz" by (simp add: room_def nat_mono)
  then have l: "length ?bs = ?n" using assms(8) by simp
  note f = wrote_fields [OF w(2)]
  obtain s2 where r: "inode_read_at i sz offset s1 = Inr (take ?n (drop (nat offset) (content x s1)), s2)"
    using inode_read_result [of s1 i x sz offset] assms(1,2,4,6,7) f by auto
  have c: "content x s1 = overlay (nat offset) ?bs (content x s)" if "?n \<noteq> 0"
    by (rule wrote_content [OF w(2)]) (use w(3) l that in simp)
  have "take ?n (drop (nat offset) (content x s1)) = ?bs"
    using c l w(3) by (cases "?n = 0") (simp_all add: overlay_def)
  moreover have "content y s1 = content y s" if y: "inode_ok y s" "extent_of x \<inter> extent_of y = {}" for y
  proof (cases "?n = 0")
    case True
    then have "byte_at y s1 = byte_at y s" using w(2) by (auto simp: wrote_def byte_at_def fun_eq_iff)
    then show ?thesis by (simp add: content_def)
  next
    case False
    then show ?thesis using wrote_elsewhere [OF w(2) assms(2) y(1) assms(3)] w(3) l y(2) by simp
  qed
  ultimately show ?thesis using w(1) r c by auto
qed

text \<open>A disk of eight sectors with one file of 40 bytes, which is also a directory of two entries.\<close>

definition demo_inode :: inode where
  "demo_inode = \<lparr>i_sector = 1, open_cnt = 1, removed = False, deny_write_cnt = 0,
     i_data = \<lparr>d_start = 2, d_length = 40, d_magic = INODE_MAGIC, d_unused = replicate 125 0\<rparr>\<rparr>"

definition demo_fs :: fsys where
  "demo_fs = \<lparr>sectors = (\<lambda>_. replicate 512 0), capacity = 8, free_map = \<lparr>bit_cnt = 8, bits = [7]\<rparr>, free_map_file = None,
     inodes = [0 \<mapsto> demo_inode], open_inodes = [0], files = Map.empty, dirs = [1 \<mapsto> \<lparr>dir_inode = 0, dir_pos = 0\<rparr>],
     allocs = (\<lambda>_. True), brk = 2\<rparr>"

lemma demo_fs_ok: "inodes demo_fs 0 = Some demo_inode" "inode_ok demo_inode demo_fs" "disk_ok demo_fs" "mem_ok demo_fs"
  by (auto simp: demo_fs_def demo_inode_def inode_ok_def disk_ok_def extent_of_def inode_length_def)

lemma demo_entries: "k < slots demo_inode \<Longrightarrow> entry_of demo_inode demo_fs k ! 19 = 0"
  by (auto simp: entry_of_def content_def byte_at_def demo_fs_def demo_inode_def inode_length_def)

lemma demo_dir: "dir_ready 1 demo_inode demo_fs"
proof -
  have "dir_wf demo_inode demo_fs" using demo_entries by (auto simp: dir_wf_def named_def entry_in_use_def)
  then show ?thesis using demo_fs_ok by (simp add: dir_ready_def) (simp add: demo_fs_def)
qed

theorem inode_write_read_witness:
  "\<exists>s1 s2. inode_write_at 0 [1, 2, 3] 3 38 demo_fs = Inr (2, s1) \<and> inode_read_at 0 3 38 s1 = Inr ([1, 2], s2)"
  using inode_write_read [OF demo_fs_ok, of 3 38 "[1, 2, 3]"]
  by (auto simp: demo_inode_def room_def inode_length_def)

text \<open>
  C5. A directory is a map from names to sectors. A search returns and finds exactly what the map
  says. Adding a name that is valid, new and for which there is a free entry succeeds and updates
  the map at that name only; any other attempt reports failure and leaves the map as it was.
\<close>

theorem directory_is_map:
  assumes "dir_ready d x s" "deny_write_cnt x = 0" "length e0 = 20" "length e = 20" "0 \<notin> set name"
  shows "(\<exists>r s'. lookup (Some d) name e0 s = okE (r, s') \<and> map_option (\<lambda>(e, _). entry_sector e) r = dir_map x s name) \<and>
    (\<exists>ok s'. dir_add (Some d) name q e0 e s = okE (ok, s') \<and> dir_wf x s' \<and>
      dir_map x s' = (if ok then (dir_map x s)(name \<mapsto> q) else dir_map x s) \<and>
      (ok \<longleftrightarrow> valid_name name \<and> dir_map x s name = None \<and> (\<exists>k < slots x. \<not> entry_in_use (entry_of x s k))))"
proof
  obtain y where y: "dirs s d = Some y" "inodes s (dir_inode y) = Some x" using assms(1) by (auto simp: dir_ready_def)
  have ok: "inode_ok x s" "disk_ok s" "mem_ok s" "dir_wf x s" using assms(1) by (simp_all add: dir_ready_def)
  obtain r s' where r: "lookup (Some d) name e0 s = okE (r, s')"
    "case r of None \<Rightarrow> dir_map x s name = None
     | Some (e', o') \<Rightarrow> \<exists>j. named x s name j \<and> e' = entry_of x s j \<and> o' = int (20 * j) \<and> dir_map x s name = Some (entry_sector e')"
    using lookup_result [OF y ok assms(3), of name] by blast
  then have "map_option (\<lambda>(e, _). entry_sector e) r = dir_map x s name" by (cases r) auto
  then show "\<exists>r s'. lookup (Some d) name e0 s = okE (r, s') \<and> map_option (\<lambda>(e, _). entry_sector e) r = dir_map x s name"
    using r(1) by blast
next
  obtain ok s' where "dir_add (Some d) name q e0 e s = okE (ok, s')" "dir_wf x s'"
    "if ok then valid_name name \<and> dir_map x s name = None \<and> dir_map x s' = (dir_map x s)(name \<mapsto> q)
     else dir_map x s' = dir_map x s"
    "valid_name name \<and> dir_map x s name = None \<and> (\<exists>k < slots x. \<not> entry_in_use (entry_of x s k)) \<longleftrightarrow> ok"
    using dir_add_result [OF assms, of q] by blast
  then show "\<exists>ok s'. dir_add (Some d) name q e0 e s = okE (ok, s') \<and> dir_wf x s' \<and>
      dir_map x s' = (if ok then (dir_map x s)(name \<mapsto> q) else dir_map x s) \<and>
      (ok \<longleftrightarrow> valid_name name \<and> dir_map x s name = None \<and> (\<exists>k < slots x. \<not> entry_in_use (entry_of x s k)))"
    by (cases ok) auto
qed

theorem directory_is_map_witness:
  "\<exists>s'. dir_add (Some 1) [97] 5 (replicate 20 0) (replicate 20 0) demo_fs = okE (True, s') \<and> dir_map demo_inode s' [97] = Some 5"
proof -
  have v: "valid_name [97]" by (simp add: valid_name_def NAME_MAX_def)
  have "0 < slots demo_inode" "deny_write_cnt demo_inode = 0" by (simp_all add: demo_inode_def inode_length_def)
  moreover have "\<not> entry_in_use (entry_of demo_inode demo_fs k)" if "k < slots demo_inode" for k
    using that demo_entries by (simp add: entry_in_use_def)
  then have "dir_map demo_inode demo_fs [97] = None" by (auto simp: dir_map_None named_def)
  ultimately show ?thesis
    using directory_is_map [OF demo_dir, of "replicate 20 0" "replicate 20 0" "[97]" 5] v
      \<open>\<And>k. k < slots demo_inode \<Longrightarrow> \<not> entry_in_use (entry_of demo_inode demo_fs k)\<close> by fastforce
qed


lemma unat_numeral_two: "unat (2 :: u32) = 2"
  by simp

lemma demo_sectors: "\<exists>q s'. free_map_allocate 2 demo_fs = okE (Some q, s')"
proof -
  have wf: "bm_wf (free_map demo_fs)" by (simp add: demo_fs_def bm_wf_def)
  have c: "(0 :: u32) < 2" by simp
  obtain q b where q: "bitmap_scan_and_flip (free_map demo_fs) 0 2 False = okE (q, b)"
    "q = BITMAP_ERROR \<longrightarrow> (\<forall>k. k + unat (2 :: u32) \<le> unat (bit_cnt (free_map demo_fs)) \<longrightarrow> {k..<k + unat (2 :: u32)} \<inter> sectors_used demo_fs \<noteq> {})"
    using scan_and_flip_used [OF wf c] by (elim exE conjE) (auto split: if_splits)
  have "sectors_used demo_fs = {i. i < 8 \<and> bit (7 :: u32) i}"
    by (auto simp: used_bits_def bm_bits_def bit_at_def demo_fs_def)
  moreover have "{3..<3 + 2} = {3, 4 :: nat}" by auto
  ultimately have "{3..<3 + 2} \<inter> sectors_used demo_fs = {}" by simp
  moreover have "3 + 2 \<le> unat (bit_cnt (free_map demo_fs))" by (simp add: demo_fs_def)
  ultimately have "q \<noteq> BITMAP_ERROR" using mp [OF q(2), THEN spec, of 3] by (auto simp only: unat_numeral_two)
  moreover have "free_map_file demo_fs = None" by (simp add: demo_fs_def)
  ultimately have "free_map_allocate 2 demo_fs = okE (Some q, demo_fs\<lparr>free_map := b\<rparr>)"
    using q(1) by (simp add: free_map_allocate_def Let_def)
  then show ?thesis by blast
qed


end
