(* ===== verification/Kpagedir.thy ===== *)
theory Kpagedir
  imports Kpalloc
begin

text \<open>
  \<^verbatim>\<open>userprog/pagedir.c\<close>: two-level page tables as words in the memory of the page allocator, and
  \<^verbatim>\<open>frame_entry_set_pte\<close> of \<^verbatim>\<open>vm/frame.c\<close>, which \<^verbatim>\<open>pagedir_set_page\<close> calls. The fields of a frame entry
  that its allocation leaves uninitialised are optional. The translation buffer of the processor
  is not part of the state; reloading the page directory register is.
\<close>

section \<open>The code\<close>

record frame_entry =
  using_thread :: ptr
  fr_pte :: "ptr option"
  fr_kpage :: ptr
  fr_upage :: "ptr option"

record vm =
  vp :: pages
  frame_table :: "frame_entry list"
  ram_pages :: u32
  base_page_dir :: ptr
  cr3 :: u32

definition set_word :: "ptr \<Rightarrow> u32 \<Rightarrow> bmem \<Rightarrow> bmem" where
  "set_word p w m = m(p := int_bytes w ! 0, p + 1 := int_bytes w ! 1, p + 2 := int_bytes w ! 2, p + 3 := int_bytes w ! 3)"

definition read_word :: "ptr \<Rightarrow> vm \<Rightarrow> u32" where
  "read_word p s = word_at (pmem (vp s)) p"

definition write_word :: "ptr \<Rightarrow> u32 \<Rightarrow> vm \<Rightarrow> vm" where
  "write_word p w s = s\<lparr>vp := (vp s)\<lparr>pmem := set_word p w (pmem (vp s))\<rparr>\<rparr>"

fun set_pte :: "ptr \<Rightarrow> ptr \<Rightarrow> ptr \<Rightarrow> frame_entry list \<Rightarrow> frame_entry list" where
  "set_pte upage kpage pte [] = []"
| "set_pte upage kpage pte (f # fs) =
     (if fr_kpage f = kpage then f\<lparr>fr_pte := Some pte, fr_upage := Some upage\<rparr> # fs
      else f # set_pte upage kpage pte fs)"

definition frame_entry_set_pte :: "ptr \<Rightarrow> ptr \<Rightarrow> ptr \<Rightarrow> vm \<Rightarrow> vm" where
  "frame_entry_set_pte upage kpage pte s = s\<lparr>frame_table := set_pte upage kpage pte (frame_table s)\<rparr>"

definition active_pd :: "vm \<Rightarrow> ptr res" where
  "active_pd s = ptov (cr3 s)"

definition pagedir_activate :: "ptr \<Rightarrow> vm \<Rightarrow> vm res" where
  "pagedir_activate pd s = (let pd = (if pd = NULL then base_page_dir s else pd) in
     bindR (vtop pd) (\<lambda>pa. Inr (s\<lparr>cr3 := pa\<rparr>)))"

definition invalidate_pagedir :: "ptr \<Rightarrow> vm \<Rightarrow> vm res" where
  "invalidate_pagedir pd s = bindR (active_pd s) (\<lambda>a. if a = pd then pagedir_activate pd s else Inr s)"

definition pagedir_create :: "vm \<Rightarrow> (ptr \<times> vm) exec" where
  "pagedir_create s = bindE (palloc_get_page 0 (vp s)) (\<lambda>(pd, p).
     if pd \<noteq> NULL
     then bindE (Some (memcpy pd (base_page_dir s) PGSIZE (pmem p))) (\<lambda>(_, m). okE (pd, s\<lparr>vp := p\<lparr>pmem := m\<rparr>\<rparr>))
     else okE (pd, s\<lparr>vp := p\<rparr>))"

definition lookup_page :: "ptr \<Rightarrow> ptr \<Rightarrow> bool \<Rightarrow> vm \<Rightarrow> (ptr \<times> vm) exec" where
  "lookup_page pd vaddr create s = requireE (pd \<noteq> NULL) (requireE (\<not> create \<or> is_user_vaddr vaddr)
     (let pde = pd + 4 * pd_no vaddr in
      bindE (if read_word pde s = 0
             then if create
               then bindE (palloc_get_page PAL_ZERO (vp s)) (\<lambda>(pt, p). let s = s\<lparr>vp := p\<rparr> in
                 if pt = NULL then okE (False, s)
                 else bindE (Some (pde_create pt)) (\<lambda>e. okE (True, write_word pde e s)))
               else okE (False, s)
             else okE (True, s)) (\<lambda>(have, s).
      if \<not> have then okE (NULL, s)
      else bindE (Some (pde_get_pt (read_word pde s))) (\<lambda>pt. okE (pt + 4 * pt_no vaddr, s)))))"

definition pagedir_set_page :: "ptr \<Rightarrow> ptr \<Rightarrow> ptr \<Rightarrow> bool \<Rightarrow> vm \<Rightarrow> (bool \<times> vm) exec" where
  "pagedir_set_page pd upage kpage writable s =
     requireE (pg_ofs upage = 0) (requireE (pg_ofs kpage = 0) (requireE (is_user_vaddr upage)
     (bindE (Some (vtop kpage)) (\<lambda>pa. requireE (drop_bit PTSHIFT pa < ram_pages s) (requireE (pd \<noteq> base_page_dir s)
     (bindE (lookup_page pd upage True s) (\<lambda>(pte, s).
      if pte \<noteq> NULL
      then requireE (read_word pte s AND PTE_P = 0)
        (bindE (Some (pte_create_user kpage writable)) (\<lambda>e.
         okE (True, frame_entry_set_pte upage kpage pte (write_word pte e s))))
      else okE (False, s))))))))"

definition pagedir_get_page :: "ptr \<Rightarrow> ptr \<Rightarrow> vm \<Rightarrow> (ptr \<times> vm) exec" where
  "pagedir_get_page pd uaddr s = requireE (is_user_vaddr uaddr)
     (bindE (lookup_page pd uaddr False s) (\<lambda>(pte, s).
      if pte \<noteq> NULL \<and> read_word pte s AND PTE_P \<noteq> 0
      then bindE (Some (pte_get_page (read_word pte s))) (\<lambda>p. okE (p + pg_ofs uaddr, s))
      else okE (NULL, s)))"

definition pagedir_clear_page :: "ptr \<Rightarrow> ptr \<Rightarrow> vm \<Rightarrow> vm exec" where
  "pagedir_clear_page pd upage s = requireE (pg_ofs upage = 0) (requireE (is_user_vaddr upage)
     (bindE (lookup_page pd upage False s) (\<lambda>(pte, s).
      if pte \<noteq> NULL \<and> read_word pte s AND PTE_P \<noteq> 0
      then Some (invalidate_pagedir pd (write_word pte (read_word pte s AND NOT PTE_P) s))
      else okE s)))"

text \<open>The functions that test and set one flag of an entry.\<close>

definition test_flag :: "u32 \<Rightarrow> ptr \<Rightarrow> ptr \<Rightarrow> vm \<Rightarrow> (bool \<times> vm) exec" where
  "test_flag flag pd vpage s = bindE (lookup_page pd vpage False s) (\<lambda>(pte, s).
     okE (pte \<noteq> NULL \<and> read_word pte s AND flag \<noteq> 0, s))"

definition set_flag :: "u32 \<Rightarrow> ptr \<Rightarrow> ptr \<Rightarrow> bool \<Rightarrow> vm \<Rightarrow> vm exec" where
  "set_flag flag pd vpage v s = bindE (lookup_page pd vpage False s) (\<lambda>(pte, s).
     if pte \<noteq> NULL
     then if v then okE (write_word pte (read_word pte s OR flag) s)
       else Some (invalidate_pagedir pd (write_word pte (read_word pte s AND NOT flag) s))
     else okE s)"

definition pagedir_is_dirty :: "ptr \<Rightarrow> ptr \<Rightarrow> vm \<Rightarrow> (bool \<times> vm) exec" where
  "pagedir_is_dirty = test_flag PTE_D"

definition pagedir_set_dirty :: "ptr \<Rightarrow> ptr \<Rightarrow> bool \<Rightarrow> vm \<Rightarrow> vm exec" where
  "pagedir_set_dirty = set_flag PTE_D"

definition pagedir_set_rw :: "ptr \<Rightarrow> ptr \<Rightarrow> bool \<Rightarrow> vm \<Rightarrow> vm exec" where
  "pagedir_set_rw = set_flag PTE_W"

definition pagedir_is_accessed :: "ptr \<Rightarrow> ptr \<Rightarrow> vm \<Rightarrow> (bool \<times> vm) exec" where
  "pagedir_is_accessed = test_flag PTE_A"

definition pagedir_set_accessed :: "ptr \<Rightarrow> ptr \<Rightarrow> bool \<Rightarrow> vm \<Rightarrow> vm exec" where
  "pagedir_set_accessed = set_flag PTE_A"

definition free_page :: "ptr \<Rightarrow> vm \<Rightarrow> vm res" where
  "free_page page s = bindR (palloc_free_page page (vp s)) (\<lambda>p. Inr (s\<lparr>vp := p\<rparr>))"

fun destroy_ptes :: "ptr \<Rightarrow> nat list \<Rightarrow> vm \<Rightarrow> vm res" where
  "destroy_ptes pt [] s = Inr s"
| "destroy_ptes pt (i # is) s = (let e = read_word (pt + 4 * of_nat i) s in
     if e AND PTE_P \<noteq> 0
     then bindR (pte_get_page e) (\<lambda>page. bindR (free_page page s) (\<lambda>s. destroy_ptes pt is s))
     else destroy_ptes pt is s)"

fun destroy_pdes :: "ptr \<Rightarrow> nat list \<Rightarrow> vm \<Rightarrow> vm res" where
  "destroy_pdes pd [] s = Inr s"
| "destroy_pdes pd (i # is) s = (let e = read_word (pd + 4 * of_nat i) s in
     if e AND PTE_P \<noteq> 0
     then bindR (pde_get_pt e) (\<lambda>pt. bindR (destroy_ptes pt [0..<1024] s) (\<lambda>s.
       bindR (free_page pt s) (\<lambda>s. destroy_pdes pd is s)))
     else destroy_pdes pd is s)"

definition pagedir_destroy :: "ptr \<Rightarrow> vm \<Rightarrow> vm res" where
  "pagedir_destroy pd s = (if pd = NULL then Inr s
     else require (pd \<noteq> base_page_dir s)
       (bindR (destroy_pdes pd [0..<unat (pd_no PHYS_BASE)] s) (\<lambda>s. free_page pd s)))"

section \<open>Words in memory\<close>

lemma set_word_same [simp]: "word_at (set_word p w m) p = w"
proof -
  have d: "p + 1 \<noteq> p" "p + 2 \<noteq> p" "p + 3 \<noteq> p" "p + 2 \<noteq> p + 1" "p + 3 \<noteq> p + 1" "p + 3 \<noteq> p + 2" by simp_all
  have "word_at (set_word p w m) p = bytes_int [int_bytes w ! 0, int_bytes w ! 1, int_bytes w ! 2, int_bytes w ! 3]"
    using d by (simp add: word_at_def set_word_def)
  also have "[int_bytes w ! 0, int_bytes w ! 1, int_bytes w ! 2, int_bytes w ! 3] = int_bytes w" by (simp add: int_bytes_def)
  finally show ?thesis by simp
qed

definition word_aligned :: "ptr \<Rightarrow> bool" where
  "word_aligned p \<longleftrightarrow> unat p mod 4 = 0"

lemma aligned_byte:
  assumes "word_aligned p" "k < 4"
  shows "unat (p + of_nat k) = unat p + k"
proof -
  have "unat p + k < 2 ^ 32" using unat_lt2p [of p] assms by (simp add: word_aligned_def) presburger
  then show ?thesis using assms(2) by (simp add: unat_word_ariths unat_of_nat)
qed

lemma aligned_apart:
  assumes "word_aligned p" "word_aligned q" "p \<noteq> q" "i < 4" "j < 4"
  shows "p + of_nat i \<noteq> q + of_nat j"
proof
  assume "p + of_nat i = q + of_nat j"
  then have "unat p + i = unat q + j" using aligned_byte [OF assms(1,4)] aligned_byte [OF assms(2,5)] by simp
  moreover have "unat p mod 4 = 0" "unat q mod 4 = 0" using assms by (simp_all add: word_aligned_def)
  ultimately have "unat p = unat q" using assms(4,5) by presburger
  then show False using assms(3) by (simp add: word_unat_eq_iff)
qed

lemma set_word_other:
  assumes "word_aligned p" "word_aligned q" "p \<noteq> q"
  shows "word_at (set_word p w m) q = word_at m q"
proof -
  have "set_word p w m (q + of_nat j) = m (q + of_nat j)" if "j < 4" for j
    using aligned_apart [OF assms(2,1) assms(3) [symmetric] that, of 0] aligned_apart [OF assms(2,1) assms(3) [symmetric] that, of 1]
      aligned_apart [OF assms(2,1) assms(3) [symmetric] that, of 2] aligned_apart [OF assms(2,1) assms(3) [symmetric] that, of 3]
    by (simp add: set_word_def)
  from this [of 0] this [of 1] this [of 2] this [of 3] show ?thesis by (simp add: word_at_def)
qed

lemma word_at_cong:
  assumes "\<And>j. j < 4 \<Longrightarrow> m' (q + of_nat j) = m (q + of_nat j)"
  shows "word_at m' q = word_at m q"
  using assms [of 0] assms [of 1] assms [of 2] assms [of 3] by (simp add: word_at_def)

lemma word_at_zero: "(\<And>j. j < 4 \<Longrightarrow> m (q + of_nat j) = 0) \<Longrightarrow> word_at m q = 0"
  using word_at_cong [of m q "\<lambda>_. 0"] by (simp add: word_at_def bytes_int_def)

section \<open>The slots of a page of entries\<close>

abbreviation slot :: "ptr \<Rightarrow> nat \<Rightarrow> ptr" where "slot a i \<equiv> a + 4 * of_nat i"

lemma slot_unat:
  assumes "pg_ofs a = 0" "i < 1024"
  shows "unat (slot a i) = unat a + 4 * i"
  using page_no_bound [OF assms(1)] assms(2) by (simp add: unat_word_ariths unat_of_nat)

lemma slot_facts:
  assumes "pg_ofs a = 0" "i < 1024"
  shows "pg_round_down (slot a i) = a" "word_aligned (slot a i)" "a \<noteq> NULL \<Longrightarrow> slot a i \<noteq> NULL"
proof -
  note u = slot_unat [OF assms]
  show "pg_round_down (slot a i) = a" by (rule in_page(1) [OF assms(1) u]) (use assms(2) in simp)
  have "unat a = 4 * (1024 * unat (pg_no a))" using base_address [OF assms(1)] by simp
  then have "unat a + 4 * i = 4 * (1024 * unat (pg_no a) + i)" by (simp add: algebra_simps)
  then show "word_aligned (slot a i)" unfolding word_aligned_def u by simp
  show "slot a i \<noteq> NULL" if "a \<noteq> NULL"
    using u that by (metis add_is_0 unat_0 unat_eq_zero)
qed

lemma slot_inj:
  assumes "pg_ofs a = 0" "pg_ofs b = 0" "i < 1024" "j < 1024" "slot a i = slot b j"
  shows "a = b \<and> i = j"
proof -
  have "a = b" using slot_facts(1) [OF assms(1,3)] slot_facts(1) [OF assms(2,4)] assms(5) by simp
  moreover have "unat a + 4 * i = unat b + 4 * j" using slot_unat [OF assms(1,3)] slot_unat [OF assms(2,4)] assms(5) by simp
  ultimately show ?thesis by simp
qed

text \<open>A page that is cleared leaves the words of other pages and has only zeros.\<close>

lemma slot_in_block:
  assumes a: "pg_ofs a = 0" "i < 1024" and p: "pg_ofs p = 0" and j: "j < 4"
  shows "in_block (slot a i + of_nat j) p PGSIZE \<longleftrightarrow> a = p"
proof -
  have u: "unat (slot a i + of_nat j) = unat a + (4 * i + j)"
    using aligned_byte [OF slot_facts(2) [OF a] j] slot_unat [OF a] by simp
  have lt: "4 * i + j < 4096" using a(2) j by simp
  have pn: "unat (pg_no (slot a i + of_nat j)) = unat (pg_no a)" by (rule in_page(3) [OF a(1) u lt])
  have ba: "unat a = 4096 * unat (pg_no a)" "unat p = 4096 * unat (pg_no p)" using base_address a(1) p by simp_all
  have eq: "a = p \<longleftrightarrow> unat (pg_no a) = unat (pg_no p)" using ba by (simp add: word_unat_eq_iff)
  have bd: "unat p + 4096 \<le> 2 ^ 32" by (rule page_no_bound [OF p])
  show ?thesis
  proof (cases "unat p \<le> unat (slot a i + of_nat j)")
    case True
    then have "unat (slot a i + of_nat j - p) = unat a + (4 * i + j) - unat p" using u by (simp add: unat_sub word_le_nat_alt)
    then show ?thesis using True u lt ba eq by (auto simp: in_block_def word_less_nat_alt PGSIZE_eq)
  next
    case False
    then have "unat (slot a i + of_nat j - p) = 2 ^ 32 + (unat a + (4 * i + j)) - unat p" using u by (simp add: unat_sub_if')
    then show ?thesis using False u ba eq bd by (auto simp: in_block_def word_less_nat_alt PGSIZE_eq)
  qed
qed

lemma cleared_words:
  assumes "pg_ofs a = 0" "i < 1024" "pg_ofs p = 0"
  shows "word_at (\<lambda>x. if in_block x p PGSIZE then 0 else m x) (slot a i) = (if a = p then 0 else word_at m (slot a i))"
proof (cases "a = p")
  case True
  then show ?thesis using slot_in_block [OF assms] by (auto intro!: word_at_zero)
next
  case False
  then show ?thesis using slot_in_block [OF assms] by (auto intro!: word_at_cong)
qed

section \<open>The map a page directory stands for\<close>

definition tbl :: "ptr \<Rightarrow> vm \<Rightarrow> nat \<Rightarrow> ptr option" where
  "tbl pd s i = (let e = read_word (slot pd i) s in if e = 0 then None
     else case pde_get_pt e of Inr pt \<Rightarrow> Some pt | Inl _ \<Rightarrow> None)"

text \<open>The entry for a virtual address, or zero when there is no table for it.\<close>

definition entry_for :: "ptr \<Rightarrow> vm \<Rightarrow> ptr \<Rightarrow> u32" where
  "entry_for pd s va = (case tbl pd s (unat (pd_no va)) of None \<Rightarrow> 0 | Some pt \<Rightarrow> read_word (slot pt (unat (pt_no va))) s)"

definition own_page :: "ptr \<Rightarrow> vm \<Rightarrow> bool" where
  "own_page a s \<longleftrightarrow> pg_ofs a = 0 \<and> a \<noteq> NULL \<and> unat (pg_no a) \<in> pages_used (vp s)"

definition pd_ok :: "ptr \<Rightarrow> vm \<Rightarrow> bool" where
  "pd_ok pd s \<longleftrightarrow> own_page pd s \<and>
     (\<forall>i < 768. read_word (slot pd i) s \<noteq> 0 \<longrightarrow> (\<exists>pt. tbl pd s i = Some pt \<and> own_page pt s \<and> pt \<noteq> pd)) \<and>
     (\<forall>i < 768. \<forall>j < 768. i \<noteq> j \<longrightarrow> tbl pd s i \<noteq> None \<longrightarrow> tbl pd s i \<noteq> tbl pd s j)"

definition vm_ok :: "vm \<Rightarrow> bool" where
  "vm_ok s \<longleftrightarrow> pages_ok (vp s) \<and> (\<forall>k \<in> pool_pages (kernel_pool (vp s)). 0xc0000 \<le> k)"

definition pd_pages :: "ptr \<Rightarrow> vm \<Rightarrow> ptr set" where
  "pd_pages pd s = {pd} \<union> {pt. \<exists>i < 768. tbl pd s i = Some pt}"

lemma user_index:
  assumes "is_user_vaddr va"
  shows "unat (pd_no va) < 768"
proof -
  have "unat va < 0xc0000000" using assms by (simp add: is_user_vaddr_def PHYS_BASE_def word_less_nat_alt)
  then show ?thesis unfolding unat_pd_no by (simp add: less_mult_imp_div_less)
qed

lemma pt_index: "unat (pt_no va) < 1024"
  by (simp add: unat_pt_no)

lemma tbl_zero: "read_word (slot pd i) s = 0 \<Longrightarrow> tbl pd s i = None"
  by (simp add: tbl_def)

lemma pd_okD:
  assumes "pd_ok pd s"
  shows "own_page pd s" "i < 768 \<Longrightarrow> read_word (slot pd i) s \<noteq> 0 \<Longrightarrow> \<exists>pt. tbl pd s i = Some pt \<and> own_page pt s \<and> pt \<noteq> pd"
    "i < 768 \<Longrightarrow> tbl pd s i = Some pt \<Longrightarrow> own_page pt s \<and> pt \<noteq> pd"
    "i < 768 \<Longrightarrow> j < 768 \<Longrightarrow> tbl pd s i = Some pt \<Longrightarrow> tbl pd s j = Some pt \<Longrightarrow> i = j"
proof -
  show "own_page pd s" using assms by (simp add: pd_ok_def)
  show a: "i < 768 \<Longrightarrow> read_word (slot pd i) s \<noteq> 0 \<Longrightarrow> \<exists>pt. tbl pd s i = Some pt \<and> own_page pt s \<and> pt \<noteq> pd" for i
    using assms by (simp add: pd_ok_def)
  show "i < 768 \<Longrightarrow> tbl pd s i = Some pt \<Longrightarrow> own_page pt s \<and> pt \<noteq> pd"
    using a [of i] tbl_zero [of pd i s] by fastforce
  have "i \<noteq> j \<Longrightarrow> i < 768 \<Longrightarrow> j < 768 \<Longrightarrow> tbl pd s i \<noteq> None \<Longrightarrow> tbl pd s i \<noteq> tbl pd s j"
    using assms by (simp add: pd_ok_def)
  then show "i < 768 \<Longrightarrow> j < 768 \<Longrightarrow> tbl pd s i = Some pt \<Longrightarrow> tbl pd s j = Some pt \<Longrightarrow> i = j" by auto
qed

text \<open>Looking up without creating.\<close>

lemma lookup_existing:
  assumes ok: "pd_ok pd s" and u: "is_user_vaddr va"
  shows "tbl pd s (unat (pd_no va)) = Some pt \<Longrightarrow> lookup_page pd va c s = okE (slot pt (unat (pt_no va)), s)"
    "tbl pd s (unat (pd_no va)) = None \<Longrightarrow> lookup_page pd va False s = okE (NULL, s)"
proof -
  have n: "pd \<noteq> NULL" using ok by (simp add: pd_ok_def own_page_def)
  show "lookup_page pd va c s = okE (slot pt (unat (pt_no va)), s)" if t: "tbl pd s (unat (pd_no va)) = Some pt"
    using t n u by (auto simp: lookup_page_def tbl_def Let_def split: if_splits sum.splits)
  show "lookup_page pd va False s = okE (NULL, s)" if t: "tbl pd s (unat (pd_no va)) = None"
  proof -
    have "read_word (slot pd (unat (pd_no va))) s = 0" using pd_okD(2) [OF ok user_index [OF u]] t by auto
    then show ?thesis using n by (simp add: lookup_page_def Let_def)
  qed
qed

section \<open>Creating a table\<close>

text \<open>
  What changes when a word of this directory or of one of its tables is written: words on other
  pages do not, and neither do the sets of pages in use.
\<close>

lemma write_word_fields [simp]:
  "frame_table (write_word p w s) = frame_table s" "ram_pages (write_word p w s) = ram_pages s"
  "base_page_dir (write_word p w s) = base_page_dir s" "cr3 (write_word p w s) = cr3 s"
  "pages_used (vp (write_word p w s)) = pages_used (vp s)" "pages_ok (vp (write_word p w s)) = pages_ok (vp s)"
  "kernel_pool (vp (write_word p w s)) = kernel_pool (vp s)"
  by (simp_all add: write_word_def pages_used_def pages_ok_def)

lemma own_page_write [simp]: "own_page a (write_word p w s) = own_page a s"
  by (simp add: own_page_def)

lemma vm_ok_write [simp]: "vm_ok (write_word p w s) = vm_ok s"
  by (simp add: vm_ok_def)

lemma read_write_slot:
  assumes "pg_ofs a = 0" "pg_ofs b = 0" "i < 1024" "j < 1024"
  shows "read_word (slot a i) (write_word (slot b j) w s) = (if a = b \<and> i = j then w else read_word (slot a i) s)"
proof (cases "a = b \<and> i = j")
  case True
  then show ?thesis by (simp add: read_word_def write_word_def)
next
  case False
  then have "slot b j \<noteq> slot a i" using slot_inj [OF assms] by metis
  then show ?thesis
    using False set_word_other [OF slot_facts(2) [OF assms(2,4)] slot_facts(2) [OF assms(1,3)]]
    by (auto simp: read_word_def write_word_def)
qed

definition fresh_table :: "ptr \<Rightarrow> vm \<Rightarrow> vm \<Rightarrow> bool" where
  "fresh_table pt s s' \<longleftrightarrow> own_page pt s' \<and> \<not> own_page pt s \<and> vm_ok s' \<and> (\<forall>a. own_page a s \<longrightarrow> own_page a s') \<and>
     (\<forall>a i. pg_ofs a = 0 \<and> i < 1024 \<longrightarrow> read_word (slot a i) s' = (if a = pt then 0 else read_word (slot a i) s)) \<and>
     s' = s\<lparr>vp := vp s'\<rparr> \<and> is_kernel_vaddr pt"

lemma fresh_read:
  "fresh_table pt s s' \<Longrightarrow> pg_ofs a = 0 \<Longrightarrow> i < 1024 \<Longrightarrow>
    read_word (slot a i) s' = (if a = pt then 0 else read_word (slot a i) s)"
  unfolding fresh_table_def by (elim conjE) blast

lemma get_table:
  assumes ok: "vm_ok s"
  shows "\<exists>pt p. palloc_get_page PAL_ZERO (vp s) = okE (pt, p) \<and>
    (if pt = NULL then p = vp s else fresh_table pt s (s\<lparr>vp := p\<rparr>))"
proof -
  have pk: "pages_ok (vp s)" using ok by (simp add: vm_ok_def)
  have one: "(0 :: u32) < 1" by simp
  have u: "False = (PAL_ZERO AND PAL_USER \<noteq> 0)" by (simp add: PAL_ZERO_def PAL_USER_def)
  obtain pt p where g: "palloc_get_multiple PAL_ZERO 1 (vp s) = okE (pt, p)" "pages_ok p"
    and c: "if pt = NULL then p = vp s \<and> (\<forall>k. {k..<k + unat (1 :: u32)} \<subseteq> pool_pages (pool_of False (vp s)) \<longrightarrow>
        {k..<k + unat (1 :: u32)} \<inter> pages_used (vp s) \<noteq> {})
      else pg_ofs pt = 0 \<and> page_range pt 1 \<subseteq> pool_pages (pool_of False (vp s)) \<and> page_range pt 1 \<inter> pages_used (vp s) = {} \<and>
        pages_used p = pages_used (vp s) \<union> page_range pt 1 \<and>
        pmem p = (\<lambda>x. if PAL_ZERO AND PAL_ZERO \<noteq> 0 \<and> in_block x pt (PGSIZE * 1) then 0 else pmem (vp s) x)"
    using get_multiple_result [OF pk one u] by (elim exE conjE)
  have "if pt = NULL then p = vp s else fresh_table pt s (s\<lparr>vp := p\<rparr>)"
  proof (cases "pt = NULL")
    case False
    then have f: "pg_ofs pt = 0" "unat (pg_no pt) \<in> pool_pages (kernel_pool (vp s))" "unat (pg_no pt) \<notin> pages_used (vp s)"
        "pages_used p = insert (unat (pg_no pt)) (pages_used (vp s))"
        "pmem p = (\<lambda>x. if in_block x pt PGSIZE then 0 else pmem (vp s) x)"
      using c by (auto simp: page_range_def pool_of_def PAL_ZERO_def)
    have "0xc0000 \<le> unat (pg_no pt)" using ok f(2) by (simp add: vm_ok_def)
    then have k: "is_kernel_vaddr pt"
      using base_address [OF f(1)] by (simp add: is_kernel_vaddr_def PHYS_BASE_def word_le_nat_alt)
    have "vm_ok (s\<lparr>vp := p\<rparr>)"
      using ok g(2) get_multiple_pools [OF pk g(1), of False] by (simp add: vm_ok_def pool_of_def)
    moreover have "read_word (slot a i) (s\<lparr>vp := p\<rparr>) = (if a = pt then 0 else read_word (slot a i) s)"
      if "pg_ofs a = 0" "i < 1024" for a i
      using cleared_words [OF that f(1)] by (simp add: read_word_def f(5))
    ultimately show ?thesis using False f k by (auto simp: fresh_table_def own_page_def)
  qed (use c in simp)
  then show ?thesis using g(1) by (auto simp: palloc_get_page_def)
qed

text \<open>A directory is unaffected by changes elsewhere.\<close>

lemma pd_frame:
  assumes ok: "pd_ok pd s" and own: "\<forall>a \<in> pd_pages pd s. own_page a s'"
    and w: "\<forall>a \<in> pd_pages pd s. \<forall>i < 1024. read_word (slot a i) s' = read_word (slot a i) s"
  shows "i < 768 \<Longrightarrow> tbl pd s' i = tbl pd s i" "pd_ok pd s'" "pd_pages pd s' = pd_pages pd s"
    "is_user_vaddr va \<Longrightarrow> entry_for pd s' va = entry_for pd s va"
proof -
  have pw: "read_word (slot pd i) s' = read_word (slot pd i) s" if "i < 768" for i
    using w that by (simp add: pd_pages_def)
  show t: "tbl pd s' i = tbl pd s i" if "i < 768" for i using pw [OF that] by (simp add: tbl_def)
  show "pd_pages pd s' = pd_pages pd s" using t by (auto simp: pd_pages_def)
  show "pd_ok pd s'" unfolding pd_ok_def
  proof (intro conjI allI impI)
    show "own_page pd s'" using own by (simp add: pd_pages_def)
    show "\<exists>pt. tbl pd s' i = Some pt \<and> own_page pt s' \<and> pt \<noteq> pd" if i: "i < 768" "read_word (slot pd i) s' \<noteq> 0" for i
    proof -
      obtain pt where "tbl pd s i = Some pt" "pt \<noteq> pd" using pd_okD(2) [OF ok i(1)] i(2) pw [OF i(1)] by auto
      then show ?thesis using own t [OF i(1)] i(1) by (auto simp: pd_pages_def)
    qed
    show "tbl pd s' i \<noteq> tbl pd s' j" if "i < 768" "j < 768" "i \<noteq> j" "tbl pd s' i \<noteq> None" for i j
      using pd_okD(4) [OF ok that(1,2)] that t by fastforce
  qed
  show "entry_for pd s' va = entry_for pd s va" if u: "is_user_vaddr va"
  proof (cases "tbl pd s (unat (pd_no va))")
    case None
    then show ?thesis using t [OF user_index [OF u]] by (simp add: entry_for_def)
  next
    case (Some pt)
    then have "pt \<in> pd_pages pd s" using user_index [OF u] by (auto simp: pd_pages_def)
    then have "read_word (slot pt (unat (pt_no va))) s' = read_word (slot pt (unat (pt_no va))) s" using w pt_index [of va] by blast
    then show ?thesis using Some t [OF user_index [OF u]] by (simp add: entry_for_def)
  qed
qed

lemma pd_pages_own: "pd_ok pd s \<Longrightarrow> a \<in> pd_pages pd s \<Longrightarrow> own_page a s"
  using pd_okD(1,3) [of pd s] by (auto simp: pd_pages_def)

definition others :: "ptr \<Rightarrow> vm \<Rightarrow> vm \<Rightarrow> bool" where
  "others pd s s' \<longleftrightarrow> (\<forall>pd2. pd_ok pd2 s \<longrightarrow> pd_pages pd s \<inter> pd_pages pd2 s = {} \<longrightarrow>
     pd_ok pd2 s' \<and> pd_pages pd s' \<inter> pd_pages pd2 s' = {} \<and> pd_pages pd2 s' = pd_pages pd2 s \<and>
     (\<forall>i < 1024. read_word (slot pd2 i) s' = read_word (slot pd2 i) s) \<and> (\<forall>va. is_user_vaddr va \<longrightarrow> entry_for pd2 s' va = entry_for pd2 s va))"

lemma others_refl [simp]: "others pd s s"
  by (simp add: others_def)

lemma othersD:
  assumes "others pd s s'" "pd_ok pd2 s" "pd_pages pd s \<inter> pd_pages pd2 s = {}"
  shows "pd_ok pd2 s'" "pd_pages pd s' \<inter> pd_pages pd2 s' = {}" "pd_pages pd2 s' = pd_pages pd2 s"
    "i < 1024 \<Longrightarrow> read_word (slot pd2 i) s' = read_word (slot pd2 i) s"
    "is_user_vaddr va \<Longrightarrow> entry_for pd2 s' va = entry_for pd2 s va"
proof -
  have "pd_ok pd2 s' \<and> pd_pages pd s' \<inter> pd_pages pd2 s' = {} \<and> pd_pages pd2 s' = pd_pages pd2 s \<and>
     (\<forall>i < 1024. read_word (slot pd2 i) s' = read_word (slot pd2 i) s) \<and>
     (\<forall>va. is_user_vaddr va \<longrightarrow> entry_for pd2 s' va = entry_for pd2 s va)"
    using assms unfolding others_def by blast
  then show "pd_ok pd2 s'" "pd_pages pd s' \<inter> pd_pages pd2 s' = {}" "pd_pages pd2 s' = pd_pages pd2 s"
    "i < 1024 \<Longrightarrow> read_word (slot pd2 i) s' = read_word (slot pd2 i) s"
    "is_user_vaddr va \<Longrightarrow> entry_for pd2 s' va = entry_for pd2 s va"
    by blast+
qed

lemma others_trans:
  assumes "others pd s s1" "others pd s1 s2"
  shows "others pd s s2"
  unfolding others_def
proof (intro allI impI)
  fix pd2 assume "pd_ok pd2 s" "pd_pages pd s \<inter> pd_pages pd2 s = {}"
  note a = othersD [OF assms(1) this]
  note b = othersD [OF assms(2) a(1,2)]
  show "pd_ok pd2 s2 \<and> pd_pages pd s2 \<inter> pd_pages pd2 s2 = {} \<and> pd_pages pd2 s2 = pd_pages pd2 s \<and>
     (\<forall>i < 1024. read_word (slot pd2 i) s2 = read_word (slot pd2 i) s) \<and>
     (\<forall>va. is_user_vaddr va \<longrightarrow> entry_for pd2 s2 va = entry_for pd2 s va)"
    using a(3-5) b by simp
qed

text \<open>A fresh table is entered into the directory.\<close>

lemma add_table:
  assumes ok: "pd_ok pd s" and i: "i < 768" "tbl pd s i = None" and f: "fresh_table pt s s1"
    and e: "pde_create pt = Inr e" "e \<noteq> 0" "pde_get_pt e = Inr pt"
  defines "s2 \<equiv> write_word (slot pd i) e s1"
  shows "tbl pd s2 i = Some pt" "pd_ok pd s2" "vm_ok s2" "others pd s s2"
    "is_user_vaddr va \<Longrightarrow> entry_for pd s2 va = entry_for pd s va"
proof -
  have pda: "pg_ofs pd = 0" using pd_okD(1) [OF ok] by (simp add: own_page_def)
  have pta: "own_page pt s1" "\<not> own_page pt s" using f by (simp_all add: fresh_table_def)
  have pta: "pg_ofs pt = 0" "own_page pt s1" "\<not> own_page pt s" using pta by (simp_all add: own_page_def)
  have ne: "pt \<noteq> pd" using pta(3) pd_okD(1) [OF ok] by blast
  have own: "own_page a s \<Longrightarrow> own_page a s2" for a using f by (simp add: s2_def fresh_table_def)
  have w: "read_word (slot a j) s2 = (if a = pd \<and> j = i then e else if a = pt then 0 else read_word (slot a j) s)"
    if "pg_ofs a = 0" "j < 1024" for a j
    using read_write_slot [OF that(1) pda that(2), of i e s1] fresh_read [OF f that] i(1) by (auto simp: s2_def)
  have t: "tbl pd s2 j = (if j = i then Some pt else tbl pd s j)" if "j < 768" for j
    using w [OF pda, of j] that e(2,3) ne by (auto simp: tbl_def Let_def)
  show "tbl pd s2 i = Some pt" using t i(1) by simp
  show "vm_ok s2" using f by (simp add: s2_def fresh_table_def)
  show "pd_ok pd s2" unfolding pd_ok_def
  proof (intro conjI allI impI)
    show "own_page pd s2" using own pd_okD(1) [OF ok] by blast
    show "\<exists>q. tbl pd s2 j = Some q \<and> own_page q s2 \<and> q \<noteq> pd" if "j < 768" "read_word (slot pd j) s2 \<noteq> 0" for j
      using pd_okD(2) [OF ok that(1)] that t w [OF pda, of j] own ne pta(2) by (auto simp: s2_def)
    show "tbl pd s2 j \<noteq> tbl pd s2 k" if "j < 768" "k < 768" "j \<noteq> k" "tbl pd s2 j \<noteq> None" for j k
      using pd_okD(4) [OF ok that(1,2)] pd_okD(3) [OF ok, of j pt] pd_okD(3) [OF ok, of k pt] that t pta(3)
      by (fastforce split: if_splits)
  qed
  show "others pd s s2" unfolding others_def
  proof (intro allI impI conjI)
    fix pd2 assume ok2: "pd_ok pd2 s" and dis: "pd_pages pd s \<inter> pd_pages pd2 s = {}"
    have ww: "\<forall>a \<in> pd_pages pd2 s. \<forall>j < 1024. read_word (slot a j) s2 = read_word (slot a j) s"
    proof (intro ballI allI impI)
      fix a and j :: nat assume that: "a \<in> pd_pages pd2 s" "j < 1024"
      have "own_page a s" by (rule pd_pages_own [OF ok2 that(1)])
      moreover have "a \<noteq> pd" using dis that(1) by (auto simp: pd_pages_def)
      ultimately show "read_word (slot a j) s2 = read_word (slot a j) s" using w [of a j] that(2) pta(3) by (auto simp: own_page_def)
    qed
    have "\<forall>a \<in> pd_pages pd2 s. own_page a s2" using own pd_pages_own [OF ok2] by blast
    note fr = pd_frame [OF ok2 this ww]
    show "pd_ok pd2 s2" "pd_pages pd2 s2 = pd_pages pd2 s" by (rule fr)+
    show "read_word (slot pd2 j) s2 = read_word (slot pd2 j) s" if "j < 1024" for j using ww that by (simp add: pd_pages_def)
    show "entry_for pd2 s2 va = entry_for pd2 s va" if "is_user_vaddr va" for va by (rule fr(4) [OF that])
    have "pd_pages pd s2 \<subseteq> insert pt (pd_pages pd s)" using t by (auto simp: pd_pages_def split: if_splits)
    moreover have "pt \<notin> pd_pages pd2 s" using pd_pages_own [OF ok2] pta(3) by blast
    ultimately show "pd_pages pd s2 \<inter> pd_pages pd2 s2 = {}" using dis unfolding fr(3) by blast
  qed
  show "entry_for pd s2 va = entry_for pd s va" if u: "is_user_vaddr va"
  proof (cases "unat (pd_no va) = i")
    case True
    then show ?thesis using t i w [OF pta(1) pt_index] ne by (simp add: entry_for_def)
  next
    case False
    note ui = user_index [OF u]
    show ?thesis
    proof (cases "tbl pd s (unat (pd_no va))")
      case None
      then show ?thesis using False t [OF ui] by (simp add: entry_for_def)
    next
      case (Some q)
      then have "own_page q s" "q \<noteq> pd" using pd_okD(3) [OF ok ui] by blast+
      then show ?thesis using Some False t [OF ui] w [of q, OF _ pt_index] pta(3) by (auto simp: entry_for_def own_page_def)
    qed
  qed
qed

end
