(* ===== verification/Kpagedir_Props.thy ===== *)
theory Kpagedir_Props
  imports Kpagedir
begin

text \<open>
  What the page directories of \<^verbatim>\<open>userprog/pagedir.c\<close> promise: a directory is a finite map from
  user pages to entries, an update changes one page of one directory, and every other directory
  keeps its tables and entries.
\<close>

section \<open>Writing an entry\<close>

definition same_page :: "ptr \<Rightarrow> ptr \<Rightarrow> bool" where
  "same_page va vb \<longleftrightarrow> pg_round_down va = pg_round_down vb"

lemma same_page_index: "same_page va vb \<longleftrightarrow> pd_no va = pd_no vb \<and> pt_no va = pt_no vb"
proof
  show "same_page va vb" if "pd_no va = pd_no vb \<and> pt_no va = pt_no vb"
    using that page_index_inj [of va vb] by (simp add: same_page_def)
  assume "same_page va vb"
  then have "unat (pg_round_down va) = unat (pg_round_down vb)" by (simp add: same_page_def)
  then have e: "unat va div 4096 = unat vb div 4096" by (simp add: unat_pg_round_down)
  have "unat (pd_no va) = unat (pd_no vb)"
    using arg_cong [OF e, of "\<lambda>n. n div 1024"] by (simp only: unat_pd_no div_mult2_eq [symmetric]) simp
  moreover have "unat (pt_no va) = unat (pt_no vb)" by (simp add: unat_pt_no e)
  ultimately show "pd_no va = pd_no vb \<and> pt_no va = pt_no vb" by (simp add: word_unat_eq_iff)
qed

lemma write_entry:
  fixes w :: u32
  assumes ok: "pd_ok pd s" and u: "is_user_vaddr va" and pt: "tbl pd s (unat (pd_no va)) = Some pt"
  defines "s2 \<equiv> write_word (slot pt (unat (pt_no va))) w s"
  shows "pd_ok pd s2" "others pd s s2" "pd_pages pd s2 = pd_pages pd s"
    "is_user_vaddr vb \<Longrightarrow> entry_for pd s2 vb = (if same_page vb va then w else entry_for pd s vb)"
    "tbl pd s2 (unat (pd_no va)) = Some pt"
proof -
  note ui = user_index [OF u] and own = pd_okD(3) [OF ok user_index [OF u] pt]
  have al: "pg_ofs pd = 0" "pg_ofs pt = 0" using own pd_okD(1) [OF ok] by (simp_all add: own_page_def)
  have rw: "read_word (slot a j) s2 = (if a = pt \<and> j = unat (pt_no va) then w else read_word (slot a j) s)"
    if "pg_ofs a = 0" "j < 1024" for a j
    using read_write_slot [OF that(1) al(2) that(2) pt_index] by (simp add: s2_def)
  have pdw: "read_word (slot pd j) s2 = read_word (slot pd j) s" if "j < 768" for j using rw [OF al(1), of j] own that by auto
  have t: "tbl pd s2 j = tbl pd s j" if "j < 768" for j using pdw [OF that] by (simp add: tbl_def)
  show "tbl pd s2 (unat (pd_no va)) = Some pt" using t [OF ui] pt by simp
  show pp: "pd_pages pd s2 = pd_pages pd s" using t by (auto simp: pd_pages_def)
  show "pd_ok pd s2" using ok pdw t unfolding pd_ok_def by (simp add: s2_def)
  show "others pd s s2" unfolding others_def
  proof (intro allI impI conjI)
    fix pd2 assume ok2: "pd_ok pd2 s" and dis: "pd_pages pd s \<inter> pd_pages pd2 s = {}"
    have "pt \<in> pd_pages pd s" using pt ui by (auto simp: pd_pages_def)
    then have ww: "\<forall>a \<in> pd_pages pd2 s. \<forall>j < 1024. read_word (slot a j) s2 = read_word (slot a j) s"
      using dis rw pd_pages_own [OF ok2] by (auto simp: own_page_def)
    have "\<forall>a \<in> pd_pages pd2 s. own_page a s2" using pd_pages_own [OF ok2] by (simp add: s2_def)
    note fr = pd_frame [OF ok2 this ww]
    show "pd_ok pd2 s2" "pd_pages pd2 s2 = pd_pages pd2 s" by (rule fr)+
    show "read_word (slot pd2 j) s2 = read_word (slot pd2 j) s" if "j < 1024" for j using ww that by (simp add: pd_pages_def)
    show "entry_for pd2 s2 vc = entry_for pd2 s vc" if "is_user_vaddr vc" for vc by (rule fr(4) [OF that])
    show "pd_pages pd s2 \<inter> pd_pages pd2 s2 = {}" using dis by (simp only: fr(3) pp)
  qed
  show "entry_for pd s2 vb = (if same_page vb va then w else entry_for pd s vb)" if b: "is_user_vaddr vb"
  proof (cases "tbl pd s (unat (pd_no vb))")
    case None
    then have "pd_no vb \<noteq> pd_no va" using pt by auto
    then show ?thesis using None t [OF user_index [OF b]] by (simp add: entry_for_def same_page_index)
  next
    case (Some q)
    have qa: "pg_ofs q = 0" using pd_okD(3) [OF ok user_index [OF b] Some] by (simp add: own_page_def)
    have "q = pt \<longleftrightarrow> pd_no vb = pd_no va"
      using pd_okD(4) [OF ok user_index [OF b] ui, of pt] Some pt by (auto simp: word_unat_eq_iff)
    then show ?thesis
      using Some t [OF user_index [OF b]] rw [OF qa pt_index, of vb] by (auto simp: entry_for_def same_page_index word_unat_eq_iff)
  qed
qed

lemma lookup_create:
  assumes ok: "vm_ok s" "pd_ok pd s" and u: "is_user_vaddr va"
  shows "\<exists>p s'. lookup_page pd va True s = okE (p, s') \<and> vm_ok s' \<and> pd_ok pd s' \<and> others pd s s' \<and> s' = s\<lparr>vp := vp s'\<rparr> \<and>
    (\<forall>vb. is_user_vaddr vb \<longrightarrow> entry_for pd s' vb = entry_for pd s vb) \<and>
    (if p = NULL then s' = s \<and> entry_for pd s va = 0
     else \<exists>pt. tbl pd s' (unat (pd_no va)) = Some pt \<and> p = slot pt (unat (pt_no va)) \<and> own_page pt s')"
proof (cases "tbl pd s (unat (pd_no va))")
  case (Some pt)
  have "own_page pt s" using pd_okD(3) [OF ok(2) user_index [OF u] Some] by simp
  moreover have "slot pt (unat (pt_no va)) \<noteq> NULL"
    using calculation slot_facts(3) [OF _ pt_index] by (auto simp: own_page_def)
  ultimately show ?thesis using lookup_existing(1) [OF ok(2) u Some, of True] ok Some by auto
next
  case None
  note ui = user_index [OF u]
  have z: "read_word (slot pd (unat (pd_no va))) s = 0" using pd_okD(2) [OF ok(2) ui] None by auto
  have nn: "pd \<noteq> NULL" using ok(2) by (simp add: pd_ok_def own_page_def)
  obtain pt p where g: "palloc_get_page PAL_ZERO (vp s) = okE (pt, p)" "if pt = NULL then p = vp s else fresh_table pt s (s\<lparr>vp := p\<rparr>)"
    using get_table [OF ok(1)] by blast
  show ?thesis
  proof (cases "pt = NULL")
    case True
    then have "lookup_page pd va True s = okE (NULL, s)" using z nn u g by (simp add: lookup_page_def Let_def)
    then show ?thesis using ok None by (auto simp: entry_for_def)
  next
    case False
    then have f: "fresh_table pt s (s\<lparr>vp := p\<rparr>)" using g(2) by simp
    then have pa: "pg_ofs pt = 0" "is_kernel_vaddr pt" by (simp_all add: fresh_table_def own_page_def)
    obtain e where e: "pde_create pt = Inr e" "e \<noteq> 0" "pde_get_pt e = Inr pt" using pde_get_pt_create [OF pa] by blast
    define s2 where "s2 = write_word (slot pd (unat (pd_no va))) e (s\<lparr>vp := p\<rparr>)"
    note at = add_table [OF ok(2) ui None f e, folded s2_def]
    have "read_word (slot pd (unat (pd_no va))) s2 = e" by (simp add: s2_def read_word_def write_word_def)
    then have "lookup_page pd va True s = okE (slot pt (unat (pt_no va)), s2)"
      using z nn u g(1) False e by (simp add: lookup_page_def Let_def s2_def)
    moreover have "own_page pt s2" using f by (simp add: s2_def fresh_table_def)
    moreover have "slot pt (unat (pt_no va)) \<noteq> NULL" using slot_facts(3) [OF pa(1) pt_index] False by simp
    moreover have "s2 = s\<lparr>vp := vp s2\<rparr>" by (simp add: s2_def write_word_def)
    ultimately show ?thesis using at by fastforce
  qed
qed

section \<open>The operations on the map\<close>

text \<open>
  A user directory that is well formed: its tables are pages of its own, every present entry
  denotes a frame, and it is neither the kernel's directory nor below the kernel's addresses.
\<close>

definition frames_ok :: "ptr \<Rightarrow> vm \<Rightarrow> bool" where
  "frames_ok pd s \<longleftrightarrow> (\<forall>va. is_user_vaddr va \<longrightarrow> entry_for pd s va AND PTE_P \<noteq> 0 \<longrightarrow> (\<exists>p. pte_get_page (entry_for pd s va) = Inr p))"

definition pd_wf :: "ptr \<Rightarrow> vm \<Rightarrow> bool" where
  "pd_wf pd s \<longleftrightarrow> vm_ok s \<and> pd_ok pd s \<and> frames_ok pd s \<and> is_kernel_vaddr pd \<and> pd \<noteq> base_page_dir s \<and> cr3 s < PHYS_BASE"

text \<open>
  The effect of an operation on one directory: its entries change as given, everything else about
  directories stays.
\<close>

definition pd_update :: "ptr \<Rightarrow> vm \<Rightarrow> vm \<Rightarrow> (ptr \<Rightarrow> u32 \<Rightarrow> u32) \<Rightarrow> bool" where
  "pd_update pd s s' f \<longleftrightarrow> pd_wf pd s' \<and> others pd s s' \<and> base_page_dir s' = base_page_dir s \<and>
     (\<forall>va. is_user_vaddr va \<longrightarrow> entry_for pd s' va = f va (entry_for pd s va))"

lemma tables_only [simp]:
  fixes s :: vm
  shows "read_word a (s\<lparr>frame_table := t\<rparr>) = read_word a s" "read_word a (s\<lparr>cr3 := c\<rparr>) = read_word a s"
    "own_page a (s\<lparr>frame_table := t\<rparr>) = own_page a s" "own_page a (s\<lparr>cr3 := c\<rparr>) = own_page a s"
    "vm_ok (s\<lparr>frame_table := t\<rparr>) = vm_ok s" "vm_ok (s\<lparr>cr3 := c\<rparr>) = vm_ok s"
  by (simp_all add: read_word_def own_page_def vm_ok_def)

lemma tbl_only [simp]:
  fixes s :: vm
  shows "tbl pd (s\<lparr>frame_table := t\<rparr>) = tbl pd s" "tbl pd (s\<lparr>cr3 := c\<rparr>) = tbl pd s"
  by (simp_all add: fun_eq_iff tbl_def)

lemma entries_only [simp]:
  fixes s :: vm
  shows "entry_for pd (s\<lparr>frame_table := t\<rparr>) = entry_for pd s" "entry_for pd (s\<lparr>cr3 := c\<rparr>) = entry_for pd s"
    "pd_ok pd (s\<lparr>frame_table := t\<rparr>) = pd_ok pd s" "pd_ok pd (s\<lparr>cr3 := c\<rparr>) = pd_ok pd s"
    "pd_pages pd (s\<lparr>frame_table := t\<rparr>) = pd_pages pd s" "pd_pages pd (s\<lparr>cr3 := c\<rparr>) = pd_pages pd s"
  by (simp_all add: fun_eq_iff entry_for_def pd_ok_def pd_pages_def cong: option.case_cong)

lemma others_only [simp]:
  "others pd s (s1\<lparr>frame_table := t\<rparr>) = others pd s s1" "others pd s (s1\<lparr>cr3 := c\<rparr>) = others pd s s1"
  by (simp_all add: others_def)

lemma pd_update_only [simp]:
  "pd_update pd s (s1\<lparr>frame_table := t\<rparr>) f = pd_update pd s s1 f"
  "cr3 s1 < PHYS_BASE \<Longrightarrow> c < PHYS_BASE \<Longrightarrow> pd_update pd s (s1\<lparr>cr3 := c\<rparr>) f = pd_update pd s s1 f"
  by (simp_all add: pd_update_def pd_wf_def frames_ok_def)

lemma pd_wfD:
  assumes "pd_wf pd s"
  shows "vm_ok s" "pd_ok pd s" "pd \<noteq> NULL" "is_kernel_vaddr pd" "cr3 s < PHYS_BASE" "pd \<noteq> base_page_dir s"
    "is_user_vaddr va \<Longrightarrow> entry_for pd s va AND PTE_P \<noteq> 0 \<Longrightarrow> \<exists>p. pte_get_page (entry_for pd s va) = Inr p"
  using assms pd_okD(1) [of pd s] by (auto simp: pd_wf_def frames_ok_def own_page_def)

lemma same_page_refl [simp]: "same_page va va"
  by (simp add: same_page_def)

lemma same_page_entry: "same_page va vb \<Longrightarrow> entry_for pd s va = entry_for pd s vb"
  by (simp add: same_page_index entry_for_def cong: option.case_cong)

lemma update_refl: "pd_wf pd s \<Longrightarrow> (\<And>va. is_user_vaddr va \<Longrightarrow> f va (entry_for pd s va) = entry_for pd s va) \<Longrightarrow> pd_update pd s s f"
  by (simp add: pd_update_def)

lemma update_entry:
  assumes wf: "pd_wf pd s" and u: "is_user_vaddr va" and pt: "tbl pd s (unat (pd_no va)) = Some pt"
    and w: "w AND PTE_P \<noteq> 0 \<Longrightarrow> \<exists>p. pte_get_page w = Inr p"
  shows "pd_update pd s (write_word (slot pt (unat (pt_no va))) w s) (\<lambda>vb e. if same_page vb va then w else e)"
proof -
  note we = write_entry [where w = w, OF pd_wfD(2) [OF wf] u pt]
  have "frames_ok pd (write_word (slot pt (unat (pt_no va))) w s)"
    unfolding frames_ok_def using we(4) w pd_wfD(7) [OF wf] by auto
  then show ?thesis using we wf by (simp add: pd_update_def pd_wf_def)
qed

text \<open>The slot of an entry, if its table exists.\<close>

lemma entry_slot:
  assumes "pd_wf pd s" "is_user_vaddr va" "tbl pd s (unat (pd_no va)) = Some pt"
  shows "slot pt (unat (pt_no va)) \<noteq> NULL" "read_word (slot pt (unat (pt_no va))) s = entry_for pd s va"
    "lookup_page pd va c s = okE (slot pt (unat (pt_no va)), s)"
proof -
  have "own_page pt s" using pd_okD(3) [OF pd_wfD(2) [OF assms(1)] user_index [OF assms(2)] assms(3)] by simp
  then show "slot pt (unat (pt_no va)) \<noteq> NULL" using slot_facts(3) [OF _ pt_index] by (auto simp: own_page_def)
  show "read_word (slot pt (unat (pt_no va))) s = entry_for pd s va" using assms(3) by (simp add: entry_for_def)
  show "lookup_page pd va c s = okE (slot pt (unat (pt_no va)), s)"
    by (rule lookup_existing(1) [OF pd_wfD(2) [OF assms(1)] assms(2,3)])
qed

lemma no_slot:
  assumes "pd_wf pd s" "is_user_vaddr va" "tbl pd s (unat (pd_no va)) = None"
  shows "entry_for pd s va = 0" "lookup_page pd va False s = okE (NULL, s)"
  using assms(3) lookup_existing(2) [OF pd_wfD(2) [OF assms(1)] assms(2)] by (simp_all add: entry_for_def)

lemma set_page_result:
  assumes wf: "pd_wf pd s" and u: "pg_ofs upage = 0" "is_user_vaddr upage"
    and k: "pg_ofs kpage = 0" "is_kernel_vaddr kpage" "drop_bit PTSHIFT (kpage - PHYS_BASE) < ram_pages s"
    and free: "entry_for pd s upage AND PTE_P = 0"
  shows "\<exists>r s' e. pagedir_set_page pd upage kpage writable s = okE (r, s') \<and> pte_create_user kpage writable = Inr e \<and>
    pd_update pd s s' (\<lambda>va e0. if r \<and> same_page va upage then e else e0)"
proof -
  note ok = pd_wfD [OF wf]
  obtain p s1 where l: "lookup_page pd upage True s = okE (p, s1)" and l1: "vm_ok s1" "pd_ok pd s1" "others pd s s1"
    and v1: "s1 = s\<lparr>vp := vp s1\<rparr>" and e1: "\<forall>vb. is_user_vaddr vb \<longrightarrow> entry_for pd s1 vb = entry_for pd s vb"
    and c: "if p = NULL then s1 = s \<and> entry_for pd s upage = 0
      else \<exists>pt. tbl pd s1 (unat (pd_no upage)) = Some pt \<and> p = slot pt (unat (pt_no upage)) \<and> own_page pt s1"
    using lookup_create [OF ok(1,2) u(2)] by (elim exE conjE)
  have v: "vtop kpage = Inr (kpage - PHYS_BASE)" using k(2) by (simp add: vtop_def)
  obtain e where e: "pte_create_user kpage writable = Inr e" "pte_get_page e = Inr kpage"
    using pte_get_page_create [OF k(1,2), of writable] by blast
  show ?thesis
  proof (cases "p = NULL")
    case True
    then have "pagedir_set_page pd upage kpage writable s = okE (False, s)"
      using u k ok(6) v l c by (simp add: pagedir_set_page_def)
    moreover have "pd_update pd s s (\<lambda>va e0. if False \<and> same_page va upage then e else e0)" by (simp add: update_refl [OF wf])
    ultimately show ?thesis using e(1) by blast
  next
    case False
    then obtain pt where pt: "tbl pd s1 (unat (pd_no upage)) = Some pt" "p = slot pt (unat (pt_no upage))" using c by auto
    have f1: "base_page_dir s1 = base_page_dir s" "cr3 s1 = cr3 s" by (subst v1, simp)+
    have wf1: "pd_wf pd s1" using wf l1 e1 f1 by (simp add: pd_wf_def frames_ok_def)
    note sl = entry_slot(2) [OF wf1 u(2) pt(1), folded pt(2)]
    have "read_word p s1 AND PTE_P = 0" using e1 u(2) free sl by simp
    then have r: "pagedir_set_page pd upage kpage writable s = okE (True, frame_entry_set_pte upage kpage p (write_word p e s1))"
      using u k ok(6) v l False e(1) by (simp add: pagedir_set_page_def)
    have "pd_update pd s1 (write_word p e s1) (\<lambda>va e0. if same_page va upage then e else e0)"
      using update_entry [OF wf1 u(2) pt(1), of e] e(2) pt(2) by simp
    then have "pd_update pd s (write_word p e s1) (\<lambda>va e0. if same_page va upage then e else e0)"
      using others_trans [OF l1(3), of "write_word p e s1"] e1 f1(1) by (simp add: pd_update_def)
    then have "pd_update pd s (frame_entry_set_pte upage kpage p (write_word p e s1)) (\<lambda>va e0. if True \<and> same_page va upage then e else e0)"
      by (simp add: frame_entry_set_pte_def)
    then show ?thesis using r e(1) by blast
  qed
qed

lemma get_page_result:
  assumes wf: "pd_wf pd s" and u: "is_user_vaddr va"
  shows "\<exists>p. pte_get_page (entry_for pd s va) = Inr p \<or> entry_for pd s va AND PTE_P = 0"
    "pagedir_get_page pd va s =
      (if entry_for pd s va AND PTE_P = 0 then okE (NULL, s)
       else bindE (Some (pte_get_page (entry_for pd s va))) (\<lambda>p. okE (p + pg_ofs va, s)))"
proof -
  show "\<exists>p. pte_get_page (entry_for pd s va) = Inr p \<or> entry_for pd s va AND PTE_P = 0" using pd_wfD(7) [OF wf u] by blast
  show "pagedir_get_page pd va s =
      (if entry_for pd s va AND PTE_P = 0 then okE (NULL, s)
       else bindE (Some (pte_get_page (entry_for pd s va))) (\<lambda>p. okE (p + pg_ofs va, s)))"
  proof (cases "tbl pd s (unat (pd_no va))")
    case None
    then show ?thesis using no_slot [OF wf u] u by (simp add: pagedir_get_page_def)
  next
    case (Some pt)
    then show ?thesis using entry_slot [OF wf u Some] u by (simp add: pagedir_get_page_def)
  qed
qed

lemma invalidate_result:
  assumes "cr3 s < PHYS_BASE" "is_kernel_vaddr pd" "pd \<noteq> NULL"
  shows "\<exists>c < PHYS_BASE. invalidate_pagedir pd s = Inr (s\<lparr>cr3 := c\<rparr>)"
proof (cases "cr3 s + PHYS_BASE = pd")
  case True
  have "unat pd < 2 ^ 32" "unat (pd - PHYS_BASE) = unat pd - unat PHYS_BASE"
    using unat_lt2p [of pd] assms(2) by (simp_all add: is_kernel_vaddr_def unat_sub)
  then have "pd - PHYS_BASE < PHYS_BASE" by (simp add: word_less_nat_alt PHYS_BASE_def)
  then show ?thesis using assms True by (auto simp: invalidate_pagedir_def active_pd_def ptov_def pagedir_activate_def vtop_def)
next
  case False
  then have "invalidate_pagedir pd s = Inr (s\<lparr>cr3 := cr3 s\<rparr>)" using assms by (simp add: invalidate_pagedir_def active_pd_def ptov_def)
  then show ?thesis using assms(1) by blast
qed

text \<open>An entry changed and, where the code asks for it, the directory reloaded.\<close>

lemma flush_entry:
  assumes wf: "pd_wf pd s" and u: "is_user_vaddr va" and pt: "tbl pd s (unat (pd_no va)) = Some pt"
    and w: "w AND PTE_P \<noteq> 0 \<Longrightarrow> \<exists>p. pte_get_page w = Inr p"
  shows "\<exists>s'. invalidate_pagedir pd (write_word (slot pt (unat (pt_no va))) w s) = Inr s' \<and>
    pd_update pd s s' (\<lambda>vb e. if same_page vb va then w else e)"
proof -
  obtain c where "c < PHYS_BASE" "invalidate_pagedir pd (write_word (slot pt (unat (pt_no va))) w s) =
      Inr ((write_word (slot pt (unat (pt_no va))) w s)\<lparr>cr3 := c\<rparr>)"
    using invalidate_result [of "write_word (slot pt (unat (pt_no va))) w s" pd] pd_wfD(3-5) [OF wf] by auto
  then show ?thesis using update_entry [OF assms] pd_wfD(5) [OF wf] by auto
qed

lemma clear_page_result:
  assumes wf: "pd_wf pd s" and u: "pg_ofs upage = 0" "is_user_vaddr upage"
  shows "\<exists>s'. pagedir_clear_page pd upage s = okE s' \<and>
    pd_update pd s s' (\<lambda>va e. if same_page va upage then e AND NOT PTE_P else e)"
proof (cases "tbl pd s (unat (pd_no upage))")
  case None
  note n = no_slot [OF wf u(2) None]
  have "pd_update pd s s (\<lambda>va e. if same_page va upage then e AND NOT PTE_P else e)"
    using update_refl [OF wf] same_page_entry [of _ upage pd s] n(1) by simp
  then show ?thesis using n(2) u by (simp add: pagedir_clear_page_def)
next
  case (Some pt)
  note sl = entry_slot [OF wf u(2) Some]
  have z: "(e AND NOT PTE_P) AND PTE_P = 0" for e :: u32 by (simp add: PTE_P_def and.assoc)
  have eq: "(\<lambda>va e. if same_page va upage then entry_for pd s upage AND NOT PTE_P else e) va (entry_for pd s va) =
    (\<lambda>va e. if same_page va upage then e AND NOT PTE_P else e) va (entry_for pd s va)" for va
    using same_page_entry [of va upage pd s] by simp
  show ?thesis
  proof (cases "entry_for pd s upage AND PTE_P = 0")
    case True
    then have "\<not> bit (entry_for pd s upage) 0" using flag_bits(1) by blast
    then have "entry_for pd s upage AND NOT PTE_P = entry_for pd s upage"
      by (intro bit_word_eqI) (auto simp: bit_simps flag_masks intro!: gr0I)
    then have "entry_for pd s va AND NOT PTE_P = entry_for pd s va" if "same_page va upage" for va
      using same_page_entry [OF that, of pd s] by simp
    then have "pd_update pd s s (\<lambda>va e. if same_page va upage then e AND NOT PTE_P else e)"
      by (intro update_refl [OF wf]) simp
    then show ?thesis using True sl u by (auto simp: pagedir_clear_page_def)
  next
    case False
    obtain s' where s': "invalidate_pagedir pd (write_word (slot pt (unat (pt_no upage))) (entry_for pd s upage AND NOT PTE_P) s) = Inr s'"
      "pd_update pd s s' (\<lambda>va e. if same_page va upage then entry_for pd s upage AND NOT PTE_P else e)"
      using flush_entry [OF wf u(2) Some, of "entry_for pd s upage AND NOT PTE_P"] z by auto
    then have "pagedir_clear_page pd upage s = okE s'" using False sl u by (simp add: pagedir_clear_page_def)
    then show ?thesis using s'(2) eq by (auto simp: pd_update_def)
  qed
qed

lemma set_flag_result:
  assumes wf: "pd_wf pd s" and u: "is_user_vaddr va" and f: "flag AND PTE_ADDR = 0" "flag AND PTE_P = 0"
  shows "\<exists>s'. set_flag flag pd va v s = okE s' \<and>
    pd_update pd s s' (\<lambda>vb e. if same_page vb va \<and> tbl pd s (unat (pd_no va)) \<noteq> None
      then if v then e OR flag else e AND NOT flag else e)"
proof (cases "tbl pd s (unat (pd_no va))")
  case None
  then show ?thesis using no_slot(2) [OF wf u None] update_refl [OF wf] by (auto simp: set_flag_def)
next
  case (Some pt)
  note sl = entry_slot [OF wf u Some]
  define w where "w = (if v then entry_for pd s va OR flag else entry_for pd s va AND NOT flag)"
  have "\<not> bit flag 0" using f(2) flag_bits(1) [of flag] by blast
  then have "w AND PTE_P \<noteq> 0 \<longleftrightarrow> entry_for pd s va AND PTE_P \<noteq> 0"
    unfolding flag_bits(1) w_def by (auto simp: bit_or_iff bit_and_iff bit_not_iff)
  moreover have "pte_get_page w = pte_get_page (entry_for pd s va)" using present_flag_address [OF f(1)] by (simp add: w_def)
  ultimately have w: "w AND PTE_P \<noteq> 0 \<Longrightarrow> \<exists>p. pte_get_page w = Inr p" using pd_wfD(7) [OF wf u] by simp
  obtain s' where s': "set_flag flag pd va v s = okE s'" "pd_update pd s s' (\<lambda>vb e. if same_page vb va then w else e)"
  proof (cases v)
    case True
    then have "set_flag flag pd va v s = okE (write_word (slot pt (unat (pt_no va))) w s)" using sl by (simp add: set_flag_def w_def)
    then show ?thesis using that update_entry [OF wf u Some w] by blast
  next
    case False
    then have "set_flag flag pd va v s = Some (invalidate_pagedir pd (write_word (slot pt (unat (pt_no va))) w s))"
      using sl by (simp add: set_flag_def w_def)
    then show ?thesis using that flush_entry [OF wf u Some w] by auto
  qed
  have "(if same_page vb va then w else entry_for pd s vb) = (if same_page vb va
      then if v then entry_for pd s vb OR flag else entry_for pd s vb AND NOT flag else entry_for pd s vb)" for vb
    using same_page_entry [of vb va pd s] by (simp add: w_def)
  then have "pd_update pd s s' (\<lambda>vb e. if same_page vb va then if v then e OR flag else e AND NOT flag else e)"
    using s'(2) by (simp add: pd_update_def)
  then show ?thesis using s'(1) Some by auto
qed

lemma test_flag_result:
  assumes "pd_wf pd s" "is_user_vaddr va"
  shows "test_flag flag pd va s = okE (entry_for pd s va AND flag \<noteq> 0, s)"
  using no_slot [OF assms] entry_slot [OF assms]
  by (cases "tbl pd s (unat (pd_no va))") (simp_all add: test_flag_def)

section \<open>New directories\<close>

text \<open>Nothing about one directory changes when another one does.\<close>

definition kept :: "ptr \<Rightarrow> vm \<Rightarrow> vm \<Rightarrow> ptr \<Rightarrow> bool" where
  "kept pd s s' pd2 \<longleftrightarrow> pd_ok pd2 s' \<and> pd_pages pd s' \<inter> pd_pages pd2 s' = {} \<and> pd_pages pd2 s' = pd_pages pd2 s \<and>
     (\<forall>i < 1024. read_word (slot pd2 i) s' = read_word (slot pd2 i) s) \<and> (\<forall>va. is_user_vaddr va \<longrightarrow> entry_for pd2 s' va = entry_for pd2 s va)"

lemma keptI: "others pd s s' \<Longrightarrow> pd_ok pd2 s \<Longrightarrow> pd_pages pd s \<inter> pd_pages pd2 s = {} \<Longrightarrow> kept pd s s' pd2"
  using othersD [of pd s s' pd2] unfolding kept_def by blast

lemma block_page: "pg_ofs p = 0 \<Longrightarrow> in_block x p PGSIZE \<Longrightarrow> pg_round_down x = p"
proof -
  assume p: "pg_ofs p = 0" and x: "in_block x p PGSIZE"
  have k: "unat (x - p) < 4096" using x by (simp add: in_block_def word_less_nat_alt PGSIZE_eq)
  have "unat (p + (x - p)) = unat p + unat (x - p)"
    using page_no_bound [OF p] k by (intro unat_add_lem [THEN iffD1]) simp
  then show ?thesis using in_page(1) [OF p _ k, of x] by simp
qed

lemma pages_apart: "pg_ofs p = 0 \<Longrightarrow> pg_ofs q = 0 \<Longrightarrow> p \<noteq> q \<Longrightarrow> disjoint_blocks p q PGSIZE"
  using block_page by (auto simp: disjoint_blocks_def)

text \<open>The kernel's own directory, which maps no user page.\<close>

definition base_ok :: "vm \<Rightarrow> bool" where
  "base_ok s \<longleftrightarrow> own_page (base_page_dir s) s \<and> (\<forall>i < 768. read_word (slot (base_page_dir s) i) s = 0)"

lemma copied_words:
  assumes "pg_ofs a = 0" "i < 1024" "pg_ofs p = 0"
  shows "word_at (\<lambda>x. if in_block x p PGSIZE then m (b + (x - p)) else m x) (slot a i) =
    word_at m (if a = p then slot b i else slot a i)"
proof (cases "a = p")
  case True
  note ib = slot_in_block [OF assms(3,2,3)]
  have "word_at (\<lambda>x. if in_block x p PGSIZE then m (b + (x - p)) else m x) (slot p i) = word_at m (slot b i)"
    using ib [of 0] ib [of 1] ib [of 2] ib [of 3] by (simp add: word_at_def algebra_simps)
  then show ?thesis using True by simp
next
  case False
  then show ?thesis using slot_in_block [OF assms] by (auto intro!: word_at_cong)
qed


text \<open>
  A directory on a page nobody owns, copied from the kernel's: it has no user entries, and it is
  apart from every other directory.
\<close>

lemma fresh_directory:
  assumes b: "base_ok s" and pd: "pg_ofs pd = 0" "\<not> own_page pd s" "own_page pd s2"
    and own: "\<forall>a. own_page a s \<longrightarrow> own_page a s2" and bs: "base_page_dir s2 = base_page_dir s"
    and w: "\<forall>a i. pg_ofs a = 0 \<and> i < 1024 \<longrightarrow> read_word (slot a i) s2 = read_word (if a = pd then slot (base_page_dir s) i else slot a i) s"
  shows "base_ok s2" "pd_ok pd s2" "is_user_vaddr va \<Longrightarrow> entry_for pd s2 va = 0" "pd_ok pd2 s \<Longrightarrow> kept pd s s2 pd2"
proof -
  have bo: "own_page (base_page_dir s) s" "pg_ofs (base_page_dir s) = 0" using b by (simp_all add: base_ok_def own_page_def)
  have ne: "pd \<noteq> base_page_dir s" using bo(1) pd(2) by blast
  have z: "read_word (slot pd i) s2 = 0" if "i < 768" for i using w pd(1) that b by (simp add: base_ok_def)
  have t: "tbl pd s2 i = None" if "i < 768" for i using z [OF that] by (rule tbl_zero)
  show "pd_ok pd s2" using pd(3) z t by (simp add: pd_ok_def)
  have pp: "pd_pages pd s2 = {pd}" using t by (auto simp: pd_pages_def)
  show "entry_for pd s2 va = 0" if "is_user_vaddr va" for va using t [OF user_index [OF that]] by (simp add: entry_for_def)
  show "base_ok s2" using b own w bo(2) ne by (simp add: base_ok_def bs)
  show "kept pd s s2 pd2" if o2: "pd_ok pd2 s" for pd2
  proof -
    have ww: "\<forall>a \<in> pd_pages pd2 s. \<forall>i < 1024. read_word (slot a i) s2 = read_word (slot a i) s"
    proof (intro ballI allI impI)
      fix a and i :: nat assume a: "a \<in> pd_pages pd2 s" "i < 1024"
      have "own_page a s" by (rule pd_pages_own [OF o2 a(1)])
      then show "read_word (slot a i) s2 = read_word (slot a i) s" using w a(2) pd(2) by (auto simp: own_page_def)
    qed
    have "\<forall>a \<in> pd_pages pd2 s. own_page a s2" using own pd_pages_own [OF o2] by blast
    note fr = pd_frame [OF o2 this ww]
    have "pd2 \<in> pd_pages pd2 s" by (simp add: pd_pages_def)
    then have "\<forall>i < 1024. read_word (slot pd2 i) s2 = read_word (slot pd2 i) s" using ww by blast
    moreover have "pd \<notin> pd_pages pd2 s" using pd_pages_own [OF o2] pd(2) by blast
    ultimately show ?thesis using fr(2-4) pp by (simp add: kept_def)
  qed
qed

lemma pagedir_create_result:
  assumes ok: "vm_ok s" and b: "base_ok s" and c: "cr3 s < PHYS_BASE"
  shows "\<exists>pd s'. pagedir_create s = okE (pd, s') \<and>
    (if pd = NULL then s' = s
     else pd_wf pd s' \<and> base_page_dir s' = base_page_dir s \<and> (\<forall>pd2. pd_ok pd2 s \<longrightarrow> pd \<noteq> pd2 \<and> kept pd s s' pd2) \<and>
       (\<forall>va. is_user_vaddr va \<longrightarrow> entry_for pd s' va = 0))"
proof -
  have pk: "pages_ok (vp s)" using ok by (simp add: vm_ok_def)
  have one: "(0 :: u32) < 1" by simp
  have nu: "False = ((0 :: u32) AND PAL_USER \<noteq> 0)" by simp
  obtain pd p where g: "palloc_get_multiple 0 1 (vp s) = okE (pd, p)" "pages_ok p"
    and d: "if pd = NULL then p = vp s \<and> (\<forall>k. {k..<k + unat (1 :: u32)} \<subseteq> pool_pages (pool_of False (vp s)) \<longrightarrow>
        {k..<k + unat (1 :: u32)} \<inter> pages_used (vp s) \<noteq> {})
      else pg_ofs pd = 0 \<and> page_range pd 1 \<subseteq> pool_pages (pool_of False (vp s)) \<and> page_range pd 1 \<inter> pages_used (vp s) = {} \<and>
        pages_used p = pages_used (vp s) \<union> page_range pd 1 \<and>
        pmem p = (\<lambda>x. if 0 AND PAL_ZERO \<noteq> 0 \<and> in_block x pd (PGSIZE * 1) then 0 else pmem (vp s) x)"
    using get_multiple_result [OF pk one nu] by (elim exE conjE)
  show ?thesis
  proof (cases "pd = NULL")
    case True
    then show ?thesis using g(1) d by (auto simp: pagedir_create_def palloc_get_page_def)
  next
    case False
    then have f: "pg_ofs pd = 0" "unat (pg_no pd) \<in> pool_pages (kernel_pool (vp s))" "unat (pg_no pd) \<notin> pages_used (vp s)"
        "pages_used p = insert (unat (pg_no pd)) (pages_used (vp s))" "pmem p = pmem (vp s)"
      using d by (auto simp: page_range_def pool_of_def)
    have bo: "pg_ofs (base_page_dir s) = 0" "base_page_dir s \<noteq> NULL" "pd \<noteq> base_page_dir s"
      using b f(3) by (auto simp: base_ok_def own_page_def)
    define s2 where "s2 = s\<lparr>vp := p\<lparr>pmem := (\<lambda>x. if in_block x pd PGSIZE then pmem (vp s) (base_page_dir s + (x - pd)) else pmem (vp s) x)\<rparr>\<rparr>"
    have cr: "pagedir_create s = okE (pd, s2)"
      using g(1) False memcpy_bytes [OF False bo(2) pages_apart [OF f(1) bo(1,3)], of "pmem (vp s)"]
      by (simp add: pagedir_create_def palloc_get_page_def s2_def f(5))
    have v: "vm_ok s2" using ok g(2) get_multiple_pools [OF pk g(1), of False]
      by (simp add: vm_ok_def pool_of_def s2_def pages_ok_def)
    have "0xc0000 \<le> unat (pg_no pd)" using ok f(2) by (simp add: vm_ok_def)
    then have k: "is_kernel_vaddr pd"
      using base_address [OF f(1)] by (simp add: is_kernel_vaddr_def PHYS_BASE_def word_le_nat_alt)
    have w: "\<forall>a i. pg_ofs a = 0 \<and> i < 1024 \<longrightarrow> read_word (slot a i) s2 = read_word (if a = pd then slot (base_page_dir s) i else slot a i) s"
      using copied_words [OF _ _ f(1)] by (simp add: read_word_def s2_def)
    have pu: "pages_used (vp s2) = insert (unat (pg_no pd)) (pages_used (vp s))" using f(4) by (simp add: s2_def pages_used_def)
    have own: "\<forall>a. own_page a s \<longrightarrow> own_page a s2" "own_page pd s2" "\<not> own_page pd s"
      using f(1,3) False pu by (auto simp: own_page_def)
    have bs: "base_page_dir s2 = base_page_dir s" "cr3 s2 = cr3 s" by (simp_all add: s2_def)
    note fd = fresh_directory [OF b f(1) own(3,2,1) bs(1) w]
    have "pd_wf pd s2" using v fd k bo(3) bs c by (simp add: pd_wf_def frames_ok_def)
    moreover have "pd \<noteq> pd2 \<and> kept pd s s2 pd2" if "pd_ok pd2 s" for pd2 using fd(4) [OF that] pd_okD(1) [OF that] own(3) by auto
    ultimately show ?thesis using cr False fd(3) bs(1) by auto
  qed
qed

section \<open>The directories of all processes\<close>

text \<open>
  The operations of the file that other parts of the kernel call, as steps on the set of user
  directories in existence. Destroying a directory is not one of them.
\<close>

inductive pd_step :: "ptr set \<Rightarrow> vm \<Rightarrow> ptr set \<Rightarrow> vm \<Rightarrow> bool" where
  Create: "pagedir_create s = okE (pd, s') \<Longrightarrow> D' = (if pd = NULL then D else insert pd D) \<Longrightarrow> pd_step D s D' s'"
| Set_page: "pd \<in> D \<Longrightarrow> pagedir_set_page pd upage kpage w s = okE (r, s') \<Longrightarrow> pd_step D s D s'"
| Clear_page: "pd \<in> D \<Longrightarrow> pagedir_clear_page pd upage s = okE s' \<Longrightarrow> pd_step D s D s'"
| Set_flag: "pd \<in> D \<Longrightarrow> is_user_vaddr va \<Longrightarrow>
    s' \<in> {t. pagedir_set_dirty pd va v s = okE t \<or> pagedir_set_accessed pd va v s = okE t \<or> pagedir_set_rw pd va v s = okE t} \<Longrightarrow>
    pd_step D s D s'"

definition spaces_ok :: "ptr set \<Rightarrow> vm \<Rightarrow> bool" where
  "spaces_ok D s \<longleftrightarrow> vm_ok s \<and> base_ok s \<and> cr3 s < PHYS_BASE \<and> (\<forall>pd \<in> D. pd_wf pd s) \<and>
     (\<forall>pd \<in> insert (base_page_dir s) D. \<forall>pd2 \<in> insert (base_page_dir s) D. pd \<noteq> pd2 \<longrightarrow> pd_pages pd s \<inter> pd_pages pd2 s = {})"

lemma base_directory:
  assumes "base_ok s"
  shows "pd_ok (base_page_dir s) s" "pd_pages (base_page_dir s) s = {base_page_dir s}"
  using assms tbl_zero [of "base_page_dir s" _ s] by (auto simp: base_ok_def pd_ok_def pd_pages_def)

text \<open>An operation on one directory keeps all of them.\<close>

lemma spaces_change:
  assumes sp: "spaces_ok D s" and pd: "pd_wf pd s'" and b: "base_page_dir s' = base_page_dir s"
    and k: "\<forall>a \<in> insert (base_page_dir s) D. a \<noteq> pd \<longrightarrow> kept pd s s' a"
  shows "spaces_ok (insert pd D) s'"
proof -
  have keep: "pd_ok a s'" "pd_pages pd s' \<inter> pd_pages a s' = {}" "pd_pages a s' = pd_pages a s"
      "\<forall>i < 1024. read_word (slot a i) s' = read_word (slot a i) s" "\<forall>va. is_user_vaddr va \<longrightarrow> entry_for a s' va = entry_for a s va"
    if "a \<in> insert (base_page_dir s) D" "a \<noteq> pd" for a
    using k that unfolding kept_def by blast+
  have wf: "pd_wf a s" if "a \<in> D" for a using sp that unfolding spaces_ok_def by blast
  have "pd_wf a s'" if "a \<in> insert pd D" for a
  proof (cases "a = pd")
    case False
    then have a: "a \<in> D" using that by simp
    have "frames_ok a s'" using keep(5) [of a] a False pd_wfD(7) [OF wf [OF a]] by (simp add: frames_ok_def)
    then show ?thesis using keep(1) [of a] a False pd wf [OF a] b by (simp add: pd_wf_def)
  qed (use pd in simp)
  moreover have "base_ok s'"
  proof -
    have "base_page_dir s \<noteq> pd" using pd_wfD(6) [OF pd] b by simp
    note k = keep(1,4) [OF insertI1 this]
    show ?thesis using k(2) pd_okD(1) [OF k(1)] sp by (simp add: base_ok_def b spaces_ok_def)
  qed
  moreover have "pd_pages x s' \<inter> pd_pages y s' = {}"
    if "x \<in> insert (base_page_dir s) (insert pd D)" "y \<in> insert (base_page_dir s) (insert pd D)" "x \<noteq> y" for x y
  proof -
    consider "x = pd" | "y = pd" | "x \<noteq> pd" "y \<noteq> pd" by blast
    then show ?thesis
    proof cases
      case 3
      then have "pd_pages x s \<inter> pd_pages y s = {}" using sp that unfolding spaces_ok_def by blast
      then show ?thesis using keep(3) [of x] keep(3) [of y] 3 that by auto
    qed (use keep(2) [of x] keep(2) [of y] that in \<open>auto simp: Int_commute\<close>)
  qed
  ultimately show ?thesis using pd_wfD(1,5) [OF pd] b unfolding spaces_ok_def by blast
qed

lemma spaces_member:
  assumes "spaces_ok D s" "pd \<in> insert (base_page_dir s) D"
  shows "pd_ok pd s"
  using assms base_directory(1) [of s] pd_wfD(2) [of pd s] by (auto simp: spaces_ok_def)

lemma spaces_update:
  assumes sp: "spaces_ok D s" and pd: "pd \<in> D" and up: "pd_update pd s s' f"
  shows "spaces_ok D s'" "pd2 \<in> insert (base_page_dir s) D \<Longrightarrow> pd2 \<noteq> pd \<Longrightarrow> kept pd s s' pd2"
proof -
  have u: "pd_wf pd s'" "others pd s s'" "base_page_dir s' = base_page_dir s" using up by (simp_all add: pd_update_def)
  show k: "kept pd s s' pd2" if "pd2 \<in> insert (base_page_dir s) D" "pd2 \<noteq> pd" for pd2
    by (rule keptI [OF u(2) spaces_member [OF sp that(1)]]) (use sp pd that in \<open>unfold spaces_ok_def, blast\<close>)
  have "spaces_ok (insert pd D) s'" by (rule spaces_change [OF sp u(1,3)]) (use k in blast)
  then show "spaces_ok D s'" using pd by (simp add: insert_absorb)
qed

lemma spaces_create:
  assumes sp: "spaces_ok D s" and c: "pagedir_create s = okE (pd, s')"
  shows "spaces_ok (if pd = NULL then D else insert pd D) s'"
    "pd2 \<in> insert (base_page_dir s) D \<Longrightarrow> kept pd s s' pd2 \<or> s' = s"
proof -
  have bo: "vm_ok s" "base_ok s" "cr3 s < PHYS_BASE" using sp by (simp_all add: spaces_ok_def)
  have r: "if pd = NULL then s' = s
     else pd_wf pd s' \<and> base_page_dir s' = base_page_dir s \<and> (\<forall>pd2. pd_ok pd2 s \<longrightarrow> pd \<noteq> pd2 \<and> kept pd s s' pd2) \<and>
       (\<forall>va. is_user_vaddr va \<longrightarrow> entry_for pd s' va = 0)"
    using pagedir_create_result [OF bo] c by auto
  show k: "kept pd s s' pd2 \<or> s' = s" if "pd2 \<in> insert (base_page_dir s) D" for pd2
    using r spaces_member [OF sp that] by (auto split: if_splits)
  show "spaces_ok (if pd = NULL then D else insert pd D) s'"
  proof (cases "pd = NULL")
    case False
    then have "spaces_ok (insert pd D) s'"
      using r spaces_member [OF sp] by (intro spaces_change [OF sp]) auto
    then show ?thesis using False by simp
  qed (use r sp in simp)
qed

lemma set_page_checks:
  assumes wf: "pd_wf pd s" and r: "pagedir_set_page pd upage kpage w s = okE (r, s')"
  shows "pg_ofs upage = 0" "is_user_vaddr upage" "pg_ofs kpage = 0" "is_kernel_vaddr kpage"
    "drop_bit PTSHIFT (kpage - PHYS_BASE) < ram_pages s" "entry_for pd s upage AND PTE_P = 0"
proof -
  show a: "pg_ofs upage = 0" "is_user_vaddr upage" "pg_ofs kpage = 0" "is_kernel_vaddr kpage"
    "drop_bit PTSHIFT (kpage - PHYS_BASE) < ram_pages s"
    using r by (auto simp: pagedir_set_page_def requireE_def require_def vtop_def bindE_def bindR_def split: if_splits)
  note ok = pd_wfD [OF wf]
  obtain p s1 where l: "lookup_page pd upage True s = okE (p, s1)" and e1: "\<forall>vb. is_user_vaddr vb \<longrightarrow> entry_for pd s1 vb = entry_for pd s vb"
    and c: "if p = NULL then s1 = s \<and> entry_for pd s upage = 0
      else \<exists>pt. tbl pd s1 (unat (pd_no upage)) = Some pt \<and> p = slot pt (unat (pt_no upage)) \<and> own_page pt s1"
    using lookup_create [OF ok(1,2) a(2)] by (elim exE conjE)
  show "entry_for pd s upage AND PTE_P = 0"
  proof (cases "p = NULL")
    case False
    then have "read_word p s1 AND PTE_P = 0" using r l by (auto simp: pagedir_set_page_def)
    moreover have "read_word p s1 = entry_for pd s1 upage" using c False by (auto simp: entry_for_def)
    ultimately show ?thesis using e1 a(2) by simp
  qed (use c in simp)
qed

lemma flag_words:
  "PTE_D AND PTE_ADDR = 0" "PTE_D AND PTE_P = 0" "PTE_W AND PTE_ADDR = 0" "PTE_W AND PTE_P = 0"
  "PTE_A AND PTE_ADDR = 0" "PTE_A AND PTE_P = 0"
  by (simp_all add: PTE_D_def PTE_W_def PTE_A_def PTE_P_def PTE_ADDR_def)

lemma step_effect:
  assumes sp: "spaces_ok D s" and st: "pd_step D s D' s'"
  shows "spaces_ok D' s' \<and> (\<exists>pd. \<forall>pd2 \<in> insert (base_page_dir s) D. pd2 \<noteq> pd \<longrightarrow> s' = s \<or> kept pd s s' pd2)"
  using st
proof cases
  case (Create pd)
  then show ?thesis using spaces_create [OF sp Create(1)] by auto
next
  case (Set_page pd upage kpage w r)
  have wf: "pd_wf pd s" using sp Set_page(2) by (simp add: spaces_ok_def)
  note ck = set_page_checks [OF wf Set_page(3)]
  obtain e where "pd_update pd s s' (\<lambda>va e0. if r \<and> same_page va upage then e else e0)"
    using set_page_result [OF wf ck, of w] Set_page(3) by auto
  from spaces_update [OF sp Set_page(2) this] show ?thesis using Set_page(1) by blast
next
  case (Clear_page pd upage)
  have wf: "pd_wf pd s" using sp Clear_page(2) by (simp add: spaces_ok_def)
  have "pg_ofs upage = 0" "is_user_vaddr upage" using Clear_page(3) by (simp_all add: pagedir_clear_page_def)
  from clear_page_result [OF wf this]
  have "pd_update pd s s' (\<lambda>va e. if same_page va upage then e AND NOT PTE_P else e)" using Clear_page(3) by auto
  from spaces_update [OF sp Clear_page(2) this] show ?thesis using Clear_page(1) by blast
next
  case (Set_flag pd va v)
  have wf: "pd_wf pd s" using sp Set_flag(2) by (simp add: spaces_ok_def)
  obtain flag where f: "set_flag flag pd va v s = okE s'" "flag AND PTE_ADDR = 0" "flag AND PTE_P = 0"
    using Set_flag(4) flag_words unfolding pagedir_set_dirty_def pagedir_set_accessed_def pagedir_set_rw_def by blast
  obtain g where "pd_update pd s s' g" using set_flag_result [OF wf Set_flag(3) f(2,3), of v] f(1) by auto
  from spaces_update [OF sp Set_flag(2) this] show ?thesis using Set_flag(1) by blast
qed

inductive pd_run :: "ptr set \<Rightarrow> vm \<Rightarrow> ptr set \<Rightarrow> vm \<Rightarrow> bool" where
  Done: "pd_run D s D s"
| Step: "pd_run D s D1 s1 \<Longrightarrow> pd_step D1 s1 D2 s2 \<Longrightarrow> pd_run D s D2 s2"

lemma run_spaces: "pd_run D s D' s' \<Longrightarrow> spaces_ok D s \<Longrightarrow> spaces_ok D' s'"
  by (induction rule: pd_run.induct) (use step_effect in blast)+

section \<open>The properties\<close>

text \<open>
  C7. A user page directory behaves as a map from user pages to frames. Entering a page that is
  not present returns: false when no page is left for a table, and then the map is unchanged, or
  true, and then every address of that page translates to the frame plus its offset, with the given
  permission and neither dirty nor accessed. Removing a page makes it untranslated. No other page of
  the directory changes, the directory stays well formed, and all other directories keep their
  tables and entries.
\<close>

theorem pagedir_is_map:
  assumes "pd_wf pd s" "pg_ofs upage = 0" "is_user_vaddr upage" "pg_ofs kpage = 0" "is_kernel_vaddr kpage"
    "drop_bit PTSHIFT (kpage - PHYS_BASE) < ram_pages s" "entry_for pd s upage AND PTE_P = 0"
  shows "\<exists>r s1. pagedir_set_page pd upage kpage writable s = okE (r, s1) \<and> pd_wf pd s1 \<and> others pd s s1 \<and>
    (\<forall>va. is_user_vaddr va \<and> \<not> same_page va upage \<longrightarrow> entry_for pd s1 va = entry_for pd s va) \<and>
    (if r then (\<forall>va. is_user_vaddr va \<and> same_page va upage \<longrightarrow> pagedir_get_page pd va s1 = okE (kpage + pg_ofs va, s1)) \<and>
       pagedir_is_dirty pd upage s1 = okE (False, s1) \<and> pagedir_is_accessed pd upage s1 = okE (False, s1) \<and>
       (entry_for pd s1 upage AND PTE_W \<noteq> 0 \<longleftrightarrow> writable)
     else entry_for pd s1 upage = entry_for pd s upage) \<and>
    (\<exists>s2. pagedir_clear_page pd upage s1 = okE s2 \<and> pd_wf pd s2 \<and> others pd s s2 \<and>
       (\<forall>va. is_user_vaddr va \<and> same_page va upage \<longrightarrow> pagedir_get_page pd va s2 = okE (NULL, s2)) \<and>
       (\<forall>va. is_user_vaddr va \<and> \<not> same_page va upage \<longrightarrow> entry_for pd s2 va = entry_for pd s va))"
proof -
  obtain r s1 e where set: "pagedir_set_page pd upage kpage writable s = okE (r, s1)" "pte_create_user kpage writable = Inr e"
      "pd_update pd s s1 (\<lambda>va e0. if r \<and> same_page va upage then e else e0)"
    using set_page_result [OF assms, of writable] by blast
  have e: "pte_get_page e = Inr kpage" "e AND PTE_P \<noteq> 0" "(e AND PTE_W \<noteq> 0) = writable" "e AND PTE_D = 0" "e AND PTE_A = 0"
    using pte_get_page_create [OF assms(4,5), of writable] set(2) by auto
  note u1 = set(3) [unfolded pd_update_def]
  have wf1: "pd_wf pd s1" using u1 by blast
  have en1: "entry_for pd s1 va = (if r \<and> same_page va upage then e else entry_for pd s va)" if "is_user_vaddr va" for va
    using u1 that by blast
  obtain s2 where clear: "pagedir_clear_page pd upage s1 = okE s2"
      "pd_update pd s1 s2 (\<lambda>va e. if same_page va upage then e AND NOT PTE_P else e)"
    using clear_page_result [OF wf1 assms(2,3)] by blast
  note u2 = clear(2) [unfolded pd_update_def]
  have wf2: "pd_wf pd s2" "others pd s s2" using u2 others_trans u1 by blast+
  have en2: "entry_for pd s2 va = (if same_page va upage then entry_for pd s1 va AND NOT PTE_P else entry_for pd s1 va)" if "is_user_vaddr va" for va
    using u2 that by blast
  have z: "(x AND NOT PTE_P) AND PTE_P = 0" for x :: u32 by (simp add: PTE_P_def and.assoc)
  have "pagedir_get_page pd va s2 = okE (NULL, s2)" if "is_user_vaddr va" "same_page va upage" for va
    using get_page_result(2) [OF wf2(1) that(1)] en2 that z by simp
  moreover have "pagedir_get_page pd va s1 = okE (kpage + pg_ofs va, s1)" if r "is_user_vaddr va" "same_page va upage" for va
    using get_page_result(2) [OF wf1 that(2)] en1 that e by simp
  moreover have "pagedir_is_dirty pd upage s1 = okE (False, s1)" "pagedir_is_accessed pd upage s1 = okE (False, s1)" if r
    using test_flag_result [OF wf1 assms(3)] en1 assms(3) that e by (simp_all add: pagedir_is_dirty_def pagedir_is_accessed_def)
  ultimately show ?thesis using set(1) clear(1) wf1 wf2 u1 en1 en2 e(3) assms(3) by auto
qed

definition demo_vm :: vm where
  "demo_vm = \<lparr>vp = demo_pages\<lparr>kernel_pool := \<lparr>used_map = \<lparr>bit_cnt = 4, bits = [3]\<rparr>, base = 0xc0100000\<rparr>, pmem := (\<lambda>_. 0)\<rparr>, frame_table = [],
     ram_pages = 1024, base_page_dir = 0xc0100000, cr3 = 0x100000\<rparr>"

lemma demo_words [simp]: "read_word p demo_vm = 0" "tbl pd demo_vm i = None" "entry_for pd demo_vm va = 0"
  by (simp_all add: read_word_def demo_vm_def word_at_def bytes_int_def tbl_def entry_for_def)

lemma demo_own: "own_page 0xc0100000 demo_vm" "own_page 0xc0101000 demo_vm"
  by (auto simp: own_page_def demo_vm_def pages_used_def pool_used_def used_bits_def image_iff demo_pages_def
    bm_bits_def bit_at_def pg_no_def pg_ofs_def vaddr_defs bit_numeral_rec)

lemma demo_vm_ok: "vm_ok demo_vm" "base_ok demo_vm" "cr3 demo_vm < PHYS_BASE" "pd_wf 0xc0101000 demo_vm"
proof -
  show v: "vm_ok demo_vm"
    by (simp add: vm_ok_def demo_vm_def demo_pages_def pages_ok_def pool_ok_def pool_pages_def bm_wf_def pg_ofs_def pg_no_def vaddr_defs)
  show "base_ok demo_vm" using demo_own(1) by (simp add: base_ok_def) (simp add: demo_vm_def)
  show c: "cr3 demo_vm < PHYS_BASE" by (simp add: demo_vm_def PHYS_BASE_def)
  show "pd_wf 0xc0101000 demo_vm" using v c demo_own(2)
    by (simp add: pd_wf_def pd_ok_def frames_ok_def) (simp add: demo_vm_def is_kernel_vaddr_def PHYS_BASE_def)
qed

theorem pagedir_is_map_witness:
  "\<exists>r s1. pagedir_set_page 0xc0101000 0x8048000 0xc0200000 True demo_vm = okE (r, s1) \<and> pd_wf 0xc0101000 s1"
proof -
  have "drop_bit PTSHIFT (0xc0200000 - PHYS_BASE) < ram_pages demo_vm" by (simp add: demo_vm_def PTSHIFT_def PGBITS_def PHYS_BASE_def)
  then show ?thesis
    using pagedir_is_map [OF demo_vm_ok(4), of "0x8048000" "0xc0200000" True]
    by (auto simp: pg_ofs_def vaddr_defs is_user_vaddr_def is_kernel_vaddr_def)
qed



end
