(* ===== verification/Kpage.thy ===== *)
theory Kpage
  imports Khash Kpagedir_Props Kfile
begin

text \<open>
  \<^verbatim>\<open>vm/page.c\<close>: the supplemental page tables of processes, hash tables of entries ordered by their user
  page, and the state that the virtual memory system works on. Entries and swap slots live in
  stores indexed by object numbers; an object that was freed is no longer in its store. A reference
  in a hash table is to an entry or to the local variable a lookup uses as its key. Whether the
  next allocation of kernel memory succeeds is given by the sequence \<open>v_allocs\<close>. Fields that are
  read before they are written are optional.
\<close>

section \<open>The code\<close>

datatype fault_case = CASE_SWAP | CASE_FILESYS | CASE_ZERO

record sup_page_entry =
  upage :: ptr
  kpage :: ptr
  is_valid :: bool
  fault_case :: "fault_case option"
  swap_address :: "nat option"
  file_address :: "nat option"
  file_pos :: "int option"

record swap_entry =
  is_used :: bool
  first_sec_no :: u32

datatype page_ref = Entry nat | Local ptr

record process =
  sup_page_table :: "page_ref hash"
  pagedir :: ptr
  file_list :: "nat list"
  mapping_list :: "nat list"
  exec_name :: string
  self_file :: "nat option"

record vms =
  kv :: vm
  vfs :: fsys
  sup_entries :: "nat \<rightharpoonup> sup_page_entry"
  procs :: "ptr \<Rightarrow> process"
  current :: ptr
  swap_table :: "nat list"
  swap_entries :: "nat \<rightharpoonup> swap_entry"
  swap_sectors :: "(u32 \<Rightarrow> u8 list) option"
  swap_size :: u32
  v_allocs :: "nat \<Rightarrow> bool"
  v_brk :: nat

definition v_alloc :: "vms \<Rightarrow> nat option \<times> vms" where
  "v_alloc s = ((if v_allocs s (v_brk s) then Some (v_brk s) else None), s\<lparr>v_brk := v_brk s + 1\<rparr>)"

definition get_entry :: "nat \<Rightarrow> vms \<Rightarrow> sup_page_entry res" where
  "get_entry n s = (case sup_entries s n of None \<Rightarrow> Inl Bad_access | Some e \<Rightarrow> Inr e)"

definition set_entry :: "nat \<Rightarrow> sup_page_entry \<Rightarrow> vms \<Rightarrow> vms" where
  "set_entry n e s = s\<lparr>sup_entries := (sup_entries s)(n \<mapsto> e)\<rparr>"

definition cur_proc :: "vms \<Rightarrow> process" where
  "cur_proc s = procs s (current s)"

definition set_table :: "page_ref hash \<Rightarrow> vms \<Rightarrow> vms" where
  "set_table h s = s\<lparr>procs := (procs s)(current s := (cur_proc s)\<lparr>sup_page_table := h\<rparr>)\<rparr>"

definition ref_upage :: "(nat \<rightharpoonup> sup_page_entry) \<Rightarrow> page_ref \<Rightarrow> ptr" where
  "ref_upage st r = (case r of Local u \<Rightarrow> u | Entry n \<Rightarrow> (case st n of Some e \<Rightarrow> upage e | None \<Rightarrow> NULL))"

definition page_hash :: "(nat \<rightharpoonup> sup_page_entry) \<Rightarrow> page_ref \<Rightarrow> u32" where
  "page_hash st p = (case hash_bytes (int_bytes (ref_upage st p)) 4 of Inr h \<Rightarrow> h | Inl _ \<Rightarrow> 0)"

definition page_less :: "(nat \<rightharpoonup> sup_page_entry) \<Rightarrow> page_ref \<Rightarrow> page_ref \<Rightarrow> bool" where
  "page_less st a b \<longleftrightarrow> ref_upage st a < ref_upage st b"

definition sup_page_entry_create :: "ptr \<Rightarrow> ptr \<Rightarrow> nat option \<Rightarrow> vms \<Rightarrow> (nat \<times> vms) exec" where
  "sup_page_entry_create up kp f s = (case v_alloc s of
     (None, s) \<Rightarrow> Some (Inl Bad_access)
   | (Some n, s) \<Rightarrow>
     let s = set_entry n \<lparr>upage = up, kpage = kp, is_valid = True, fault_case = None, swap_address = None,
           file_address = f, file_pos = None\<rparr> s;
         (m, s) = v_alloc s
     in bindE (hash_insert (m \<noteq> None) (page_hash (sup_entries s)) (page_less (sup_entries s)) (sup_page_table (cur_proc s)) (Entry n))
          (\<lambda>(_, h). okE (n, set_table h s)))"

text \<open>The entry that a reference found in a table stands for.\<close>

definition hash_entry :: "page_ref option \<Rightarrow> nat option" where
  "hash_entry r = (case r of Some (Entry n) \<Rightarrow> Some n | _ \<Rightarrow> None)"

definition sup_page_table_lookup :: "page_ref hash \<Rightarrow> ptr \<Rightarrow> vms \<Rightarrow> nat option res" where
  "sup_page_table_lookup table up s =
     bindR (hash_find (page_hash (sup_entries s)) (page_less (sup_entries s)) table (Local up)) (\<lambda>r. Inr (hash_entry r))"

text \<open>The lookup by file compares the user page of its key, which it does not set.\<close>

definition sup_page_table_file_lookup :: "ptr \<Rightarrow> page_ref hash \<Rightarrow> nat \<Rightarrow> vms \<Rightarrow> nat option res" where
  "sup_page_table_file_lookup unset table f s =
     bindR (hash_find (page_hash (sup_entries s)) (page_less (sup_entries s)) table (Local unset)) (\<lambda>r. Inr (hash_entry r))"

definition sup_page_entry_delete :: "nat \<Rightarrow> vms \<Rightarrow> vms exec" where
  "sup_page_entry_delete n s = bindE (Some (get_entry n s)) (\<lambda>e.
     case v_alloc s of (m, s) \<Rightarrow>
     bindE (hash_delete (m \<noteq> None) (page_hash (sup_entries s)) (page_less (sup_entries s)) (sup_page_table (cur_proc s)) (Entry n)) (\<lambda>(_, h).
     let s = set_table h s in
     bindE (pagedir_clear_page (pagedir (cur_proc s)) (upage e) (kv s)) (\<lambda>v.
     let s = s\<lparr>kv := v\<rparr>;
         s = (case swap_address e of Some se \<Rightarrow> s\<lparr>swap_entries := (swap_entries s)(se := None)\<rparr> | None \<Rightarrow> s)
     in okE (s\<lparr>sup_entries := (sup_entries s)(n := None)\<rparr>))))"

section \<open>The contract of the hash tables\<close>

interpretation page_order: strict_weak_order "page_less st" for st
  by unfold_locales (auto simp: page_less_def)

lemma page_equiv: "equiv_by (page_less st) a b \<longleftrightarrow> ref_upage st a = ref_upage st b"
  by (auto simp: equiv_by_def page_less_def)

interpretation page_table: hash_contract "page_less st" "page_hash st" for st
  by unfold_locales (auto simp: page_equiv page_hash_def)

section \<open>A table as a map\<close>

text \<open>A table that belongs to a process: it holds existing entries, one per user page.\<close>

definition table_ok :: "vms \<Rightarrow> page_ref hash \<Rightarrow> bool" where
  "table_ok s h \<longleftrightarrow> hash_wf (page_hash (sup_entries s)) (page_less (sup_entries s)) h \<and>
     (\<forall>r \<in> set (hash_elems h). \<exists>n. r = Entry n \<and> n \<in> dom (sup_entries s)) \<and> (\<forall>n \<in> dom (sup_entries s). n < v_brk s)"

definition page_map :: "vms \<Rightarrow> page_ref hash \<Rightarrow> ptr \<Rightarrow> nat set" where
  "page_map s h u = {n. Entry n \<in> set (hash_elems h) \<and> ref_upage (sup_entries s) (Entry n) = u}"

lemma table_okD:
  assumes "table_ok s h"
  shows "hash_wf (page_hash (sup_entries s)) (page_less (sup_entries s)) h"
    "\<forall>r \<in> set (hash_elems h). \<exists>n. r = Entry n \<and> n \<in> dom (sup_entries s)" "\<forall>n \<in> dom (sup_entries s). n < v_brk s"
    "Entry n \<in> set (hash_elems h) \<Longrightarrow> n < v_brk s"
  using assms unfolding table_ok_def by blast+

lemma lookup_spec:
  assumes "table_ok s h"
  shows "\<exists>r. sup_page_table_lookup h u s = Inr r \<and> page_map s h u = set_option r"
proof -
  have wf: "hash_wf (page_hash (sup_entries s)) (page_less (sup_entries s)) h"
    and el: "\<forall>r \<in> set (hash_elems h). \<exists>n. r = Entry n \<and> n \<in> dom (sup_entries s)"
    by (rule table_okD [OF assms])+
  obtain r where r: "hash_find (page_hash (sup_entries s)) (page_less (sup_entries s)) h (Local u) = Inr r"
    "case r of Some x \<Rightarrow> x \<in> set (hash_elems h) \<and> equiv_by (page_less (sup_entries s)) x (Local u)
     | None \<Rightarrow> \<forall>x \<in> set (hash_elems h). \<not> equiv_by (page_less (sup_entries s)) x (Local u)"
    using page_table.find_correct [OF wf, of "Local u"] by blast
  have loc: "ref_upage (sup_entries s) (Local u) = u" by (simp add: ref_upage_def)
  have "page_map s h u = set_option (hash_entry r)"
  proof (cases r)
    case None
    then show ?thesis using r(2) loc by (auto simp: page_map_def hash_entry_def page_equiv)
  next
    case (Some x)
    then have x: "x \<in> set (hash_elems h)" "ref_upage (sup_entries s) x = u" using r(2) loc by (simp_all add: page_equiv)
    then obtain n where "x = Entry n" using el by blast
    then have n: "x = Entry n" "Entry n \<in> set (hash_elems h)" "ref_upage (sup_entries s) (Entry n) = u" using x by simp_all
    have "m = n" if "Entry m \<in> set (hash_elems h)" "ref_upage (sup_entries s) (Entry m) = u" for m
      using wf that n(2,3) unfolding hash_wf_def page_equiv by blast
    then have "page_map s h u = {n}" using n(2,3) unfolding page_map_def by blast
    then show ?thesis using Some n(1) by (simp add: hash_entry_def)
  qed
  then show ?thesis using r(1) by (simp add: sup_page_table_lookup_def)
qed

lemma ref_upage_simps [simp]:
  "ref_upage st (Local u) = u" "st n = Some e \<Longrightarrow> ref_upage st (Entry n) = upage e"
  by (simp_all add: ref_upage_def)

text \<open>A table stays the same table when entries that are not in it change.\<close>

lemma table_stable:
  assumes ok: "table_ok s h" and e: "\<forall>n. Entry n \<in> set (hash_elems h) \<longrightarrow> sup_entries s' n = sup_entries s n"
    and b: "\<forall>n \<in> dom (sup_entries s'). n < v_brk s'"
  shows "table_ok s' h" "page_map s' h = page_map s h"
proof -
  note wf = table_okD(1) [OF ok] and el = table_okD(2) [OF ok]
  have same: "ref_upage (sup_entries s') r = ref_upage (sup_entries s) r" if r: "r \<in> set (hash_elems h)" for r
  proof -
    obtain n where n: "r = Entry n" using bspec [OF el r] by (elim exE conjE)
    then have "sup_entries s' n = sup_entries s n" using e r by simp
    then show ?thesis unfolding n ref_upage_def by simp
  qed
  have "\<forall>i < length (buckets h). \<forall>r \<in> set (buckets h ! i). page_hash (sup_entries s') r = page_hash (sup_entries s) r"
    using same by (fastforce simp: page_hash_def hash_elems_def)
  then have "hash_placed (page_hash (sup_entries s')) h"
    using wf by (simp add: hash_wf_def hash_placed_def bucket_idx_def)
  then have "hash_wf (page_hash (sup_entries s')) (page_less (sup_entries s')) h"
    using wf same by (simp add: hash_wf_def page_equiv)
  moreover have "\<forall>r \<in> set (hash_elems h). \<exists>n. r = Entry n \<and> n \<in> dom (sup_entries s')"
  proof
    fix r assume r: "r \<in> set (hash_elems h)"
    obtain n where n: "r = Entry n" "n \<in> dom (sup_entries s)" using bspec [OF el r] by (elim exE conjE)
    then have "sup_entries s' n = sup_entries s n" using e r by simp
    then show "\<exists>n. r = Entry n \<and> n \<in> dom (sup_entries s')" using n by (simp add: domIff)
  qed
  ultimately show "table_ok s' h" using b unfolding table_ok_def by blast
  show "page_map s' h = page_map s h" using same by (auto simp: fun_eq_iff page_map_def)
qed

text \<open>Which processes' tables an operation leaves alone.\<close>

definition others_tables :: "vms \<Rightarrow> vms \<Rightarrow> nat \<Rightarrow> bool" where
  "others_tables s s' n \<longleftrightarrow> (\<forall>t. t \<noteq> current s \<longrightarrow> procs s' t = procs s t) \<and>
     (\<forall>h. table_ok s h \<and> Entry n \<notin> set (hash_elems h) \<longrightarrow> table_ok s' h \<and> page_map s' h = page_map s h)"

abbreviation my_table :: "vms \<Rightarrow> page_ref hash" where "my_table s \<equiv> sup_page_table (cur_proc s)"

lemma create_spec:
  assumes ok: "table_ok s (my_table s)" and a: "v_allocs s (v_brk s)"
  defines "n \<equiv> v_brk s"
  shows "\<exists>s'. sup_page_entry_create up kp f s = okE (n, s') \<and> table_ok s' (my_table s') \<and> others_tables s s' n \<and>
    sup_entries s' = (sup_entries s)(n \<mapsto> \<lparr>upage = up, kpage = kp, is_valid = True, fault_case = None,
      swap_address = None, file_address = f, file_pos = None\<rparr>) \<and>
    page_map s' (my_table s') = (\<lambda>v. if v = up \<and> page_map s (my_table s) up = {} then {n} else page_map s (my_table s) v) \<and>
    s' = (set_table (my_table s') s)\<lparr>sup_entries := sup_entries s', v_brk := v_brk s'\<rparr>"
proof -
  define e where "e = \<lparr>upage = up, kpage = kp, is_valid = True, fault_case = None, swap_address = None, file_address = f, file_pos = None\<rparr>"
  define s1 where "s1 = s\<lparr>sup_entries := (sup_entries s)(n \<mapsto> e), v_brk := n + 2\<rparr>"
  have nd: "\<forall>m \<in> dom (sup_entries s). m < n" unfolding n_def by (rule table_okD(3) [OF ok])
  have st: "table_ok s1 h \<and> page_map s1 h = page_map s h" if "table_ok s h" for h
  proof -
    have m: "m < n" if "Entry m \<in> set (hash_elems h)" for m unfolding n_def by (rule table_okD(4) [OF \<open>table_ok s h\<close> that])
    have e1: "\<forall>m. Entry m \<in> set (hash_elems h) \<longrightarrow> sup_entries s1 m = sup_entries s m" using m by (auto simp: s1_def)
    have b1: "\<forall>m \<in> dom (sup_entries s1). m < v_brk s1" using nd by (simp add: s1_def) (meson less_SucI)
    show ?thesis using table_stable [OF that e1 b1] by simp
  qed
  define h where "h = my_table s"
  have wf1: "hash_wf (page_hash (sup_entries s1)) (page_less (sup_entries s1)) h" using st [of h] ok table_okD(1) [of s1 h] unfolding h_def by blast
  obtain r h' where ins: "hash_insert (v_allocs s (n + 1)) (page_hash (sup_entries s1)) (page_less (sup_entries s1)) h (Entry n) = okE (r, h')"
      "hash_find (page_hash (sup_entries s1)) (page_less (sup_entries s1)) h (Entry n) = Inr r"
      "hash_wf (page_hash (sup_entries s1)) (page_less (sup_entries s1)) h'"
      "mset (hash_elems h') = (if r = None then add_mset (Entry n) (mset (hash_elems h)) else mset (hash_elems h))"
    using page_table.insert_correct [OF wf1, of "v_allocs s (n + 1)" "Entry n"] by blast
  have cr: "sup_page_entry_create up kp f s = okE (n, set_table h' s1)"
    using a ins(1) by (cases "v_allocs s (Suc (v_brk s))")
      (simp_all add: sup_page_entry_create_def v_alloc_def set_entry_def n_def s1_def e_def h_def cur_proc_def Let_def)
  let ?s' = "set_table h' s1"
  have fs: "sup_entries ?s' = sup_entries s1" "my_table ?s' = h'" "v_brk ?s' = v_brk s1" "current s1 = current s" "procs s1 = procs s"
    by (simp_all add: set_table_def cur_proc_def s1_def)
  have pm: "page_map ?s' g = page_map s1 g" "table_ok ?s' g = table_ok s1 g" for g
    by (simp_all add: page_map_def table_ok_def fs fun_eq_iff)
  have up: "ref_upage (sup_entries s1) (Entry n) = up" by (simp add: s1_def e_def)
  have old: "page_map s1 h = page_map s h" "table_ok s1 h" using st [of h] ok by (simp_all add: h_def)
  have rN: "r = None \<longleftrightarrow> page_map s h up = {}"
    using page_table.find_correct [OF wf1, of "Entry n"] ins(2) table_okD(2) [OF old(2)] up
    unfolding old(1) [symmetric] by (cases r) (auto simp: page_equiv page_map_def)
  have set: "set (hash_elems h') = (if r = None then insert (Entry n) (set (hash_elems h)) else set (hash_elems h))"
    using ins(4) by (metis set_mset_add_mset_insert set_mset_mset)
  have nh: "Entry n \<notin> set (hash_elems h)" using table_okD(4) [OF ok] by (auto simp: h_def n_def)
  have map: "page_map s1 h' = (\<lambda>v. if v = up \<and> page_map s h up = {} then {n} else page_map s h v)"
    unfolding old(1) [symmetric] using set rN up nh old(1) by (auto simp: page_map_def fun_eq_iff)
  have tab: "table_ok s1 h'"
    using ins(3) set table_okD(2,3) [OF old(2)] by (auto simp: table_ok_def s1_def split: if_splits)
  have "others_tables s ?s' n" unfolding others_tables_def pm using st by (simp add: set_table_def fs)
  moreover have "table_ok ?s' (my_table ?s')" using tab by (simp only: pm fs)
  moreover have "page_map ?s' (my_table ?s') = (\<lambda>v. if v = up \<and> page_map s (my_table s) up = {} then {n} else page_map s (my_table s) v)"
    using map unfolding h_def by (simp only: pm fs)
  moreover have "sup_entries ?s' = (sup_entries s)(n \<mapsto> e)" "?s' = (set_table (my_table ?s') s)\<lparr>sup_entries := sup_entries ?s', v_brk := v_brk ?s'\<rparr>"
    by (simp_all add: set_table_def s1_def cur_proc_def)
  ultimately show ?thesis using cr unfolding e_def by blast
qed

lemma table_remove:
  assumes ok: "table_ok s h" and n: "Entry n \<in> set (hash_elems h)"
  shows "\<exists>h'. hash_delete mem (page_hash (sup_entries s)) (page_less (sup_entries s)) h (Entry n) = okE (Some (Entry n), h') \<and>
    table_ok s h' \<and> set (hash_elems h') = set (hash_elems h) - {Entry n}"
proof -
  note wf = table_okD(1) [OF ok]
  obtain r h' where d: "hash_delete mem (page_hash (sup_entries s)) (page_less (sup_entries s)) h (Entry n) = okE (r, h')"
      "hash_find (page_hash (sup_entries s)) (page_less (sup_entries s)) h (Entry n) = Inr r"
      "hash_wf (page_hash (sup_entries s)) (page_less (sup_entries s)) h'"
      "mset (hash_elems h') = (case r of Some x \<Rightarrow> mset (hash_elems h) - {#x#} | None \<Rightarrow> mset (hash_elems h))"
    using page_table.delete_correct [OF wf, of mem "Entry n"] by blast
  have "r = Some (Entry n)"
  proof (cases r)
    case None
    then show ?thesis using page_table.find_correct [OF wf, of "Entry n"] d(2) n by (auto simp: page_equiv)
  next
    case (Some x)
    then have "x \<in> set (hash_elems h)" "equiv_by (page_less (sup_entries s)) x (Entry n)"
      using page_table.find_correct [OF wf, of "Entry n"] d(2) by auto
    then have "x = Entry n" using wf n unfolding hash_wf_def by blast
    then show ?thesis using Some by simp
  qed
  moreover have "distinct (hash_elems h)" using wf by (simp add: hash_wf_def)
  moreover have "set (hash_elems h') = set (remove1 (Entry n) (hash_elems h))"
    using d(4) calculation(1) by (intro mset_eq_setD) simp
  ultimately have "r = Some (Entry n)" "set (hash_elems h') = set (hash_elems h) - {Entry n}" by (simp_all add: set_remove1_eq)
  then show ?thesis using d(1,3) table_okD(2,3) [OF ok] by (auto simp: table_ok_def)
qed

lemma delete_spec:
  assumes ok: "table_ok s (my_table s)" and n: "Entry n \<in> set (hash_elems (my_table s))" and e: "sup_entries s n = Some e"
    and pd: "pd_wf (pagedir (cur_proc s)) (kv s)" and u: "pg_ofs (upage e) = 0" "is_user_vaddr (upage e)"
  shows "\<exists>s'. sup_page_entry_delete n s = okE s' \<and> table_ok s' (my_table s') \<and> others_tables s s' n \<and>
    sup_entries s' = (sup_entries s)(n := None) \<and>
    page_map s' (my_table s') = (page_map s (my_table s))(upage e := {}) \<and>
    pd_update (pagedir (cur_proc s)) (kv s) (kv s') (\<lambda>va x. if same_page va (upage e) then x AND NOT PTE_P else x)"
proof -
  define h where "h = my_table s"
  obtain h' where h': "hash_delete (v_allocs s (v_brk s)) (page_hash (sup_entries s)) (page_less (sup_entries s)) h (Entry n) =
      okE (Some (Entry n), h')" "table_ok s h'" "set (hash_elems h') = set (hash_elems h) - {Entry n}"
    using table_remove [OF ok n, of "v_allocs s (v_brk s)"] unfolding h_def by blast
  obtain v where v: "pagedir_clear_page (pagedir (cur_proc s)) (upage e) (kv s) = okE v"
      "pd_update (pagedir (cur_proc s)) (kv s) v (\<lambda>va x. if same_page va (upage e) then x AND NOT PTE_P else x)"
    using clear_page_result [OF pd u] by blast
  define sw where "sw = (case swap_address e of Some se \<Rightarrow> (swap_entries s)(se := None) | None \<Rightarrow> swap_entries s)"
  define s' where "s' = s\<lparr>v_brk := v_brk s + 1, procs := (procs s)(current s := (cur_proc s)\<lparr>sup_page_table := h'\<rparr>), kv := v,
    swap_entries := sw, sup_entries := (sup_entries s)(n := None)\<rparr>"
  have del: "sup_page_entry_delete n s = okE s'"
    using e h'(1) v(1) by (cases "v_allocs s (v_brk s)"; cases "swap_address e")
      (simp_all add: sup_page_entry_delete_def get_entry_def v_alloc_def set_table_def cur_proc_def h_def s'_def sw_def Let_def)
  have fs: "my_table s' = h'" "kv s' = v" "sup_entries s' = (sup_entries s)(n := None)" by (simp_all add: s'_def cur_proc_def)
  have "dom (sup_entries s') \<subseteq> dom (sup_entries s)" "v_brk s < v_brk s'" by (auto simp: s'_def)
  then have b: "\<forall>m \<in> dom (sup_entries s'). m < v_brk s'" using table_okD(3) [OF ok] by (meson less_trans subsetD)
  have st: "table_ok s' g \<and> page_map s' g = page_map s g" if "table_ok s g" "Entry n \<notin> set (hash_elems g)" for g
  proof -
    have "\<forall>m. Entry m \<in> set (hash_elems g) \<longrightarrow> sup_entries s' m = sup_entries s m" using that(2) fs(3) by auto
    then show ?thesis using table_stable [OF that(1) _ b] by blast
  qed
  then have tab: "table_ok s' h'" "page_map s' h' = page_map s h'" using h'(2,3) by auto
  have eq: "m = n" if "Entry m \<in> set (hash_elems h)" "ref_upage (sup_entries s) (Entry m) = upage e" for m
    using table_okD(1) [OF ok] n e that unfolding h_def hash_wf_def page_equiv by (metis page_ref.inject(1) ref_upage_simps(2))
  have "page_map s h' u = ((page_map s h)(upage e := {})) u" for u
  proof (cases "u = upage e")
    case True
    have "page_map s h' (upage e) = {}" using h'(3) eq unfolding page_map_def by blast
    then show ?thesis using True by simp
  next
    case False
    have "Entry m \<in> set (hash_elems h') \<longleftrightarrow> Entry m \<in> set (hash_elems h) \<and> m \<noteq> n" for m unfolding h'(3) by blast
    moreover have "ref_upage (sup_entries s) (Entry n) = upage e" using e by simp
    ultimately show ?thesis using False unfolding page_map_def by auto
  qed
  then have "page_map s' (my_table s') = (page_map s (my_table s))(upage e := {})" unfolding fs(1) tab(2) h_def by (rule ext)
  moreover have "others_tables s s' n" using st unfolding others_tables_def by (simp add: s'_def)
  ultimately show ?thesis using del tab(1) v(2) fs by auto
qed

lemma option_eq_set: "set_option x = set_option y \<Longrightarrow> x = y"
  by (cases x; cases y) auto

section \<open>The property\<close>

text \<open>
  C9. The supplemental page table of a process is a map from user pages to entries. A lookup
  returns, and finds the entry of a page if there is one. Creating an entry, when there is memory,
  makes it the one found for its page unless the page had one already, and changes no other
  lookup; deleting an entry that is in the table makes its page absent from the table and not
  present in the page directory of the process. The tables of other processes are unchanged.
\<close>

theorem sup_page_table_is_map:
  assumes ok: "table_ok s (my_table s)"
  shows "\<exists>r. sup_page_table_lookup (my_table s) u s = Inr r \<and>
    (v_allocs s (v_brk s) \<longrightarrow> (\<exists>n s'. sup_page_entry_create up kp f s = okE (n, s') \<and> table_ok s' (my_table s') \<and>
       others_tables s s' n \<and> sup_entries s n = None \<and>
       sup_page_table_lookup (my_table s') u s' =
         (if u = up \<and> r = None then Inr (Some n) else Inr r))) \<and>
    (\<forall>n e. r = Some n \<and> sup_entries s n = Some e \<and> pd_wf (pagedir (cur_proc s)) (kv s) \<and> pg_ofs u = 0 \<and> is_user_vaddr u \<longrightarrow>
       upage e = u \<and> (\<exists>s'. sup_page_entry_delete n s = okE s' \<and> table_ok s' (my_table s') \<and> others_tables s s' n \<and>
         sup_page_table_lookup (my_table s') u s' = Inr None \<and>
         pagedir_get_page (pagedir (cur_proc s)) u (kv s') = okE (NULL, kv s') \<and>
         (\<forall>v. v \<noteq> u \<longrightarrow> sup_page_table_lookup (my_table s') v s' = sup_page_table_lookup (my_table s) v s)))"
proof -
  obtain r where r: "sup_page_table_lookup (my_table s) u s = Inr r" "page_map s (my_table s) u = set_option r"
    using lookup_spec [OF ok] by blast
  have look: "sup_page_table_lookup (my_table s') v s' = Inr x" if "table_ok s' (my_table s')" "page_map s' (my_table s') v = set_option x" for s' v x
    using lookup_spec [OF that(1), of v] that(2) option_eq_set by metis
  have a: "\<exists>n s'. sup_page_entry_create up kp f s = okE (n, s') \<and> table_ok s' (my_table s') \<and>
       others_tables s s' n \<and> sup_entries s n = None \<and>
       sup_page_table_lookup (my_table s') u s' = (if u = up \<and> r = None then Inr (Some n) else Inr r)"
    if al: "v_allocs s (v_brk s)"
  proof -
    obtain s' where s': "sup_page_entry_create up kp f s = okE (v_brk s, s')" "table_ok s' (my_table s')" "others_tables s s' (v_brk s)"
        "page_map s' (my_table s') = (\<lambda>v. if v = up \<and> page_map s (my_table s) up = {} then {v_brk s} else page_map s (my_table s) v)"
      using create_spec [OF ok al, of up kp f] by blast
    have "page_map s' (my_table s') u = set_option (if u = up \<and> r = None then Some (v_brk s) else r)"
      using s'(4) r(2) by (cases r) auto
    from look [OF s'(2) this] have "sup_page_table_lookup (my_table s') u s' = (if u = up \<and> r = None then Inr (Some (v_brk s)) else Inr r)" by simp
    moreover have "sup_entries s (v_brk s) = None" using table_okD(3) [OF ok] by (meson domIff less_irrefl)
    ultimately show ?thesis using s'(1-3) by blast
  qed
  have d: "upage e = u \<and> (\<exists>s'. sup_page_entry_delete n s = okE s' \<and> table_ok s' (my_table s') \<and> others_tables s s' n \<and>
         sup_page_table_lookup (my_table s') u s' = Inr None \<and>
         pagedir_get_page (pagedir (cur_proc s)) u (kv s') = okE (NULL, kv s') \<and>
         (\<forall>v. v \<noteq> u \<longrightarrow> sup_page_table_lookup (my_table s') v s' = sup_page_table_lookup (my_table s) v s))"
    if asm: "r = Some n" "sup_entries s n = Some e" "pd_wf (pagedir (cur_proc s)) (kv s)" "pg_ofs u = 0" "is_user_vaddr u" for n e
  proof -
    have "n \<in> page_map s (my_table s) u" using r(2) asm(1) by simp
    then have n: "Entry n \<in> set (hash_elems (my_table s))" "upage e = u" using asm(2) by (simp_all add: page_map_def)
    obtain s' where s': "sup_page_entry_delete n s = okE s'" "table_ok s' (my_table s')" "others_tables s s' n"
        "page_map s' (my_table s') = (page_map s (my_table s))(upage e := {})"
        "pd_update (pagedir (cur_proc s)) (kv s) (kv s') (\<lambda>va x. if same_page va (upage e) then x AND NOT PTE_P else x)"
      using delete_spec [OF ok n(1) asm(2,3)] asm(4,5) n(2) by blast
    have "sup_page_table_lookup (my_table s') u s' = Inr None" using look [OF s'(2), of u None] s'(4) n(2) by simp
    moreover have "sup_page_table_lookup (my_table s') v s' = sup_page_table_lookup (my_table s) v s" if "v \<noteq> u" for v
    proof -
      obtain x where "sup_page_table_lookup (my_table s) v s = Inr x" "page_map s (my_table s) v = set_option x" using lookup_spec [OF ok] by blast
      then show ?thesis using look [OF s'(2), of v x] s'(4) n(2) that by simp
    qed
    moreover have "pagedir_get_page (pagedir (cur_proc s)) u (kv s') = okE (NULL, kv s')"
    proof -
      have "entry_for (pagedir (cur_proc s)) (kv s') u AND PTE_P = 0" "pd_wf (pagedir (cur_proc s)) (kv s')"
        using s'(5) n(2) asm(5) by (auto simp: pd_update_def PTE_P_def and.assoc)
      then show ?thesis using get_page_result(2) [of _ "kv s'" u] asm(5) by simp
    qed
    ultimately show ?thesis using s'(1-3) n(2) by blast
  qed
  show ?thesis using r(1) a d by blast
qed

definition demo_vms :: vms where
  "demo_vms = \<lparr>kv = demo_vm,
     vfs = \<lparr>sectors = (\<lambda>_. []), capacity = 0, free_map = \<lparr>bit_cnt = 0, bits = []\<rparr>, free_map_file = None, inodes = Map.empty,
       open_inodes = [], files = Map.empty, dirs = Map.empty, allocs = (\<lambda>_. True), brk = 0\<rparr>,
     sup_entries = Map.empty,
     procs = (\<lambda>_. \<lparr>sup_page_table = the (hash_init True), pagedir = 0xc0101000, file_list = [],
       mapping_list = [], exec_name = ''echo'', self_file = None\<rparr>),
     current = 0xc0103000, swap_table = [], swap_entries = Map.empty, swap_sectors = None, swap_size = 0,
     v_allocs = (\<lambda>_. True), v_brk = 0\<rparr>"

lemma demo_table_ok: "table_ok demo_vms (my_table demo_vms)"
  "hash_elems (my_table demo_vms) = []"
proof -
  obtain h where h: "hash_init True = Some h" "hash_wf (page_hash Map.empty) (page_less Map.empty) h" "hash_elems h = []"
    using hash_init_wf by blast
  have t: "my_table demo_vms = h" "sup_entries demo_vms = Map.empty" by (simp_all add: demo_vms_def cur_proc_def h(1))
  show "table_ok demo_vms (my_table demo_vms)" "hash_elems (my_table demo_vms) = []" using h(2,3) by (simp_all add: table_ok_def t)
qed

theorem sup_page_table_is_map_witness:
  "\<exists>n s'. sup_page_entry_create 0x8048000 0xc0200000 None demo_vms = okE (n, s') \<and>
    sup_page_table_lookup (my_table s') 0x8048000 s' = Inr (Some n)"
proof -
  have pm: "page_map demo_vms (my_table demo_vms) 0x8048000 = {}" by (simp add: page_map_def demo_table_ok(2))
  obtain r where r: "sup_page_table_lookup (my_table demo_vms) 0x8048000 demo_vms = Inr r" "page_map demo_vms (my_table demo_vms) 0x8048000 = set_option r"
    using lookup_spec [OF demo_table_ok(1)] by blast
  then have "sup_page_table_lookup (my_table demo_vms) 0x8048000 demo_vms = Inr None" using pm by (cases r) simp_all
  moreover have "v_allocs demo_vms (v_brk demo_vms)" by (simp add: demo_vms_def)
  ultimately show ?thesis
    using sup_page_table_is_map [OF demo_table_ok(1), of "0x8048000" "0x8048000" "0xc0200000" None] by auto
qed

end
