(* ===== verification/Kframe.thy ===== *)
theory Kframe
  imports Kpage
begin

text \<open>
  \<^verbatim>\<open>vm/frame.c\<close> and \<^verbatim>\<open>vm/swap.c\<close>: frames handed to user pages, their eviction to the swap disk or to the
  file they come from, and the handler of page faults of \<^verbatim>\<open>userprog/exception.c\<close>. The frame table holds
  its entries by value; \<^verbatim>\<open>free\<close> of an entry drops it. The semaphores that serialise these functions are
  not taken: each function is one step. A null pointer that the code follows or fills is a bad
  access, and so is a field read before it was written.
\<close>

section \<open>Bytes in memory\<close>

definition mem_bytes :: "ptr \<Rightarrow> nat \<Rightarrow> bmem \<Rightarrow> u8 list" where
  "mem_bytes p n m = map (\<lambda>k. m (p + of_nat k)) [0..<n]"

definition mem_store :: "ptr \<Rightarrow> u8 list \<Rightarrow> bmem \<Rightarrow> bmem" where
  "mem_store p bs m = (\<lambda>x. if unat (x - p) < length bs then bs ! unat (x - p) else m x)"

abbreviation ram :: "vms \<Rightarrow> bmem" where "ram s \<equiv> pmem (vp (kv s))"

definition set_ram :: "bmem \<Rightarrow> vms \<Rightarrow> vms" where
  "set_ram m s = s\<lparr>kv := (kv s)\<lparr>vp := (vp (kv s))\<lparr>pmem := m\<rparr>\<rparr>\<rparr>"

definition set_pages :: "pages \<Rightarrow> vms \<Rightarrow> vms" where
  "set_pages p s = s\<lparr>kv := (kv s)\<lparr>vp := p\<rparr>\<rparr>"

definition set_frames :: "frame_entry list \<Rightarrow> vms \<Rightarrow> vms" where
  "set_frames fs s = s\<lparr>kv := (kv s)\<lparr>frame_table := fs\<rparr>\<rparr>"

section \<open>The swap disk\<close>

definition swap_read :: "u32 \<Rightarrow> vms \<Rightarrow> u8 list res" where
  "swap_read sec_no s = (case swap_sectors s of None \<Rightarrow> Inl Assert_fail | Some d \<Rightarrow>
     require (sec_no < swap_size s) (require (sec_no < push_bit 28 1) (Inr (d sec_no))))"

definition swap_write :: "u32 \<Rightarrow> u8 list \<Rightarrow> vms \<Rightarrow> vms res" where
  "swap_write sec_no buffer s = (case swap_sectors s of None \<Rightarrow> Inl Assert_fail | Some d \<Rightarrow>
     require (sec_no < swap_size s) (require (sec_no < push_bit 28 1)
       (Inr (s\<lparr>swap_sectors := Some (d(sec_no := buffer))\<rparr>))))"

definition get_swap :: "nat \<Rightarrow> vms \<Rightarrow> swap_entry res" where
  "get_swap n s = (case swap_entries s n of None \<Rightarrow> Inl Bad_access | Some e \<Rightarrow> Inr e)"

definition set_used :: "nat \<Rightarrow> bool \<Rightarrow> vms \<Rightarrow> vms res" where
  "set_used n v s = bindR (get_swap n s) (\<lambda>e. Inr (s\<lparr>swap_entries := (swap_entries s)(n \<mapsto> e\<lparr>is_used := v\<rparr>)\<rparr>))"

partial_function (option) swap_init_loop :: "u32 \<Rightarrow> vms \<Rightarrow> vms exec" where
  "swap_init_loop i s = (if i < swap_size s
     then (case v_alloc s of (n, s) \<Rightarrow>
       if n = None then Some (Inl Bad_access)
       else swap_init_loop (i + 8) (s\<lparr>swap_entries := (swap_entries s)(the n \<mapsto> \<lparr>is_used = False, first_sec_no = i\<rparr>),
         swap_table := swap_table s @ [the n]\<rparr>))
     else okE s)"

definition swap_init :: "vms \<Rightarrow> vms exec" where
  "swap_init s = (let s = s\<lparr>swap_table := []\<rparr> in
     if swap_sectors s = None then Some (Inl Assert_fail) else swap_init_loop 0 s)"

text \<open>The first unused slot.\<close>

fun find_slot :: "nat list \<Rightarrow> vms \<Rightarrow> (nat \<times> swap_entry) option res" where
  "find_slot [] s = Inr None"
| "find_slot (n # ns) s = bindR (get_swap n s) (\<lambda>se. if \<not> is_used se then Inr (Some (n, se)) else find_slot ns s)"

fun write_sectors :: "u32 \<Rightarrow> ptr \<Rightarrow> nat list \<Rightarrow> vms \<Rightarrow> vms res" where
  "write_sectors sec kp [] s = Inr s"
| "write_sectors sec kp (i # is) s =
     bindR (swap_write (sec + of_nat i) (mem_bytes (kp + 512 * of_nat i) 512 (ram s)) s) (\<lambda>s. write_sectors sec kp is s)"

fun read_sectors :: "u32 \<Rightarrow> ptr \<Rightarrow> nat list \<Rightarrow> vms \<Rightarrow> vms res" where
  "read_sectors sec kp [] s = Inr s"
| "read_sectors sec kp (i # is) s =
     bindR (swap_read (sec + of_nat i) s) (\<lambda>d. read_sectors sec kp is (set_ram (mem_store (kp + 512 * of_nat i) d (ram s)) s))"

definition frame_upage :: "frame_entry \<Rightarrow> ptr res" where
  "frame_upage f = (case fr_upage f of None \<Rightarrow> Inl Bad_access | Some u \<Rightarrow> Inr u)"

definition swap_out :: "frame_entry \<Rightarrow> vms \<Rightarrow> vms exec" where
  "swap_out f s = bindE (Some (frame_upage f)) (\<lambda>up.
     bindE (Some (sup_page_table_lookup (sup_page_table (procs s (using_thread f))) up s)) (\<lambda>sup_pte.
     if swap_sectors s = None then okE s
     else
       bindE (Some (find_slot (swap_table s) s)) (\<lambda>slot.
       bindE (case slot of None \<Rightarrow> okE s
         | Some (n, se) \<Rightarrow> bindE (Some (write_sectors (first_sec_no se) (fr_kpage f) [0..<8] s)) (\<lambda>s.
             bindE (Some (set_used n True s)) (\<lambda>s.
             case sup_pte of None \<Rightarrow> Some (Inl Bad_access)
             | Some p \<Rightarrow> bindE (Some (get_entry p s)) (\<lambda>e.
                 okE (set_entry p (e\<lparr>swap_address := Some n, fault_case := Some CASE_SWAP\<rparr>) s))))) (\<lambda>s.
       bindE (pagedir_clear_page (pagedir (procs s (using_thread f))) up (kv s)) (\<lambda>v. let s = s\<lparr>kv := v\<rparr> in
       bindE (Some (palloc_free_page (fr_kpage f) (vp (kv s)))) (\<lambda>p. okE (set_pages p s)))))))"

section \<open>Frames\<close>

definition frame_init :: "vms \<Rightarrow> vms" where
  "frame_init s = set_frames [] s"

text \<open>Making room: the oldest frame is written out.\<close>

definition evict :: "vms \<Rightarrow> vms exec" where
  "evict s = (case frame_table (kv s) of
     [] \<Rightarrow> Some (Inl Assert_fail)
   | f # fs \<Rightarrow> let s = set_frames fs s in
     bindE (Some (frame_upage f)) (\<lambda>up.
     bindE (Some (sup_page_table_lookup (sup_page_table (procs s (using_thread f))) up s)) (\<lambda>sup_pte.
     case sup_pte of None \<Rightarrow> Some (Inl Bad_access)
     | Some n \<Rightarrow> bindE (Some (get_entry n s)) (\<lambda>e.
       case file_address e of
         None \<Rightarrow> swap_out f s
       | Some file_no \<Rightarrow>
         bindE (pagedir_is_dirty (pagedir (procs s (using_thread f))) up (kv s)) (\<lambda>(dirty, v). let s = s\<lparr>kv := v\<rparr> in
         bindE (if dirty
           then (case file_pos e of None \<Rightarrow> Some (Inl Bad_access) | Some pos \<Rightarrow>
             bindE (Some (file_write_at file_no (mem_bytes (fr_kpage f) 4096 (ram s)) 4096 pos (vfs s))) (\<lambda>(_, fs'). okE (s\<lparr>vfs := fs'\<rparr>)))
           else okE s) (\<lambda>s.
         bindE (pagedir_clear_page (pagedir (procs s (using_thread f))) up (kv s)) (\<lambda>v. let s = s\<lparr>kv := v\<rparr> in
         bindE (Some (palloc_free_page (fr_kpage f) (vp (kv s)))) (\<lambda>p. okE (set_pages p s)))))))))"

definition frame_table_allocator :: "u32 \<Rightarrow> vms \<Rightarrow> (ptr \<times> vms) exec" where
  "frame_table_allocator flags s =
     bindE (palloc_get_multiple flags 1 (vp (kv s))) (\<lambda>(result, p). let s = set_pages p s in
     bindE (if result = NULL
       then bindE (evict s) (\<lambda>s.
         bindE (palloc_get_multiple flags 1 (vp (kv s))) (\<lambda>(result, p). okE (result, set_pages p s)))
       else okE (result, s)) (\<lambda>(result, s).
     case v_alloc s of
       (None, s) \<Rightarrow> Some (Inl Bad_access)
     | (Some _, s) \<Rightarrow> okE (result,
         set_frames (frame_table (kv s) @ [\<lparr>using_thread = current s, fr_pte = None, fr_kpage = result, fr_upage = None\<rparr>]) s)))"

fun drop_frame :: "ptr \<Rightarrow> frame_entry list \<Rightarrow> frame_entry list option" where
  "drop_frame page [] = None"
| "drop_frame page (f # fs) = (if fr_kpage f = page then Some fs else map_option ((#) f) (drop_frame page fs))"

definition frame_table_free :: "ptr \<Rightarrow> vms \<Rightarrow> vms res" where
  "frame_table_free page s = (case drop_frame page (frame_table (kv s)) of
     None \<Rightarrow> Inr s
   | Some fs \<Rightarrow> bindR (palloc_free_multiple page 1 (vp (kv s))) (\<lambda>p. Inr (set_pages p (set_frames fs s))))"

text \<open>
  The loop advances from an element it has freed: after the first frame of the thread it follows
  a pointer in memory that was released and overwritten.
\<close>

fun free_frames_loop :: "ptr \<Rightarrow> frame_entry list \<Rightarrow> vms \<Rightarrow> vms res" where
  "free_frames_loop t [] s = Inr s"
| "free_frames_loop t (f # fs) s =
     (if using_thread f = t
      then bindR (palloc_free_multiple (fr_kpage f) 1 (vp (kv s))) (\<lambda>p. Inl Bad_access)
      else free_frames_loop t fs s)"

definition free_frames :: "ptr \<Rightarrow> vms \<Rightarrow> vms res" where
  "free_frames exiting_thread s = free_frames_loop exiting_thread (frame_table (kv s)) s"

definition swap_in :: "nat \<Rightarrow> bool \<Rightarrow> vms \<Rightarrow> vms exec" where
  "swap_in sup_pte writable s = bindE (frame_table_allocator PAL_USER s) (\<lambda>(kp, s).
     bindE (if swap_sectors s = None then okE s
       else bindE (Some (get_entry sup_pte s)) (\<lambda>e. case swap_address e of
           None \<Rightarrow> Some (Inl Bad_access)
         | Some n \<Rightarrow> bindE (Some (get_swap n s)) (\<lambda>se.
             if kp = NULL then Some (Inl Bad_access)
             else bindE (Some (read_sectors (first_sec_no se) kp [0..<8] s)) (\<lambda>s.
               bindE (Some (set_used n False s)) (\<lambda>s.
               okE (set_entry sup_pte (e\<lparr>fault_case := Some CASE_ZERO\<rparr>) s)))))) (\<lambda>s.
     bindE (Some (get_entry sup_pte s)) (\<lambda>e.
     bindE (pagedir_set_page (pagedir (cur_proc s)) (upage e) kp writable (kv s)) (\<lambda>(_, v). okE (s\<lparr>kv := v\<rparr>)))))"

section \<open>Page faults\<close>

definition PF_P :: u32 where "PF_P = 0x1"
definition PF_W :: u32 where "PF_W = 0x2"

text \<open>What becomes of the thread: it resumes, or it exits with a status and perhaps marked as killed.\<close>

datatype fate = Resume | Exits "int option" bool

definition page_fault :: "ptr \<Rightarrow> u32 \<Rightarrow> ptr \<Rightarrow> vms \<Rightarrow> (fate \<times> vms) exec" where
  "page_fault fault_addr error_code esp s =
     (let not_present = (error_code AND PF_P = 0); write = (error_code AND PF_W \<noteq> 0) in
      bindE (Some (sup_page_table_lookup (my_table s) (pg_round_down fault_addr) s)) (\<lambda>sup_pte.
      let is_stack_growth = (esp - 32 \<le> fault_addr \<and> PHYS_BASE - 8388608 \<le> fault_addr \<and> fault_addr < PHYS_BASE \<and> sup_pte = None);
          fault_addr = pg_round_down fault_addr
      in if is_stack_growth
         then bindE (frame_table_allocator PAL_USER s) (\<lambda>(kp, s).
           bindE (sup_page_entry_create fault_addr kp None s) (\<lambda>(_, s).
           bindE (pagedir_set_page (pagedir (cur_proc s)) fault_addr kp write (kv s)) (\<lambda>(_, v). okE (Resume, s\<lparr>kv := v\<rparr>))))
         else case sup_pte of
           None \<Rightarrow> okE (Exits (Some (- 1)) True, s)
         | Some n \<Rightarrow>
           if is_kernel_vaddr fault_addr \<or> \<not> not_present then okE (Exits (Some (- 1)) True, s)
           else bindE (Some (get_entry n s)) (\<lambda>e. case file_address e of
               None \<Rightarrow> bindE (swap_in n not_present s) (\<lambda>s. okE (Resume, s))
             | Some f \<Rightarrow> bindE (frame_table_allocator (PAL_USER OR PAL_ZERO) s) (\<lambda>(kp, s).
                 bindE (pagedir_set_page (pagedir (cur_proc s)) (upage e) kp not_present (kv s)) (\<lambda>(_, v).
                 let s = set_entry n (e\<lparr>kpage := kp\<rparr>) (s\<lparr>kv := v\<rparr>) in
                 case file_pos e of None \<Rightarrow> Some (Inl Bad_access)
                 | Some pos \<Rightarrow> bindE (Some (file_read_at f 4096 pos (vfs s))) (\<lambda>(d, fs').
                     okE (Resume, set_ram (mem_store kp d (ram s)) (s\<lparr>vfs := fs'\<rparr>))))))))"

definition SEL_UCSEG :: u32 where "SEL_UCSEG = 0x1b"
definition SEL_KCSEG :: u32 where "SEL_KCSEG = 0x08"

definition kill :: "u32 \<Rightarrow> fate res" where
  "kill cs = (if cs = SEL_UCSEG then Inr (Exits None False) else if cs = SEL_KCSEG then Inl Kernel_panic else Inr (Exits None False))"

end
