(* ===== verification/Kframe_Props.thy ===== *)
theory Kframe_Props
  imports Kframe
begin

text \<open>
  What \<^verbatim>\<open>vm/swap.c\<close> and \<^verbatim>\<open>vm/frame.c\<close> promise: the slots that \<^verbatim>\<open>swap_init\<close> makes, and that a page that was
  written to the swap disk and read back has the bytes it had.
\<close>

section \<open>Sectors and memory\<close>

lemma mem_bytes_length [simp]: "length (mem_bytes p n m) = n"
  by (simp add: mem_bytes_def)

lemma nth_mem_bytes: "k < n \<Longrightarrow> mem_bytes p n m ! k = m (p + of_nat k)"
  by (simp add: mem_bytes_def)

lemma set_ram_fields [simp]:
  "swap_sectors (set_ram m s) = swap_sectors s" "swap_size (set_ram m s) = swap_size s" "ram (set_ram m s) = m"
  "set_ram m (set_ram m' s) = set_ram m s" "set_ram (ram s) s = s"
  by (simp_all add: set_ram_def)

lemma sector_slot: "i < 8 \<Longrightarrow> x = (sec :: u32) + of_nat i \<longleftrightarrow> unat (x - sec) = i"
proof
  assume "i < 8" "x = sec + of_nat i"
  then show "unat (x - sec) = i" by (simp add: unat_of_nat)
next
  assume "unat (x - sec) = i"
  then have "x - sec = of_nat i" by auto
  then show "x = sec + of_nat i" by (metis add.commute diff_add_cancel)
qed

lemma write_sectors_result:
  assumes "swap_sectors s = Some d" "\<forall>i \<in> set is. i < 8 \<and> sec + of_nat i < swap_size s \<and> sec + of_nat i < push_bit 28 1"
  shows "write_sectors sec kp is s = Inr (s\<lparr>swap_sectors := Some (\<lambda>x. if unat (x - sec) \<in> set is
    then mem_bytes (kp + 512 * (x - sec)) 512 (ram s) else d x)\<rparr>)"
  using assms
proof (induction "is" arbitrary: s d)
  case Nil
  then show ?case by simp
next
  case (Cons i js)
  define d1 where "d1 = d(sec + of_nat i := mem_bytes (kp + 512 * of_nat i) 512 (ram s))"
  define s1 where "s1 = s\<lparr>swap_sectors := Some d1\<rparr>"
  have i: "i < 8" "swap_write (sec + of_nat i) (mem_bytes (kp + 512 * of_nat i) 512 (ram s)) s = Inr s1"
    using Cons.prems by (simp_all add: swap_write_def s1_def d1_def)
  have "write_sectors sec kp js s1 = Inr (s1\<lparr>swap_sectors := Some (\<lambda>x. if unat (x - sec) \<in> set js
      then mem_bytes (kp + 512 * (x - sec)) 512 (ram s1) else d1 x)\<rparr>)"
    by (rule Cons.IH) (use Cons.prems(2) in \<open>simp_all add: s1_def\<close>)
  moreover have "(if unat (x - sec) \<in> set js then mem_bytes (kp + 512 * (x - sec)) 512 (ram s1) else d1 x) =
      (if unat (x - sec) \<in> set (i # js) then mem_bytes (kp + 512 * (x - sec)) 512 (ram s) else d x)" for x
    using sector_slot [OF i(1), of x sec] by (auto simp: d1_def s1_def)
  ultimately show ?case using i(2) by (simp add: s1_def)
qed

text \<open>Reading the sectors in order fills the page.\<close>

lemma read_sectors_append:
  "read_sectors sec kp (is @ js) s = bindR (read_sectors sec kp is s) (read_sectors sec kp js)"
  by (induction "is" arbitrary: s) (simp_all add: bindR_assoc)

lemma unat_shift:
  assumes "c < 2 ^ 32"
  shows "unat (x - (p + of_nat c :: u32)) = (if c \<le> unat (x - p) then unat (x - p) - c else 2 ^ 32 + unat (x - p) - c)"
proof -
  define y where "y = x - p"
  have e: "x - (p + of_nat c) = y - of_nat c" by (simp add: y_def)
  have "unat (of_nat c :: u32) = c" using assms by (simp add: unat_of_nat)
  then show ?thesis unfolding e y_def [symmetric] by (simp add: unat_sub_if') linarith
qed

lemma read_sectors_result:
  assumes "swap_sectors s = Some d" "n \<le> 8" "\<forall>i < n. sec + of_nat i < swap_size s \<and> sec + of_nat i < push_bit 28 1 \<and> length (d (sec + of_nat i)) = 512"
  shows "read_sectors sec kp [0..<n] s = Inr (set_ram (\<lambda>x. let k = unat (x - kp) in
    if k < 512 * n then d (sec + of_nat (k div 512)) ! (k mod 512) else ram s x) s)"
  using assms(2,3)
proof (induction n)
  case 0
  then show ?case by (simp add: Let_def)
next
  case (Suc n)
  define m where "m = (\<lambda>x. let k = unat (x - kp) in if k < 512 * n then d (sec + of_nat (k div 512)) ! (k mod 512) else ram s x)"
  have IH: "read_sectors sec kp [0..<n] s = Inr (set_ram m s)" unfolding m_def by (rule Suc.IH) (use Suc.prems in simp_all)
  have rd: "swap_read (sec + of_nat n) (set_ram m s) = Inr (d (sec + of_nat n))" "length (d (sec + of_nat n)) = 512"
    using Suc.prems assms(1) by (simp_all add: swap_read_def)
  have "mem_store (kp + 512 * of_nat n) (d (sec + of_nat n)) m x =
      (let k = unat (x - kp) in if k < 512 * Suc n then d (sec + of_nat (k div 512)) ! (k mod 512) else ram s x)" for x
  proof -
    define k where "k = unat (x - kp)"
    have u: "unat (x - (kp + 512 * of_nat n)) = (if 512 * n \<le> k then k - 512 * n else 2 ^ 32 + k - 512 * n)"
      using unat_shift [of "512 * n" x kp] Suc.prems(1) by (simp add: k_def)
    consider "k < 512 * n" | "512 * n \<le> k" "k < 512 * Suc n" | "512 * Suc n \<le> k" by linarith
    then show ?thesis
    proof cases
      case 1
      then have "\<not> unat (x - (kp + 512 * of_nat n)) < 512" using u Suc.prems(1) by simp
      then show ?thesis using 1 rd(2) by (simp add: mem_store_def m_def Let_def flip: k_def)
    next
      case 2
      then have "k div 512 = n" "k mod 512 = k - 512 * n" by (simp_all add: div_nat_eqI modulo_nat_def)
      moreover have "k - 512 * n < 512" using 2 by simp
      ultimately show ?thesis using 2 u rd(2) by (simp add: mem_store_def Let_def flip: k_def)
    next
      case 3
      then have "\<not> unat (x - (kp + 512 * of_nat n)) < 512" using u by simp
      then show ?thesis using 3 rd(2) by (simp add: mem_store_def m_def Let_def flip: k_def)
    qed
  qed
  then have "mem_store (kp + 512 * of_nat n) (d (sec + of_nat n)) m =
      (\<lambda>x. let k = unat (x - kp) in if k < 512 * Suc n then d (sec + of_nat (k div 512)) ! (k mod 512) else ram s x)" by (rule ext)
  then show ?case using IH rd by (simp add: read_sectors_append)
qed

section \<open>Slots\<close>

text \<open>The swap table holds existing slots that fit on the disk.\<close>

definition swap_ok :: "vms \<Rightarrow> bool" where
  "swap_ok s \<longleftrightarrow> swap_sectors s \<noteq> None \<and> unat (swap_size s) \<le> 2 ^ 28 \<and>
     (\<forall>n \<in> set (swap_table s). \<exists>se. swap_entries s n = Some se \<and> unat (first_sec_no se) + 8 \<le> unat (swap_size s))"

lemma find_slot_result:
  assumes "\<forall>n \<in> set ns. \<exists>se. swap_entries s n = Some se"
  shows "\<exists>r. find_slot ns s = Inr r \<and> (case r of
      None \<Rightarrow> \<forall>n \<in> set ns. \<exists>se. swap_entries s n = Some se \<and> is_used se
    | Some (n, se) \<Rightarrow> n \<in> set ns \<and> swap_entries s n = Some se \<and> \<not> is_used se)"
  using assms
proof (induction ns)
  case (Cons n ns)
  obtain se where se: "swap_entries s n = Some se" using Cons.prems by auto
  show ?case
  proof (cases "is_used se")
    case True
    obtain r where "find_slot ns s = Inr r" "case r of
        None \<Rightarrow> \<forall>n \<in> set ns. \<exists>se. swap_entries s n = Some se \<and> is_used se
      | Some (n, se) \<Rightarrow> n \<in> set ns \<and> swap_entries s n = Some se \<and> \<not> is_used se"
      using Cons by auto
    then show ?thesis using True se by (cases r) (auto simp: get_swap_def)
  qed (use se in \<open>auto simp: get_swap_def\<close>)
qed simp

lemma slot_sectors:
  assumes "swap_ok s" "n \<in> set (swap_table s)" "swap_entries s n = Some se" "i < 8"
  shows "first_sec_no se + of_nat i < swap_size s" "first_sec_no se + of_nat i < push_bit 28 1"
proof -
  have "unat (first_sec_no se) + 8 \<le> unat (swap_size s)" "unat (swap_size s) \<le> 2 ^ 28"
    using assms(1-3) unfolding swap_ok_def by fastforce+
  then have "unat (first_sec_no se + of_nat i) = unat (first_sec_no se) + i" "unat (first_sec_no se) + i < unat (swap_size s)"
    using assms(4) by (simp_all add: unat_word_ariths unat_of_nat)
  then show "first_sec_no se + of_nat i < swap_size s" "first_sec_no se + of_nat i < push_bit 28 1"
    using \<open>unat (swap_size s) \<le> 2 ^ 28\<close> by (simp_all add: word_less_nat_alt push_bit_eq_mult)
qed

section \<open>Frames and page directories\<close>

text \<open>Removing a page changes words of tables and the page directory register only.\<close>

lemma clear_page_keeps:
  assumes "pagedir_clear_page pd up v = okE v'"
  shows "\<exists>m c. v' = v\<lparr>vp := (vp v)\<lparr>pmem := m\<rparr>, cr3 := c\<rparr>"
proof -
  have inv: "invalidate_pagedir pd u = Inr v' \<Longrightarrow> \<exists>c. v' = u\<lparr>cr3 := c\<rparr>" for u
  proof -
    assume a: "invalidate_pagedir pd u = Inr v'"
    have "v' = u \<or> (\<exists>c. v' = u\<lparr>cr3 := c\<rparr>)" using a by (auto simp: invalidate_pagedir_def pagedir_activate_def Let_def split: if_splits)
    moreover have "u = u\<lparr>cr3 := cr3 u\<rparr>" by simp
    ultimately show ?thesis by metis
  qed
  obtain pte v1 where l: "lookup_page pd up False v = okE (pte, v1)" using assms by (auto simp: pagedir_clear_page_def)
  have "v1 = v" using l by (auto simp: lookup_page_def Let_def split: if_splits)
  then consider "v' = v" | w where "invalidate_pagedir pd (write_word pte w v) = Inr v'"
    using assms l by (auto simp: pagedir_clear_page_def split: if_splits)
  then show ?thesis
  proof cases
    case 1
    then have "v' = v\<lparr>vp := (vp v)\<lparr>pmem := pmem (vp v)\<rparr>, cr3 := cr3 v\<rparr>" by simp
    then show ?thesis by blast
  next
    case 2
    then show ?thesis using inv by (fastforce simp: write_word_def)
  qed
qed

lemma clear_page_tables:
  assumes wf: "pd_wf pd v" and u: "is_user_vaddr up" and c: "pagedir_clear_page pd up v = okE v'"
  shows "i < 768 \<Longrightarrow> tbl pd v' i = tbl pd v i" "pd_pages pd v' = pd_pages pd v"
proof -
  have "\<forall>i < 768. tbl pd v' i = tbl pd v i"
  proof (cases "tbl pd v (unat (pd_no up))")
    case None
    then have "v' = v" using no_slot [OF wf u None] c by (simp add: pagedir_clear_page_def)
    then show ?thesis by simp
  next
    case (Some pt)
    note sl = entry_slot [OF wf u Some] and own = pd_okD(3) [OF pd_wfD(2) [OF wf] user_index [OF u] Some]
    have al: "pg_ofs pd = 0" "pg_ofs pt = 0" using own pd_okD(1) [OF pd_wfD(2) [OF wf]] by (simp_all add: own_page_def)
    have "tbl pd (write_word (slot pt (unat (pt_no up))) w v) i = tbl pd v i" if "i < 768" for w i
      using read_write_slot [OF al _ pt_index, of i up w v] own that by (auto simp: tbl_def)
    moreover have "v' = v \<or> (\<exists>w. invalidate_pagedir pd (write_word (slot pt (unat (pt_no up))) w v) = Inr v')"
      using c sl by (auto simp: pagedir_clear_page_def split: if_splits)
    moreover have "invalidate_pagedir pd u' = Inr v' \<Longrightarrow> v' = u' \<or> (\<exists>c. v' = u'\<lparr>cr3 := c\<rparr>)" for u'
      by (auto simp: invalidate_pagedir_def pagedir_activate_def Let_def split: if_splits)
    ultimately show ?thesis by fastforce
  qed
  then show "i < 768 \<Longrightarrow> tbl pd v' i = tbl pd v i" "pd_pages pd v' = pd_pages pd v" by (auto simp: pd_pages_def)
qed

lemma frame_wf:
  assumes wf: "pd_wf pd v" and own: "\<forall>a \<in> pd_pages pd v. own_page a v'" and ok: "vm_ok v'" "base_page_dir v' = base_page_dir v" "cr3 v' = cr3 v"
    and w: "\<forall>a \<in> pd_pages pd v. \<forall>i < 1024. read_word (slot a i) v' = read_word (slot a i) v"
  shows "pd_wf pd v'" "is_user_vaddr va \<Longrightarrow> entry_for pd v' va = entry_for pd v va" "pd_pages pd v' = pd_pages pd v"
    "i < 768 \<Longrightarrow> tbl pd v' i = tbl pd v i"
proof -
  note fr = pd_frame [OF pd_wfD(2) [OF wf] own w]
  show e: "entry_for pd v' va = entry_for pd v va" if "is_user_vaddr va" for va using fr(4) [OF that] .
  show "pd_pages pd v' = pd_pages pd v" by (rule fr(3))
  show "tbl pd v' i = tbl pd v i" if "i < 768" for i using fr(1) [OF that] .
  have "frames_ok pd v'" using pd_wfD(7) [OF wf] e by (simp add: frames_ok_def)
  then show "pd_wf pd v'" using wf fr(2) ok by (simp add: pd_wf_def)
qed

lemma changed_words:
  assumes "pg_ofs a = 0" "i < 1024" "pg_ofs q = 0" "a \<noteq> q" "\<forall>x. \<not> in_block x q PGSIZE \<longrightarrow> m' x = m x"
  shows "word_at m' (slot a i) = word_at m (slot a i)"
  using slot_in_block [OF assms(1-3)] assms(4,5) by (intro word_at_cong) simp

section \<open>Writing a page out\<close>

text \<open>
  A frame that holds a page of its thread: the supplemental page table has the entry \<open>p\<close> for the page,
  the page directory has a table for it, and the frame is a page of the user pool that is no part of
  the directory.
\<close>

definition resident :: "frame_entry \<Rightarrow> ptr \<Rightarrow> nat \<Rightarrow> vms \<Rightarrow> bool" where
  "resident f up p s \<longleftrightarrow> fr_upage f = Some up \<and> pg_ofs up = 0 \<and> is_user_vaddr up \<and>
     table_ok s (sup_page_table (procs s (using_thread f))) \<and>
     page_map s (sup_page_table (procs s (using_thread f))) up = {p} \<and>
     pd_wf (pagedir (procs s (using_thread f))) (kv s) \<and>
     tbl (pagedir (procs s (using_thread f))) (kv s) (unat (pd_no up)) \<noteq> None \<and>
     pg_ofs (fr_kpage f) = 0 \<and> unat (pg_no (fr_kpage f)) \<in> pool_used (user_pool (vp (kv s))) \<and>
     fr_kpage f \<notin> pd_pages (pagedir (procs s (using_thread f))) (kv s)"

lemma resident_lookup:
  assumes "resident f up p s"
  shows "sup_page_table_lookup (sup_page_table (procs s (using_thread f))) up s = Inr (Some p)" "\<exists>e. sup_entries s p = Some e \<and> upage e = up"
proof -
  define h where "h = sup_page_table (procs s (using_thread f))"
  have ok: "table_ok s h" "page_map s h up = {p}" using assms by (simp_all add: resident_def h_def)
  obtain r where r: "sup_page_table_lookup h up s = Inr r" "page_map s h up = set_option r" using lookup_spec [OF ok(1)] by blast
  then have "r = Some p" using ok(2) option_eq_set [of r "Some p"] by simp
  then show "sup_page_table_lookup (sup_page_table (procs s (using_thread f))) up s = Inr (Some p)" using r(1) by (simp add: h_def)
  have "Entry p \<in> set (hash_elems h)" "ref_upage (sup_entries s) (Entry p) = up" using ok(2) by (auto simp: page_map_def)
  moreover have "p \<in> dom (sup_entries s)" using table_okD(2) [OF ok(1)] calculation(1) by blast
  ultimately show "\<exists>e. sup_entries s p = Some e \<and> upage e = up" by auto
qed

lemma release_frame:
  assumes wf: "pd_wf pd v" and kp: "pg_ofs kp = 0" "unat (pg_no kp) \<in> pool_used (user_pool (vp v))" "kp \<notin> pd_pages pd v"
  shows "\<exists>q. palloc_free_page kp (vp v) = Inr q \<and> pd_wf pd (v\<lparr>vp := q\<rparr>) \<and> pd_pages pd (v\<lparr>vp := q\<rparr>) = pd_pages pd v \<and>
    (\<forall>va. is_user_vaddr va \<longrightarrow> entry_for pd (v\<lparr>vp := q\<rparr>) va = entry_for pd v va) \<and>
    (\<forall>i < 768. tbl pd (v\<lparr>vp := q\<rparr>) i = tbl pd v i) \<and>
    unat (pg_no kp) \<notin> pages_used q \<and> (\<forall>u. pool_pages (pool_of u q) = pool_pages (pool_of u (vp v)))"
proof -
  have ok: "pages_ok (vp v)" using pd_wfD(1) [OF wf] by (simp add: vm_ok_def)
  have rng: "page_range kp 1 = {unat (pg_no kp)}" by (auto simp: page_range_def)
  have sub: "page_range kp 1 \<subseteq> pool_used (pool_of True (vp v))" using kp(2) by (simp add: rng pool_of_def)
  obtain q where q: "palloc_free_multiple kp 1 (vp v) = Inr q" using free_multiple_succeeds [OF ok kp(1) _ sub] by auto
  have nz: "kp \<noteq> NULL"
  proof
    assume "kp = NULL"
    then have "first_page (user_pool (vp v)) = 0" using kp(2) pool_used_sub [of "user_pool (vp v)"] by (auto simp: pool_pages_def pg_no_def)
    then show False using ok base_address [of "base (user_pool (vp v))"] by (simp add: pages_ok_def pool_ok_def unat_eq_zero)
  qed
  have r: "pages_ok q" "pages_used q = pages_used (vp v) - {unat (pg_no kp)}"
      "pmem q = (\<lambda>x. if in_block x kp (PGSIZE * 1) then 0xcc else pmem (vp v) x)"
    using free_multiple_result [OF ok nz _ q] rng by auto
  have pools: "pool_pages (pool_of u q) = pool_pages (pool_of u (vp v))" for u by (rule free_multiple_pools [OF ok q])
  have pg: "a \<noteq> kp" "pg_ofs a = 0" "own_page a v" if "a \<in> pd_pages pd v" for a
    using that kp(3) pd_pages_own [OF pd_wfD(2) [OF wf] that] by (auto simp: own_page_def)
  have "own_page a (v\<lparr>vp := q\<rparr>)" if a: "a \<in> pd_pages pd v" for a
  proof -
    have "unat (pg_no a) \<noteq> unat (pg_no kp)" using pg [OF a] kp(1) base_address [of a] base_address [of kp] by (auto simp: word_unat_eq_iff)
    then show ?thesis using pg [OF a] by (simp add: own_page_def r(2))
  qed
  moreover have "read_word (slot a i) (v\<lparr>vp := q\<rparr>) = read_word (slot a i) v" if "a \<in> pd_pages pd v" "i < 1024" for a i
    using changed_words [OF pg(2) [OF that(1)] that(2) kp(1) pg(1) [OF that(1)]] by (simp add: read_word_def r(3))
  moreover have "vm_ok (v\<lparr>vp := q\<rparr>)" using pd_wfD(1) [OF wf] r(1) pools [of False] by (simp add: vm_ok_def pool_of_def)
  ultimately show ?thesis
    using frame_wf [OF wf, of "v\<lparr>vp := q\<rparr>"] q r(2) pools by (auto simp: palloc_free_page_def)
qed

lemma swap_out_spec:
  assumes res: "resident f up p s" and sw: "swap_ok s" and e: "sup_entries s p = Some e"
    and free: "\<exists>n \<in> set (swap_table s). \<exists>se. swap_entries s n = Some se \<and> \<not> is_used se"
  defines "pd \<equiv> pagedir (procs s (using_thread f))"
  shows "\<exists>n se d v. swap_out f s = okE (s\<lparr>swap_sectors := Some d, swap_entries := (swap_entries s)(n \<mapsto> se\<lparr>is_used := True\<rparr>),
      sup_entries := (sup_entries s)(p \<mapsto> e\<lparr>swap_address := Some n, fault_case := Some CASE_SWAP\<rparr>), kv := v\<rparr>) \<and>
    n \<in> set (swap_table s) \<and> swap_entries s n = Some se \<and> \<not> is_used se \<and>
    (\<forall>x. d x = (if unat (x - first_sec_no se) < 8 then mem_bytes (fr_kpage f + 512 * (x - first_sec_no se)) 512 (ram s) else the (swap_sectors s) x)) \<and>
    pd_wf pd v \<and> pd_pages pd v = pd_pages pd (kv s) \<and> tbl pd v (unat (pd_no up)) \<noteq> None \<and>
    (\<forall>va. is_user_vaddr va \<longrightarrow> entry_for pd v va = (if same_page va up then entry_for pd (kv s) va AND NOT PTE_P else entry_for pd (kv s) va)) \<and>
    unat (pg_no (fr_kpage f)) \<notin> pages_used (vp v) \<and> (\<forall>u. pool_pages (pool_of u (vp v)) = pool_pages (pool_of u (vp (kv s)))) \<and>
    (\<exists>q c. v = (kv s)\<lparr>vp := q, cr3 := c\<rparr>)"
proof -
  have rs: "fr_upage f = Some up" "pg_ofs up = 0" "is_user_vaddr up" "pd_wf pd (kv s)" "tbl pd (kv s) (unat (pd_no up)) \<noteq> None"
      "pg_ofs (fr_kpage f) = 0" "unat (pg_no (fr_kpage f)) \<in> pool_used (user_pool (vp (kv s)))" "fr_kpage f \<notin> pd_pages pd (kv s)"
    using res by (simp_all add: resident_def pd_def)
  obtain d0 where d0: "swap_sectors s = Some d0" using sw by (auto simp: swap_ok_def)
  have "\<forall>n \<in> set (swap_table s). \<exists>se. swap_entries s n = Some se" using sw unfolding swap_ok_def by blast
  from find_slot_result [OF this] free obtain n se where n: "find_slot (swap_table s) s = Inr (Some (n, se))"
      "n \<in> set (swap_table s)" "swap_entries s n = Some se" "\<not> is_used se"
    by (auto split: option.splits)
  define d where "d = (\<lambda>x. if unat (x - first_sec_no se) \<in> set [0..<8] then mem_bytes (fr_kpage f + 512 * (x - first_sec_no se)) 512 (ram s) else d0 x)"
  have wr: "write_sectors (first_sec_no se) (fr_kpage f) [0..<8] s = Inr (s\<lparr>swap_sectors := Some d\<rparr>)"
    unfolding d_def by (rule write_sectors_result [OF d0]) (use slot_sectors [OF sw n(2,3)] in simp)
  obtain v1 where v1: "pagedir_clear_page pd up (kv s) = okE v1"
      "pd_update pd (kv s) v1 (\<lambda>va e. if same_page va up then e AND NOT PTE_P else e)"
    using clear_page_result [OF rs(4,2,3)] by blast
  obtain m c where v1k: "v1 = (kv s)\<lparr>vp := (vp (kv s))\<lparr>pmem := m\<rparr>, cr3 := c\<rparr>" using clear_page_keeps [OF v1(1)] by blast
  note tb = clear_page_tables [OF rs(4,3) v1(1)]
  have wf1: "pd_wf pd v1" using v1(2) by (simp add: pd_update_def)
  have kp: "unat (pg_no (fr_kpage f)) \<in> pool_used (user_pool (vp v1))" "fr_kpage f \<notin> pd_pages pd v1" using rs(7,8) v1k tb(2) by simp_all
  obtain q where q: "palloc_free_page (fr_kpage f) (vp v1) = Inr q" "pd_wf pd (v1\<lparr>vp := q\<rparr>)" "pd_pages pd (v1\<lparr>vp := q\<rparr>) = pd_pages pd v1"
      "\<forall>va. is_user_vaddr va \<longrightarrow> entry_for pd (v1\<lparr>vp := q\<rparr>) va = entry_for pd v1 va" "\<forall>i < 768. tbl pd (v1\<lparr>vp := q\<rparr>) i = tbl pd v1 i"
      "unat (pg_no (fr_kpage f)) \<notin> pages_used q" "\<forall>u. pool_pages (pool_of u q) = pool_pages (pool_of u (vp v1))"
    using release_frame [OF wf1 rs(6) kp] by blast
  have ui: "unat (pd_no up) < 768" by (rule user_index [OF rs(3)])
  have run: "swap_out f s = okE (s\<lparr>swap_sectors := Some d, swap_entries := (swap_entries s)(n \<mapsto> se\<lparr>is_used := True\<rparr>),
      sup_entries := (sup_entries s)(p \<mapsto> e\<lparr>swap_address := Some n, fault_case := Some CASE_SWAP\<rparr>), kv := v1\<lparr>vp := q\<rparr>\<rparr>)"
    using rs(1) resident_lookup(1) [OF res] d0 n(1,3) wr e v1(1) q(1)
    by (simp add: swap_out_def frame_upage_def set_used_def get_swap_def get_entry_def set_entry_def set_pages_def Let_def pd_def)
  have ent: "entry_for pd (v1\<lparr>vp := q\<rparr>) va = (if same_page va up then entry_for pd (kv s) va AND NOT PTE_P else entry_for pd (kv s) va)"
    if "is_user_vaddr va" for va using q(4) v1(2) that by (simp add: pd_update_def)
  have pools: "pool_pages (pool_of u q) = pool_pages (pool_of u (vp (kv s)))" for u using q(7) v1k by (simp add: pool_of_def)
  have "v1\<lparr>vp := q\<rparr> = (kv s)\<lparr>vp := q, cr3 := c\<rparr>" using v1k by simp
  then show ?thesis
    using run n(2-4) q(2,3,5,6) tb ui rs(5) ent pools d0
    by (intro exI [of _ n] exI [of _ se] exI [of _ d] exI [of _ "v1\<lparr>vp := q\<rparr>"]) (auto simp: d_def)
qed

section \<open>Reading a page in\<close>

lemma allocator_free:
  assumes ok: "pages_ok (vp (kv s))" and k: "k \<in> pool_pages (user_pool (vp (kv s)))" "k \<notin> pages_used (vp (kv s))" and a: "v_allocs s (v_brk s)"
  shows "\<exists>kp q. frame_table_allocator PAL_USER s = okE (kp, s\<lparr>v_brk := v_brk s + 1, kv := (kv s)\<lparr>vp := q, frame_table := frame_table (kv s) @
      [\<lparr>using_thread = current s, fr_pte = None, fr_kpage = kp, fr_upage = None\<rparr>]\<rparr>\<rparr>) \<and>
    kp \<noteq> NULL \<and> pg_ofs kp = 0 \<and> unat (pg_no kp) \<in> pool_pages (user_pool (vp (kv s))) \<and> unat (pg_no kp) \<notin> pages_used (vp (kv s)) \<and>
    pages_used q = insert (unat (pg_no kp)) (pages_used (vp (kv s))) \<and> pmem q = ram s \<and> pages_ok q \<and>
    pool_pages (kernel_pool q) = pool_pages (kernel_pool (vp (kv s)))"
proof -
  have one: "(0 :: u32) < 1" by simp
  have u: "True = (PAL_USER AND PAL_USER \<noteq> 0)" by (simp add: PAL_USER_def)
  obtain kp q where g: "palloc_get_multiple PAL_USER 1 (vp (kv s)) = okE (kp, q)" "pages_ok q"
    and c: "if kp = NULL then q = vp (kv s) \<and> (\<forall>k. {k..<k + unat (1 :: u32)} \<subseteq> pool_pages (pool_of True (vp (kv s))) \<longrightarrow>
        {k..<k + unat (1 :: u32)} \<inter> pages_used (vp (kv s)) \<noteq> {})
      else pg_ofs kp = 0 \<and> page_range kp 1 \<subseteq> pool_pages (pool_of True (vp (kv s))) \<and> page_range kp 1 \<inter> pages_used (vp (kv s)) = {} \<and>
        pages_used q = pages_used (vp (kv s)) \<union> page_range kp 1 \<and>
        pmem q = (\<lambda>x. if PAL_USER AND PAL_ZERO \<noteq> 0 \<and> in_block x kp (PGSIZE * 1) then 0 else pmem (vp (kv s)) x)"
    using get_multiple_result [OF ok one u] by (elim exE conjE)
  have nz: "kp \<noteq> NULL" using c k by (auto simp: pool_of_def)
  have rng: "page_range kp 1 = {unat (pg_no kp)}" by (auto simp: page_range_def)
  have r: "pg_ofs kp = 0" "unat (pg_no kp) \<in> pool_pages (user_pool (vp (kv s)))" "unat (pg_no kp) \<notin> pages_used (vp (kv s))"
      "pages_used q = insert (unat (pg_no kp)) (pages_used (vp (kv s)))" "pmem q = ram s"
    using c nz by (simp_all add: rng pool_of_def PAL_USER_def PAL_ZERO_def)
  have "frame_table_allocator PAL_USER s = okE (kp, s\<lparr>v_brk := v_brk s + 1, kv := (kv s)\<lparr>vp := q, frame_table := frame_table (kv s) @
      [\<lparr>using_thread = current s, fr_pte = None, fr_kpage = kp, fr_upage = None\<rparr>]\<rparr>\<rparr>)"
    using g(1) nz a by (simp add: frame_table_allocator_def set_pages_def set_frames_def v_alloc_def Let_def)
  moreover have "pool_pages (kernel_pool q) = pool_pages (kernel_pool (vp (kv s)))"
    using get_multiple_pools [OF ok g(1), of False] by (simp add: pool_of_def)
  ultimately show ?thesis using nz r g(2) by blast
qed

lemma set_page_existing:
  assumes wf: "pd_wf pd v" and u: "pg_ofs up = 0" "is_user_vaddr up" and pt: "tbl pd v (unat (pd_no up)) = Some pt"
    and k: "pg_ofs kp = 0" "is_kernel_vaddr kp" "drop_bit PTSHIFT (kp - PHYS_BASE) < ram_pages v" and f: "entry_for pd v up AND PTE_P = 0"
  shows "\<exists>e v'. pagedir_set_page pd up kp w v = okE (True, v') \<and> pte_get_page e = Inr kp \<and> e AND PTE_P \<noteq> 0 \<and>
    pd_update pd v v' (\<lambda>va x. if same_page va up then e else x) \<and>
    (\<forall>x q. pg_ofs q = 0 \<and> q \<noteq> pt \<and> in_block x q PGSIZE \<longrightarrow> pmem (vp v') x = pmem (vp v) x)"
proof -
  obtain e where e: "pte_create_user kp w = Inr e" "pte_get_page e = Inr kp" "e AND PTE_P \<noteq> 0" using pte_get_page_create [OF k(1,2)] by blast
  let ?p = "slot pt (unat (pt_no up))"
  note sl = entry_slot [OF wf u(2) pt]
  have run: "pagedir_set_page pd up kp w v = okE (True, frame_entry_set_pte up kp ?p (write_word ?p e v))"
    using u k pd_wfD(6) [OF wf] sl f e(1) by (simp add: pagedir_set_page_def vtop_def)
  have up: "pd_update pd v (frame_entry_set_pte up kp ?p (write_word ?p e v)) (\<lambda>va x. if same_page va up then e else x)"
    using update_entry [OF wf u(2) pt, of e] e(2) by (simp add: frame_entry_set_pte_def)
  have "pg_ofs pt = 0" using pd_okD(3) [OF pd_wfD(2) [OF wf] user_index [OF u(2)] pt] by (simp add: own_page_def)
  note ib = slot_in_block [OF this pt_index]
  have "set_word ?p e (pmem (vp v)) x = pmem (vp v) x" if q: "pg_ofs q = 0" "q \<noteq> pt" "in_block x q PGSIZE" for x q
  proof -
    have "x \<noteq> ?p + of_nat j" if "j < 4" for j using ib [OF q(1) that, of up] q(2,3) by auto
    from this [of 0] this [of 1] this [of 2] this [of 3] show ?thesis by (simp add: set_word_def)
  qed
  then show ?thesis using run up e(2,3) by (auto simp: frame_entry_set_pte_def write_word_def)
qed

lemma user_page_byte:
  assumes "pg_ofs up = 0" "is_user_vaddr up" "k < 4096"
  shows "same_page (up + of_nat k) up" "is_user_vaddr (up + of_nat k)" "pg_ofs (up + of_nat k) = of_nat k"
proof -
  have u: "unat (up + of_nat k) = unat up + k"
    using page_no_bound [OF assms(1)] assms(3) by (simp add: unat_word_ariths unat_of_nat)
  have r: "pg_round_down (up + of_nat k) = up" "unat (pg_ofs (up + of_nat k)) = k" by (rule in_page [OF assms(1) u assms(3)])+
  then show "pg_ofs (up + of_nat k) = of_nat k" using assms(3) by (simp add: word_unat_eq_iff unat_of_nat)
  have "pg_round_down up = up" using in_page(1) [OF assms(1), of up 0] by simp
  then show "same_page (up + of_nat k) up" using r(1) by (simp add: same_page_def)
  have b: "unat up = 4096 * unat (pg_no up)" by (rule base_address [OF assms(1)])
  have "4096 * unat (pg_no up) < 4096 * 786432" using assms(2) b by (simp add: is_user_vaddr_def PHYS_BASE_def word_less_nat_alt)
  then have "unat (pg_no up) + 1 \<le> 786432" by simp
  then have "unat up + 4096 \<le> 0xc0000000" using b by simp
  then show "is_user_vaddr (up + of_nat k)" using u assms(3) by (simp add: is_user_vaddr_def PHYS_BASE_def word_less_nat_alt)
qed

text \<open>The pages of the user pool are frames that exist.\<close>

definition user_frames :: "vms \<Rightarrow> bool" where
  "user_frames s \<longleftrightarrow> (\<forall>k \<in> pool_pages (user_pool (vp (kv s))). 0xc0000 \<le> k \<and> k < 0xc0000 + unat (ram_pages (kv s)))"

lemma frame_address:
  assumes "pg_ofs kp = 0" "0xc0000 \<le> unat (pg_no kp)" "unat (pg_no kp) < 0xc0000 + unat (r :: u32)"
  shows "is_kernel_vaddr kp" "drop_bit PTSHIFT (kp - PHYS_BASE) < r"
proof -
  have b: "unat kp = 4096 * unat (pg_no kp)" by (rule base_address [OF assms(1)])
  then have "0xc0000000 \<le> unat kp" using assms(2) by simp
  then show k: "is_kernel_vaddr kp" by (simp add: is_kernel_vaddr_def PHYS_BASE_def word_le_nat_alt)
  have "unat (kp - PHYS_BASE) = unat kp - 0xc0000000" using k by (simp add: unat_sub is_kernel_vaddr_def PHYS_BASE_def)
  then have "unat (drop_bit PTSHIFT (kp - PHYS_BASE)) = unat (pg_no kp) - 0xc0000"
    unfolding b PTSHIFT_def PGBITS_def by (simp add: drop_bit_eq_div unat_div)
  then show "drop_bit PTSHIFT (kp - PHYS_BASE) < r" using assms(2,3) by (simp add: word_less_nat_alt)
qed

lemma filled_frame:
  fixes ft :: "frame_entry list"
  assumes wf: "pd_wf pd v" and kp: "pg_ofs kp = 0" "unat (pg_no kp) \<notin> pages_used (vp v)"
    and q: "pages_used q = insert (unat (pg_no kp)) (pages_used (vp v))" "pages_ok q" "pool_pages (kernel_pool q) = pool_pages (kernel_pool (vp v))"
    and m: "\<forall>x. \<not> in_block x kp PGSIZE \<longrightarrow> m x = pmem (vp v) x"
  defines "v' \<equiv> v\<lparr>vp := q\<lparr>pmem := m\<rparr>, frame_table := ft\<rparr>"
  shows "pd_wf pd v'" "is_user_vaddr va \<Longrightarrow> entry_for pd v' va = entry_for pd v va" "i < 768 \<Longrightarrow> tbl pd v' i = tbl pd v i"
    "kp \<notin> pd_pages pd v"
proof -
  have pg: "a \<noteq> kp \<and> pg_ofs a = 0 \<and> own_page a v" if "a \<in> pd_pages pd v" for a
    using pd_pages_own [OF pd_wfD(2) [OF wf] that] kp(2) by (auto simp: own_page_def)
  show "kp \<notin> pd_pages pd v" using pg by blast
  have own: "\<forall>a \<in> pd_pages pd v. own_page a v'" using pg q(1) by (auto simp: own_page_def v'_def pages_used_def)
  have ok: "vm_ok v'" "base_page_dir v' = base_page_dir v" "cr3 v' = cr3 v"
    using pd_wfD(1) [OF wf] q(2,3) by (simp_all add: vm_ok_def v'_def pages_ok_def)
  have w: "\<forall>a \<in> pd_pages pd v. \<forall>i < 1024. read_word (slot a i) v' = read_word (slot a i) v"
    using changed_words [OF _ _ kp(1) _ m] pg by (simp add: read_word_def v'_def)
  show "pd_wf pd v'" "is_user_vaddr va \<Longrightarrow> entry_for pd v' va = entry_for pd v va" "i < 768 \<Longrightarrow> tbl pd v' i = tbl pd v i"
    using frame_wf [OF wf own ok w] by blast+
qed

lemma swap_in_spec:
  assumes wf: "pd_wf pd (kv s)" and pd: "pd = pagedir (cur_proc s)"
    and e: "sup_entries s p = Some e" "upage e = up" "swap_address e = Some n" "swap_entries s n = Some se"
    and d: "swap_sectors s = Some d" "\<forall>i < 8. first_sec_no se + of_nat i < swap_size s \<and> first_sec_no se + of_nat i < push_bit 28 1 \<and> length (d (first_sec_no se + of_nat i)) = 512"
    and u: "pg_ofs up = 0" "is_user_vaddr up" "tbl pd (kv s) (unat (pd_no up)) = Some pt" "entry_for pd (kv s) up AND PTE_P = 0"
    and k: "k \<in> pool_pages (user_pool (vp (kv s)))" "k \<notin> pages_used (vp (kv s))" and a: "v_allocs s (v_brk s)" and uf: "user_frames s"
  shows "\<exists>kp s'. swap_in p w s = okE s' \<and> pd_wf pd (kv s') \<and> swap_sectors s' = Some d \<and>
    swap_entries s' = (swap_entries s)(n \<mapsto> se\<lparr>is_used := False\<rparr>) \<and>
    (\<forall>va. is_user_vaddr va \<and> \<not> same_page va up \<longrightarrow> entry_for pd (kv s') va = entry_for pd (kv s) va) \<and>
    (\<forall>k < 4096. pagedir_get_page pd (up + of_nat k) (kv s') = okE (kp + of_nat k, kv s') \<and>
       ram s' (kp + of_nat k) = d (first_sec_no se + of_nat (k div 512)) ! (k mod 512))"
proof -
  have po: "pages_ok (vp (kv s))" using pd_wfD(1) [OF wf] by (simp add: vm_ok_def)
  obtain kp q where al: "frame_table_allocator PAL_USER s = okE (kp, s\<lparr>v_brk := v_brk s + 1, kv := (kv s)\<lparr>vp := q, frame_table := frame_table (kv s) @
      [\<lparr>using_thread = current s, fr_pte = None, fr_kpage = kp, fr_upage = None\<rparr>]\<rparr>\<rparr>)"
    and kp: "kp \<noteq> NULL" "pg_ofs kp = 0" "unat (pg_no kp) \<in> pool_pages (user_pool (vp (kv s)))" "unat (pg_no kp) \<notin> pages_used (vp (kv s))"
    and q: "pages_used q = insert (unat (pg_no kp)) (pages_used (vp (kv s)))" "pmem q = ram s" "pages_ok q"
      "pool_pages (kernel_pool q) = pool_pages (kernel_pool (vp (kv s)))"
    using allocator_free [OF po k a] by (elim exE conjE)
  define ft where "ft = frame_table (kv s) @ [\<lparr>using_thread = current s, fr_pte = None, fr_kpage = kp, fr_upage = None\<rparr>]"
  define s2 where "s2 = s\<lparr>v_brk := v_brk s + 1, kv := (kv s)\<lparr>vp := q, frame_table := ft\<rparr>\<rparr>"
  define m where "m = (\<lambda>x. let k = unat (x - kp) in if k < 4096 then d (first_sec_no se + of_nat (k div 512)) ! (k mod 512) else ram s2 x)"
  have f2: "swap_sectors s2 = Some d" "swap_size s2 = swap_size s" "ram s2 = ram s" using d(1) q(2) by (simp_all add: s2_def)
  then have rd: "read_sectors (first_sec_no se) kp [0..<8] s2 = Inr (set_ram m s2)"
    using read_sectors_result [of s2 d 8 "first_sec_no se" kp] d(2) by (simp add: m_def Let_def)
  define s3 where "s3 = set_entry p (e\<lparr>fault_case := Some CASE_ZERO\<rparr>)
    ((set_ram m s2)\<lparr>swap_entries := (swap_entries s)(n \<mapsto> se\<lparr>is_used := False\<rparr>)\<rparr>)"
  define v3 where "v3 = (kv s)\<lparr>vp := q\<lparr>pmem := m\<rparr>, frame_table := ft\<rparr>"
  have kv3: "kv s3 = v3" "cur_proc s3 = cur_proc s" "sup_entries s3 p = Some (e\<lparr>fault_case := Some CASE_ZERO\<rparr>)"
    by (simp_all add: s3_def set_entry_def set_ram_def s2_def v3_def cur_proc_def)
  have "\<not> in_block x kp PGSIZE \<Longrightarrow> m x = ram s x" for x by (simp add: m_def f2(3) in_block_def word_less_nat_alt PGSIZE_eq Let_def)
  then have mo: "\<forall>x. \<not> in_block x kp PGSIZE \<longrightarrow> m x = pmem (vp (kv s)) x" by blast
  note ff = filled_frame(1-3) [where ft = ft, OF wf kp(2,4) q(1,3,4) mo, folded v3_def] filled_frame(4) [OF wf kp(2,4) q(1,3,4) mo]
  have ka: "is_kernel_vaddr kp" "drop_bit PTSHIFT (kp - PHYS_BASE) < ram_pages v3"
    using frame_address [OF kp(2), of "ram_pages v3"] uf kp(3) by (auto simp: user_frames_def v3_def)
  have t3: "tbl pd v3 (unat (pd_no up)) = Some pt" "entry_for pd v3 up AND PTE_P = 0"
    using ff(2) [OF u(2)] ff(3) [OF user_index [OF u(2)]] u(3,4) by simp_all
  have "pt \<in> pd_pages pd (kv s)" using u(3) user_index [OF u(2)] by (auto simp: pd_pages_def)
  then have ne: "kp \<noteq> pt" using ff(4) by blast
  obtain e' v4 where v4: "pagedir_set_page pd up kp w v3 = okE (True, v4)" "pte_get_page e' = Inr kp" "e' AND PTE_P \<noteq> 0"
      "pd_update pd v3 v4 (\<lambda>va x. if same_page va up then e' else x)"
      "\<forall>x q. pg_ofs q = 0 \<and> q \<noteq> pt \<and> in_block x q PGSIZE \<longrightarrow> pmem (vp v4) x = pmem (vp v3) x"
    using set_page_existing [OF ff(1) u(1,2) t3(1) kp(2) ka t3(2), of w] by blast
  have run: "swap_in p w s = okE (s3\<lparr>kv := v4\<rparr>)"
    using al kp(1) e d(1) rd v4(1) kv3 pd
    by (simp add: swap_in_def get_entry_def get_swap_def set_used_def flip: ft_def s2_def)
      (simp add: s2_def s3_def set_entry_def set_ram_def ex_bool_eq)
  have wf4: "pd_wf pd v4" and en4: "\<forall>va. is_user_vaddr va \<longrightarrow> entry_for pd v4 va = (if same_page va up then e' else entry_for pd v3 va)"
    using v4(4) by (simp_all add: pd_update_def)
  have get: "pagedir_get_page pd (up + of_nat j) v4 = okE (kp + of_nat j, v4) \<and>
      pmem (vp v4) (kp + of_nat j) = d (first_sec_no se + of_nat (j div 512)) ! (j mod 512)" if j: "j < 4096" for j
  proof -
    note b = user_page_byte [OF u(1,2) j]
    have "entry_for pd v4 (up + of_nat j) = e'" using en4 b by simp
    then have g: "pagedir_get_page pd (up + of_nat j) v4 = okE (kp + of_nat j, v4)"
      using get_page_result(2) [OF wf4 b(2)] v4(2,3) b(3) by simp
    have jj: "unat (of_nat j :: u32) = j" using j by (simp add: unat_of_nat)
    then have "in_block (kp + of_nat j) kp PGSIZE" using j by (simp add: in_block_def word_less_nat_alt PGSIZE_eq)
    then have "pmem (vp v4) (kp + of_nat j) = pmem (vp v3) (kp + of_nat j)" using v4(5) kp(2) ne by blast
    then have "pmem (vp v4) (kp + of_nat j) = m (kp + of_nat j)" by (simp add: v3_def)
    then show ?thesis using g j jj by (simp add: m_def Let_def)
  qed
  have "swap_sectors (s3\<lparr>kv := v4\<rparr>) = Some d" "swap_entries (s3\<lparr>kv := v4\<rparr>) = (swap_entries s)(n \<mapsto> se\<lparr>is_used := False\<rparr>)"
    using d(1) by (simp_all add: s3_def set_entry_def set_ram_def s2_def)
  then show ?thesis using run wf4 en4 ff(2) get by (intro exI [of _ kp] exI [of _ "s3\<lparr>kv := v4\<rparr>"]) auto
qed

section \<open>The slots of the swap disk\<close>

lemma swap_init_loop_result:
  assumes "unat i = 8 * k" "8 * k < unat (swap_size s) + 8" "unat (swap_size s) \<le> 2 ^ 32 - 8" "\<forall>n. v_allocs s n"
  shows "\<exists>s'. swap_init_loop i s = okE s' \<and> swap_sectors s' = swap_sectors s \<and>
    (\<exists>ns. swap_table s' = swap_table s @ ns \<and> distinct ns \<and> (\<forall>n \<in> set ns. v_brk s \<le> n) \<and>
      (\<forall>n. n < v_brk s \<longrightarrow> swap_entries s' n = swap_entries s n) \<and>
      map (swap_entries s') ns = map (\<lambda>j. Some \<lparr>is_used = False, first_sec_no = of_nat (8 * j)\<rparr>) [k..<(unat (swap_size s) + 7) div 8])"
  using assms
proof (induction "(unat (swap_size s) + 7) div 8 - k" arbitrary: i k s)
  case 0
  then have "\<not> i < swap_size s" by (simp add: word_less_nat_alt)
  moreover have "[k..<(unat (swap_size s) + 7) div 8] = []" using 0 by simp
  ultimately show ?case by (subst swap_init_loop.simps) simp
next
  case (Suc x)
  have lt: "8 * k < unat (swap_size s)" using Suc.hyps(2) by linarith
  define s1 where "s1 = s\<lparr>v_brk := v_brk s + 1, swap_entries := (swap_entries s)(v_brk s \<mapsto> \<lparr>is_used = False, first_sec_no = i\<rparr>),
    swap_table := swap_table s @ [v_brk s]\<rparr>"
  have f1: "swap_size s1 = swap_size s" "v_brk s1 = v_brk s + 1" "swap_sectors s1 = swap_sectors s" "v_allocs s1 = v_allocs s"
    "swap_table s1 = swap_table s @ [v_brk s]" "swap_entries s1 = (swap_entries s)(v_brk s \<mapsto> \<lparr>is_used = False, first_sec_no = i\<rparr>)"
    by (simp_all add: s1_def)
  have i8: "unat (i + 8) = 8 * Suc k" using Suc.prems(1,3) lt by (simp add: unat_word_ariths)
  have IH: "\<exists>s'. swap_init_loop (i + 8) s1 = okE s' \<and> swap_sectors s' = swap_sectors s1 \<and>
    (\<exists>ns. swap_table s' = swap_table s1 @ ns \<and> distinct ns \<and> (\<forall>n \<in> set ns. v_brk s1 \<le> n) \<and>
      (\<forall>n. n < v_brk s1 \<longrightarrow> swap_entries s' n = swap_entries s1 n) \<and>
      map (swap_entries s') ns = map (\<lambda>j. Some \<lparr>is_used = False, first_sec_no = of_nat (8 * j)\<rparr>) [Suc k..<(unat (swap_size s1) + 7) div 8])"
    by (rule Suc.hyps(1)) (use Suc.hyps(2) Suc.prems lt i8 f1 in simp_all)
  then obtain s' ns where s': "swap_init_loop (i + 8) s1 = okE s'" "swap_sectors s' = swap_sectors s1" "swap_table s' = swap_table s1 @ ns"
      "distinct ns" "\<forall>n \<in> set ns. v_brk s1 \<le> n" "\<forall>n. n < v_brk s1 \<longrightarrow> swap_entries s' n = swap_entries s1 n"
      "map (swap_entries s') ns = map (\<lambda>j. Some \<lparr>is_used = False, first_sec_no = of_nat (8 * j)\<rparr>) [Suc k..<(unat (swap_size s1) + 7) div 8]"
    by (elim exE conjE)
  have i: "i = of_nat (8 * k)" using Suc.prems(1) by (metis of_nat_unat ucast_id)
  have "i < swap_size s" using lt Suc.prems(1) by (simp add: word_less_nat_alt)
  then have run: "swap_init_loop i s = okE s'" using s'(1) Suc.prems(4)
    by (subst swap_init_loop.simps) (simp add: v_alloc_def s1_def)
  have up: "[k..<(unat (swap_size s) + 7) div 8] = k # [Suc k..<(unat (swap_size s) + 7) div 8]"
    using Suc.hyps(2) by (simp add: upt_conv_Cons)
  have "map (swap_entries s') (v_brk s # ns) = map (\<lambda>j. Some \<lparr>is_used = False, first_sec_no = of_nat (8 * j)\<rparr>) [k..<(unat (swap_size s) + 7) div 8]"
    using s'(6,7) f1 i unfolding up by simp
  moreover have "distinct (v_brk s # ns)" "\<forall>n \<in> set (v_brk s # ns). v_brk s \<le> n" "\<forall>n. n < v_brk s \<longrightarrow> swap_entries s' n = swap_entries s n"
    using s'(4-6) f1 by auto
  moreover have "swap_table s' = swap_table s @ (v_brk s # ns)" using s'(3) f1 by simp
  ultimately show ?case using run s'(2) f1 by metis
qed

section \<open>The properties\<close>

text \<open>
  C10. A page that is written to the swap disk can be read back: for a frame that holds a page of
  the running thread, and when a slot and kernel memory are free, \<^verbatim>\<open>swap_out\<close> returns and leaves the
  page untranslated, and \<^verbatim>\<open>swap_in\<close> of its entry then returns with every address of the page
  translated to a frame that holds the bytes the first frame held. The slot is free again, and no
  other page of the process changes its translation.
\<close>

theorem swap_roundtrip:
  assumes res: "resident f up p s" and cur: "using_thread f = current s" and sw: "swap_ok s" and uf: "user_frames s"
    and free: "\<exists>n \<in> set (swap_table s). \<exists>se. swap_entries s n = Some se \<and> \<not> is_used se" and mem: "v_allocs s (v_brk s)"
  shows "\<exists>s1 s2 kp. swap_out f s = okE s1 \<and> swap_in p writable s1 = okE s2 \<and>
    (\<forall>k < 4096. pagedir_get_page (pagedir (cur_proc s)) (up + of_nat k) (kv s1) = okE (NULL, kv s1) \<and>
       pagedir_get_page (pagedir (cur_proc s)) (up + of_nat k) (kv s2) = okE (kp + of_nat k, kv s2) \<and>
       ram s2 (kp + of_nat k) = ram s (fr_kpage f + of_nat k)) \<and>
    swap_entries s2 = swap_entries s \<and> pd_wf (pagedir (cur_proc s)) (kv s2) \<and>
    (\<forall>va. is_user_vaddr va \<and> \<not> same_page va up \<longrightarrow>
       entry_for (pagedir (cur_proc s)) (kv s2) va = entry_for (pagedir (cur_proc s)) (kv s) va)"
proof -
  define pd where "pd = pagedir (cur_proc s)"
  have pd': "pagedir (procs s (using_thread f)) = pd" by (simp add: pd_def cur_proc_def cur)
  have rs: "pg_ofs up = 0" "is_user_vaddr up" "pg_ofs (fr_kpage f) = 0" "unat (pg_no (fr_kpage f)) \<in> pool_pages (user_pool (vp (kv s)))"
    using res pool_used_sub by (auto simp: resident_def)
  obtain e where e: "sup_entries s p = Some e" "upage e = up" using resident_lookup(2) [OF res] by blast
  obtain n se d v q c where out: "swap_out f s = okE (s\<lparr>swap_sectors := Some d, swap_entries := (swap_entries s)(n \<mapsto> se\<lparr>is_used := True\<rparr>),
      sup_entries := (sup_entries s)(p \<mapsto> e\<lparr>swap_address := Some n, fault_case := Some CASE_SWAP\<rparr>), kv := v\<rparr>)"
    and n: "n \<in> set (swap_table s)" "swap_entries s n = Some se" "\<not> is_used se"
    and d: "\<forall>x. d x = (if unat (x - first_sec_no se) < 8 then mem_bytes (fr_kpage f + 512 * (x - first_sec_no se)) 512 (ram s) else the (swap_sectors s) x)"
    and v: "pd_wf pd v" "tbl pd v (unat (pd_no up)) \<noteq> None"
      "\<forall>va. is_user_vaddr va \<longrightarrow> entry_for pd v va = (if same_page va up then entry_for pd (kv s) va AND NOT PTE_P else entry_for pd (kv s) va)"
      "unat (pg_no (fr_kpage f)) \<notin> pages_used (vp v)" "\<forall>u. pool_pages (pool_of u (vp v)) = pool_pages (pool_of u (vp (kv s)))"
      "v = (kv s)\<lparr>vp := q, cr3 := c\<rparr>"
    using swap_out_spec [OF res sw e(1) free] unfolding pd' by (elim exE conjE)
  define s1 where "s1 = s\<lparr>swap_sectors := Some d, swap_entries := (swap_entries s)(n \<mapsto> se\<lparr>is_used := True\<rparr>),
      sup_entries := (sup_entries s)(p \<mapsto> e\<lparr>swap_address := Some n, fault_case := Some CASE_SWAP\<rparr>), kv := v\<rparr>"
  have f1: "kv s1 = v" "cur_proc s1 = cur_proc s" "sup_entries s1 p = Some (e\<lparr>swap_address := Some n, fault_case := Some CASE_SWAP\<rparr>)"
      "swap_entries s1 n = Some (se\<lparr>is_used := True\<rparr>)" "swap_sectors s1 = Some d" "swap_size s1 = swap_size s" "v_allocs s1 (v_brk s1)"
    using mem by (simp_all add: s1_def cur_proc_def)
  have pu: "pool_pages (user_pool (vp v)) = pool_pages (user_pool (vp (kv s)))" using v(5) [rule_format, of True] by (simp add: pool_of_def)
  have uf1: "user_frames s1" using uf v(6) pu by (auto simp: user_frames_def f1(1))
  have sec: "d (first_sec_no se + of_nat i) = mem_bytes (fr_kpage f + 512 * of_nat i) 512 (ram s)" if "i < 8" for i
    using d that by (simp add: unat_of_nat)
  have bounds: "\<forall>i < 8. first_sec_no (se\<lparr>is_used := True\<rparr>) + of_nat i < swap_size s1 \<and> first_sec_no (se\<lparr>is_used := True\<rparr>) + of_nat i < push_bit 28 1 \<and>
      length (d (first_sec_no (se\<lparr>is_used := True\<rparr>) + of_nat i)) = 512"
    using slot_sectors [OF sw n(1,2)] sec f1(6) by simp
  obtain pt where pt: "tbl pd (kv s1) (unat (pd_no up)) = Some pt" using v(2) f1(1) by auto
  have z: "(x AND NOT PTE_P) AND PTE_P = 0" for x :: u32 by (simp add: PTE_P_def and.assoc)
  have np: "entry_for pd (kv s1) va AND PTE_P = 0" if "is_user_vaddr va" "same_page va up" for va using v(3) that z by (simp add: f1(1))
  obtain kp s2 where s2: "swap_in p writable s1 = okE s2" "pd_wf pd (kv s2)" "swap_sectors s2 = Some d"
      "swap_entries s2 = (swap_entries s1)(n \<mapsto> se\<lparr>is_used := True\<rparr>\<lparr>is_used := False\<rparr>)"
      "\<forall>va. is_user_vaddr va \<and> \<not> same_page va up \<longrightarrow> entry_for pd (kv s2) va = entry_for pd (kv s1) va"
      "\<forall>k < 4096. pagedir_get_page pd (up + of_nat k) (kv s2) = okE (kp + of_nat k, kv s2) \<and>
         ram s2 (kp + of_nat k) = d (first_sec_no (se\<lparr>is_used := True\<rparr>) + of_nat (k div 512)) ! (k mod 512)"
    using swap_in_spec [OF _ _ f1(3) _ _ f1(4,5) bounds rs(1,2) pt np [OF rs(2) same_page_refl], of "unat (pg_no (fr_kpage f))" writable]
      v(1,4) f1(1,2,7) pd_def e(2) rs(4) pu uf1 by (simp, blast)
  have same: "swap_entries s2 = swap_entries s" using s2(4) n(2,3) by (simp add: s1_def fun_eq_iff)
  have bytes: "pagedir_get_page pd (up + of_nat k) (kv s1) = okE (NULL, kv s1) \<and>
       pagedir_get_page pd (up + of_nat k) (kv s2) = okE (kp + of_nat k, kv s2) \<and>
       ram s2 (kp + of_nat k) = ram s (fr_kpage f + of_nat k)" if k: "k < 4096" for k
  proof -
    note b = user_page_byte [OF rs(1,2) k]
    have "pagedir_get_page pd (up + of_nat k) (kv s1) = okE (NULL, kv s1)"
      using get_page_result(2) [OF _ b(2), of pd "kv s1"] np [OF b(2,1)] v(1) f1(1) by simp
    moreover have "d (first_sec_no se + of_nat (k div 512)) ! (k mod 512) = ram s (fr_kpage f + of_nat k)"
    proof -
      have "k = 512 * (k div 512) + k mod 512" by simp
      then have ofk: "(of_nat k :: u32) = 512 * of_nat (k div 512) + of_nat (k mod 512)" by (metis of_nat_add of_nat_mult of_nat_numeral)
      have "k div 512 < 8" "k mod 512 < 512" using k by simp_all
      then show ?thesis unfolding ofk by (simp only: sec nth_mem_bytes add.assoc)
    qed
    ultimately show ?thesis using s2(6) k by simp
  qed
  have "entry_for pd (kv s2) va = entry_for pd (kv s) va" if "is_user_vaddr va" "\<not> same_page va up" for va
    using s2(5) v(3) that by (simp add: f1(1))
  then show ?thesis using out s2(1,2) same bytes unfolding s1_def pd_def by blast
qed

text \<open>A process whose directory has one table, with one page in memory and one free slot.\<close>

definition demo_tables :: vm where
  "demo_tables = demo_vm\<lparr>vp := \<lparr>kernel_pool = \<lparr>used_map = \<lparr>bit_cnt = 4, bits = [7]\<rparr>, base = 0xc0100000\<rparr>,
     user_pool = \<lparr>used_map = \<lparr>bit_cnt = 4, bits = [1]\<rparr>, base = 0xc0200000\<rparr>,
     pmem = set_word (slot 0xc0101000 32) 0x102007 (\<lambda>_. 0)\<rparr>\<rparr>"

definition demo_swap :: vms where
  "demo_swap = demo_vms\<lparr>kv := demo_tables, swap_table := [100], swap_entries := [100 \<mapsto> \<lparr>is_used = False, first_sec_no = 0\<rparr>],
     swap_sectors := Some (\<lambda>_. replicate 512 0), swap_size := 8\<rparr>"

definition demo_resident :: vms where
  "demo_resident = (case sup_page_entry_create 0x8048000 0xc0200000 None demo_swap of Some (Inr (_, s)) \<Rightarrow> s | _ \<Rightarrow> demo_swap)"

definition demo_frame :: frame_entry where
  "demo_frame = \<lparr>using_thread = 0xc0103000, fr_pte = None, fr_kpage = 0xc0200000, fr_upage = Some 0x8048000\<rparr>"

lemma demo_pages_used: "pages_used (vp demo_tables) = {0xc0100, 0xc0101, 0xc0102, 0xc0200}" "pool_used (user_pool (vp demo_tables)) = {0xc0200}"
proof -
  have l: "used_bits b = set (filter (bit_at b) [0..<unat (bit_cnt b)])" for b by (auto simp: used_bits_def nth_bm_bits)
  have u4: "[0..<4] = [0, 1, 2, 3]" by (simp add: numeral_eq_Suc)
  show u: "pool_used (user_pool (vp demo_tables)) = {0xc0200}"
    by (simp add: demo_tables_def demo_vm_def pool_used_def l u4 bit_at_def bit_numeral_rec pg_no_def vaddr_defs del: set_filter)
  have "pool_used (kernel_pool (vp demo_tables)) = {0xc0100, 0xc0101, 0xc0102}"
    by (simp add: demo_tables_def demo_vm_def pool_used_def l u4 bit_at_def bit_numeral_rec pg_no_def vaddr_defs del: set_filter)
  then show "pages_used (vp demo_tables) = {0xc0100, 0xc0101, 0xc0102, 0xc0200}" using u by (auto simp: pages_used_def)
qed

lemma demo_read:
  assumes "pg_ofs a = 0" "i < 1024"
  shows "read_word (slot a i) demo_tables = (if a = 0xc0101000 \<and> i = 32 then 0x102007 else 0)"
proof -
  have z: "read_word q demo_vm = 0" for q by simp
  have "read_word (slot a i) (write_word (slot 0xc0101000 32) 0x102007 demo_vm) =
      (if a = 0xc0101000 \<and> i = 32 then 0x102007 else read_word (slot a i) demo_vm)"
    by (rule read_write_slot [OF assms(1) _ assms(2)]) (simp_all add: pg_ofs_def vaddr_defs)
  moreover have "read_word (slot a i) demo_tables = read_word (slot a i) (write_word (slot 0xc0101000 32) 0x102007 demo_vm)"
    by (simp add: read_word_def write_word_def demo_tables_def) (simp add: demo_vm_def)
  ultimately show ?thesis using z by simp
qed

lemma demo_table:
  assumes "i < 768"
  shows "tbl 0xc0101000 demo_tables i = (if i = 32 then Some 0xc0102000 else None)"
proof -
  have "pg_ofs 0xc0101000 = 0" by (simp add: pg_ofs_def vaddr_defs)
  then have "read_word (slot 0xc0101000 i) demo_tables = (if i = 32 then 0x102007 else 0)" using demo_read assms by simp
  then show ?thesis by (simp add: tbl_def Let_def pde_get_pt_def PTE_P_def PTE_ADDR_def ptov_def PHYS_BASE_def)
qed

lemma demo_tables_wf: "pd_wf 0xc0101000 demo_tables" "pd_pages 0xc0101000 demo_tables = {0xc0101000, 0xc0102000}"
proof -
  have own: "own_page 0xc0101000 demo_tables" "own_page 0xc0102000 demo_tables"
    by (simp_all add: own_page_def demo_pages_used pg_ofs_def pg_no_def vaddr_defs)
  have ok: "vm_ok demo_tables"
    by (simp add: vm_ok_def demo_tables_def pages_ok_def pool_ok_def pool_pages_def bm_wf_def pg_ofs_def pg_no_def vaddr_defs)
  have "pd_ok 0xc0101000 demo_tables" using own demo_table demo_read [of "0xc0101000"]
    by (auto simp: pd_ok_def pg_ofs_def vaddr_defs split: if_splits)
  moreover have "entry_for 0xc0101000 demo_tables va = 0" if "is_user_vaddr va" for va
  proof (cases "unat (pd_no va) = 32")
    case True
    then show ?thesis using demo_table [OF user_index [OF that]] demo_read [of "0xc0102000" "unat (pt_no va)"] pt_index [of va]
      by (simp add: entry_for_def pg_ofs_def vaddr_defs)
  qed (use demo_table [OF user_index [OF that]] in \<open>simp add: entry_for_def\<close>)
  ultimately show "pd_wf 0xc0101000 demo_tables" using ok
    by (simp add: pd_wf_def frames_ok_def) (simp add: demo_tables_def demo_vm_def is_kernel_vaddr_def PHYS_BASE_def)
  show "pd_pages 0xc0101000 demo_tables = {0xc0101000, 0xc0102000}" using demo_table by (auto simp: pd_pages_def split: if_splits intro: exI [of _ 32])
qed

lemma demo_resident_ok: "resident demo_frame 0x8048000 0 demo_resident" "swap_ok demo_resident" "user_frames demo_resident"
  "v_allocs demo_resident (v_brk demo_resident)" "using_thread demo_frame = current demo_resident"
  "\<exists>n \<in> set (swap_table demo_resident). \<exists>se. swap_entries demo_resident n = Some se \<and> \<not> is_used se"
proof -
  have t: "my_table demo_swap = my_table demo_vms" "sup_entries demo_swap = sup_entries demo_vms" "v_brk demo_swap = 0" "v_allocs demo_swap (v_brk demo_swap)"
    "v_brk demo_vms = 0" by (simp_all add: demo_swap_def cur_proc_def demo_vms_def)
  have ok: "table_ok demo_swap (my_table demo_swap)" using demo_table_ok(1) unfolding table_ok_def t by blast
  have em: "page_map demo_swap (my_table demo_swap) u = {}" for u by (simp add: page_map_def t demo_table_ok(2))
  obtain s' where s': "sup_page_entry_create 0x8048000 0xc0200000 None demo_swap = okE (0, s')" "table_ok s' (my_table s')"
      "page_map s' (my_table s') = (\<lambda>v. if v = 0x8048000 \<and> page_map demo_swap (my_table demo_swap) 0x8048000 = {} then {0} else page_map demo_swap (my_table demo_swap) v)"
      "s' = (set_table (my_table s') demo_swap)\<lparr>sup_entries := sup_entries s', v_brk := v_brk s'\<rparr>"
    using create_spec [OF ok t(4), of "0x8048000" "0xc0200000" None, unfolded t(3)] by (elim exE conjE)
  have d: "demo_resident = s'" by (simp add: demo_resident_def s'(1))
  obtain es h b where s2: "s' = (set_table h demo_swap)\<lparr>sup_entries := es, v_brk := b\<rparr>" using s'(4) by blast
  show "swap_ok demo_resident" "user_frames demo_resident" "v_allocs demo_resident (v_brk demo_resident)"
    "using_thread demo_frame = current demo_resident"
    "\<exists>n \<in> set (swap_table demo_resident). \<exists>se. swap_entries demo_resident n = Some se \<and> \<not> is_used se"
    unfolding d s2 set_table_def by (simp_all add: swap_ok_def user_frames_def demo_swap_def demo_frame_def demo_vms_def)
      (simp_all add: demo_tables_def demo_vm_def pool_pages_def pg_no_def vaddr_defs)
  define pr where "pr = procs demo_resident (current demo_resident)"
  have cur: "current demo_resident = 0xc0103000" "kv demo_resident = demo_tables" unfolding d s2 set_table_def by (simp_all add: demo_swap_def demo_vms_def)
  have pd: "pagedir pr = 0xc0101000" unfolding pr_def d s2 set_table_def by (simp add: demo_swap_def demo_vms_def cur_proc_def)
  have tab: "table_ok demo_resident (sup_page_table pr)" "page_map demo_resident (sup_page_table pr) 0x8048000 = {0}"
    using s'(2,3) em unfolding pr_def d by (simp_all add: cur_proc_def)
  have ix: "unat (pd_no 0x8048000) = 32" by (simp add: unat_pd_no)
  show "resident demo_frame 0x8048000 0 demo_resident"
    using tab pd demo_tables_wf demo_table [of 32] demo_pages_used(2)
    by (simp add: resident_def demo_frame_def ix cur flip: pr_def cur(1))
      (simp add: pg_ofs_def pg_no_def vaddr_defs is_user_vaddr_def cur)
qed

theorem swap_roundtrip_witness:
  "\<exists>s1 s2. swap_out demo_frame demo_resident = okE s1 \<and> swap_in 0 True s1 = okE s2 \<and> swap_entries s2 = swap_entries demo_resident"
  using swap_roundtrip [OF demo_resident_ok(1,5,2,3,6,4), of True] by blast

text \<open>
  C13. \<^verbatim>\<open>swap_init\<close> ends on every disk whose size is at least eight sectors below the range of a sector
  number, when there is memory for the slots: it makes one unused slot for each group of eight
  sectors that the disk begins, in order.
\<close>

theorem swap_init_terminates:
  assumes "swap_sectors s \<noteq> None" "unat (swap_size s) \<le> 2 ^ 32 - 8" "\<forall>n. v_allocs s n"
  shows "\<exists>s'. swap_init s = okE s' \<and> distinct (swap_table s') \<and>
    map (swap_entries s') (swap_table s') =
      map (\<lambda>j. Some \<lparr>is_used = False, first_sec_no = of_nat (8 * j)\<rparr>) [0..<(unat (swap_size s) + 7) div 8]"
proof -
  obtain s' ns where "swap_init_loop 0 (s\<lparr>swap_table := []\<rparr>) = okE s'" "swap_table s' = ns" "distinct ns"
      "map (swap_entries s') ns = map (\<lambda>j. Some \<lparr>is_used = False, first_sec_no = of_nat (8 * j)\<rparr>) [0..<(unat (swap_size s) + 7) div 8]"
    using swap_init_loop_result [of 0 0 "s\<lparr>swap_table := []\<rparr>"] assms by auto
  then show ?thesis using assms(1) by (auto simp: swap_init_def)
qed

theorem swap_init_terminates_witness:
  "\<exists>s'. swap_init demo_swap = okE s' \<and> map (swap_entries s') (swap_table s') = [Some \<lparr>is_used = False, first_sec_no = 0\<rparr>]"
  using swap_init_terminates [of demo_swap] by (auto simp: demo_swap_def demo_vms_def)

end
