(* ===== verification/Kprocess.thy ===== *)
theory Kprocess
  imports Kframe_Props
begin

text \<open>
  \<^verbatim>\<open>userprog/process.c\<close>: passing the arguments of a program on its stack, installing pages, the
  checks on the segments of an executable and loading them page by page. Passing the arguments works on the bytes
  of the address space; the other functions on the state of the virtual memory system. Program headers are
  decoded from the bytes of the file. The lemmas give the layout of the stack that \<^verbatim>\<open>push_argument\<close>
  leaves and the range of pages that a valid segment is loaded to.
\<close>

section \<open>Arguments\<close>

definition MAX_CMD_SIZE :: nat where "MAX_CMD_SIZE = 256"

text \<open>
  The pointers \<^verbatim>\<open>arguments[0], arguments[1], ...\<close> are a list; its array has room for 128, and the next one
  is written behind it.
\<close>

partial_function (option) tokens_loop :: "ptr \<Rightarrow> ptr \<Rightarrow> ptr \<Rightarrow> ptr list \<Rightarrow> bmem \<Rightarrow> (ptr list \<times> bmem) exec" where
  "tokens_loop s delim save_ptr arguments m = bindE (strtok_r s delim save_ptr m) (\<lambda>r.
     let token = fst r; save_ptr = fst (snd r); m = snd (snd r) in
     if token = NULL then okE (arguments, m)
     else if length arguments \<ge> 128 then Some (Inl Bad_access)
     else tokens_loop NULL delim save_ptr (arguments @ [token]) m)"

fun push_strings :: "ptr list \<Rightarrow> ptr \<Rightarrow> u32 \<Rightarrow> bmem \<Rightarrow> (ptr list \<times> ptr \<times> u32 \<times> bmem) exec" where
  "push_strings [] new_esp written_bytes m = okE ([], new_esp, written_bytes, m)"
| "push_strings (a # as) new_esp written_bytes m = bindE (strlen a m) (\<lambda>n.
     let new_esp = new_esp - (n + 1); written_bytes = written_bytes + (n + 1) in
     bindE (Some (memcpy new_esp a n m)) (\<lambda>(_, m).
     bindE (push_strings as new_esp written_bytes m) (\<lambda>(addresses, e, w, m). okE (new_esp # addresses, e, w, m))))"

definition push_word :: "u32 \<Rightarrow> ptr \<Rightarrow> bmem \<Rightarrow> (ptr \<times> bmem) res" where
  "push_word w new_esp m = (let new_esp = new_esp - 4 in require (new_esp \<noteq> NULL) (Inr (new_esp, set_word new_esp w m)))"

fun push_words :: "u32 list \<Rightarrow> ptr \<Rightarrow> bmem \<Rightarrow> (ptr \<times> bmem) res" where
  "push_words [] new_esp m = Inr (new_esp, m)"
| "push_words (w # ws) new_esp m = bindR (push_word w new_esp m) (\<lambda>(e, m). push_words ws e m)"

definition push_argument :: "ptr \<Rightarrow> ptr \<Rightarrow> ptr \<Rightarrow> bmem \<Rightarrow> (ptr \<times> bmem) exec" where
  "push_argument file_name delim esp m =
     bindE (tokens_loop file_name delim NULL [] m) (\<lambda>(arguments, m).
     bindE (push_strings (rev arguments) esp 0 m) (\<lambda>(addresses, new_esp, written_bytes, m).
     let num_padding = (4 - written_bytes mod 4) mod 4; new_esp = new_esp - (num_padding + 4) in
     bindE (Some (push_words addresses new_esp m)) (\<lambda>(new_esp, m).
     bindE (Some (push_word new_esp new_esp m)) (\<lambda>(new_esp, m).
     bindE (Some (push_word (of_nat (length arguments)) new_esp m)) (\<lambda>(new_esp, m).
     okE (new_esp - 4, m))))))"

section \<open>Pages of a process\<close>

definition install_page :: "ptr \<Rightarrow> ptr \<Rightarrow> bool \<Rightarrow> vms \<Rightarrow> (bool \<times> vms) exec" where
  "install_page up kp writable s = bindE (pagedir_get_page (pagedir (cur_proc s)) up (kv s)) (\<lambda>(page, v).
     if page = NULL
     then bindE (pagedir_set_page (pagedir (cur_proc s)) up kp writable v) (\<lambda>(r, v). okE (r, s\<lparr>kv := v\<rparr>))
     else okE (False, s\<lparr>kv := v\<rparr>))"

partial_function (option) load_segment_loop :: "nat \<Rightarrow> ptr \<Rightarrow> u32 \<Rightarrow> u32 \<Rightarrow> bool \<Rightarrow> vms \<Rightarrow> (bool \<times> vms) exec" where
  "load_segment_loop f up read_bytes zero_bytes writable s =
     (if read_bytes > 0 \<or> zero_bytes > 0
      then let page_read_bytes = (if read_bytes < PGSIZE then read_bytes else PGSIZE);
               page_zero_bytes = PGSIZE - page_read_bytes in
        bindE (frame_table_allocator PAL_USER s) (\<lambda>r. let kp = fst r; s = snd r in
        if kp = NULL then okE (False, s)
        else bindE (Some (file_read f (sint page_read_bytes) (vfs s))) (\<lambda>r.
          let bs = fst r; s = set_ram (mem_store kp bs (ram s)) (s\<lparr>vfs := snd r\<rparr>) in
          if int (length bs) \<noteq> sint page_read_bytes
          then bindE (Some (frame_table_free kp s)) (\<lambda>s. okE (False, s))
          else bindE (Some (memset (kp + page_read_bytes) 0 page_zero_bytes (ram s))) (\<lambda>r.
            bindE (install_page up kp writable (set_ram (snd r) s)) (\<lambda>r. let s = snd r in
            if \<not> fst r then bindE (Some (frame_table_free kp s)) (\<lambda>s. okE (False, s))
            else bindE (sup_page_entry_create up kp None s) (\<lambda>r.
              load_segment_loop f (up + PGSIZE) (read_bytes - page_read_bytes) (zero_bytes - page_zero_bytes) writable (snd r))))))
      else okE (True, s))"

definition load_segment :: "nat \<Rightarrow> int \<Rightarrow> ptr \<Rightarrow> u32 \<Rightarrow> u32 \<Rightarrow> bool \<Rightarrow> vms \<Rightarrow> (bool \<times> vms) exec" where
  "load_segment f ofs up read_bytes zero_bytes writable s =
     requireE ((read_bytes + zero_bytes) mod PGSIZE = 0) (requireE (pg_ofs up = 0) (requireE (word_of_int ofs mod PGSIZE = 0)
     (bindE (Some (file_seek (Some f) ofs (vfs s))) (\<lambda>fs.
      load_segment_loop f up read_bytes zero_bytes writable (s\<lparr>vfs := fs\<rparr>)))))"

definition grow_stack :: "ptr \<Rightarrow> vms \<Rightarrow> (bool \<times> vms) exec" where
  "grow_stack esp s = bindE (frame_table_allocator (PAL_USER OR PAL_ZERO) s) (\<lambda>(kp, s).
     if kp \<noteq> NULL
     then bindE (install_page (esp - PGSIZE) kp True s) (\<lambda>(success, s).
       if success then bindE (sup_page_entry_create (esp - PGSIZE) kp None s) (\<lambda>(_, s). okE (True, s))
       else bindE (Some (frame_table_free kp s)) (\<lambda>s. okE (False, s)))
     else okE (False, s))"

section \<open>Executables\<close>

record Elf32_Phdr =
  p_type :: u32
  p_offset :: u32
  p_vaddr :: ptr
  p_paddr :: ptr
  p_filesz :: u32
  p_memsz :: u32
  p_flags :: u32
  p_align :: u32

definition word_in :: "u8 list \<Rightarrow> nat \<Rightarrow> u32" where
  "word_in bs k = bytes_int (take 4 (drop k bs))"

definition bytes_phdr :: "u8 list \<Rightarrow> Elf32_Phdr" where
  "bytes_phdr bs = \<lparr>p_type = word_in bs 0, p_offset = word_in bs 4, p_vaddr = word_in bs 8, p_paddr = word_in bs 12,
     p_filesz = word_in bs 16, p_memsz = word_in bs 20, p_flags = word_in bs 24, p_align = word_in bs 28\<rparr>"

definition PT_LOAD :: u32 where "PT_LOAD = 1"
definition PT_DYNAMIC :: u32 where "PT_DYNAMIC = 2"
definition PT_INTERP :: u32 where "PT_INTERP = 3"
definition PT_SHLIB :: u32 where "PT_SHLIB = 5"

definition validate_segment :: "Elf32_Phdr \<Rightarrow> nat \<Rightarrow> fsys \<Rightarrow> bool res" where
  "validate_segment phdr f fs = (if p_offset phdr AND PGMASK \<noteq> p_vaddr phdr AND PGMASK then Inr False
     else bindR (file_length (Some f) fs) (\<lambda>len.
       if p_offset phdr > word_of_int len then Inr False
       else if p_memsz phdr < p_filesz phdr then Inr False
       else if p_memsz phdr = 0 then Inr False
       else if \<not> is_user_vaddr (p_vaddr phdr) then Inr False
       else if \<not> is_user_vaddr (p_vaddr phdr + p_memsz phdr) then Inr False
       else if p_vaddr phdr + p_memsz phdr < p_vaddr phdr then Inr False
       else if p_vaddr phdr < PGSIZE then Inr False
       else Inr True))"

definition ROUND_UP :: "u32 \<Rightarrow> u32 \<Rightarrow> u32" where
  "ROUND_UP x step = (x + step - 1) div step * step"

text \<open>The bytes of a segment to read and to clear.\<close>

definition segment_bytes :: "Elf32_Phdr \<Rightarrow> u32 \<times> u32" where
  "segment_bytes phdr = (let page_offset = p_vaddr phdr AND PGMASK in
     if p_filesz phdr > 0
     then let read_bytes = page_offset + p_filesz phdr in
       (read_bytes, ROUND_UP (page_offset + p_memsz phdr) PGSIZE - read_bytes)
     else (0, ROUND_UP (page_offset + p_memsz phdr) PGSIZE))"

fun load_headers :: "nat \<Rightarrow> u32 \<Rightarrow> nat \<Rightarrow> vms \<Rightarrow> (bool \<times> vms) exec" where
  "load_headers f file_ofs 0 s = okE (True, s)"
| "load_headers f file_ofs (Suc n) s = bindE (Some (file_length (Some f) (vfs s))) (\<lambda>len.
     if sint file_ofs < 0 \<or> sint file_ofs > len then okE (False, s)
     else bindE (Some (file_seek (Some f) (sint file_ofs) (vfs s))) (\<lambda>fs.
       bindE (Some (file_read f 32 fs)) (\<lambda>(bs, fs). let s = s\<lparr>vfs := fs\<rparr> in
       if length bs \<noteq> 32 then okE (False, s)
       else let phdr = bytes_phdr bs in
         if p_type phdr \<in> {PT_DYNAMIC, PT_INTERP, PT_SHLIB} then okE (False, s)
         else if p_type phdr = PT_LOAD
         then bindE (Some (validate_segment phdr f (vfs s))) (\<lambda>valid.
           if \<not> valid then okE (False, s)
           else bindE (load_segment f (sint (p_offset phdr AND NOT PGMASK)) (p_vaddr phdr AND NOT PGMASK)
               (fst (segment_bytes phdr)) (snd (segment_bytes phdr)) (p_flags phdr AND 2 \<noteq> 0) s) (\<lambda>(success, s).
             if \<not> success then okE (False, s) else load_headers f (file_ofs + 32) n s))
         else load_headers f (file_ofs + 32) n s)))"

section \<open>The words of a command line\<close>

function cmd_words :: "u8 list \<Rightarrow> u8 list list" where
  "cmd_words s = (let t = dropWhile (\<lambda>c. c = 32) s in
     if t = [] then [] else takeWhile (\<lambda>c. c \<noteq> 32) t # cmd_words (drop 1 (dropWhile (\<lambda>c. c \<noteq> 32) t)))"
  by pat_completeness auto
termination
proof (relation "measure length")
  fix s t :: "u8 list"
  assume t: "t = dropWhile (\<lambda>c. c = 32) s" "t \<noteq> []"
  have "length (dropWhile (\<lambda>c. c \<noteq> 32) t) \<le> length t" "length t \<le> length s"
    using t(1) by (simp_all add: length_dropWhile_le)
  then show "(drop 1 (dropWhile (\<lambda>c. c \<noteq> 32) t), s) \<in> measure length" using t(2) by (cases t) auto
qed simp

declare cmd_words.simps [simp del]

lemma unat_off: "unat (a :: ptr) + k < 2 ^ 32 \<Longrightarrow> unat (a + of_nat k) = unat a + k"
  by (simp add: unat_word_ariths unat_of_nat)

lemma unat_off_sub: "k \<le> unat (a :: ptr) \<Longrightarrow> unat (a - of_nat k) = unat a - k"
proof -
  assume k: "k \<le> unat a"
  then have "k < 2 ^ 32" using unat_lt2p [of a] by (simp add: le_less_trans)
  then have "unat (of_nat k :: ptr) = k" by (simp add: unat_of_nat)
  then show ?thesis using k by (simp add: unat_sub word_le_nat_alt)
qed

lemma str_at_cong:
  assumes "str_at m a s" "unat a + length s < 2 ^ 32"
    and "\<And>x. unat a \<le> unat x \<Longrightarrow> unat x \<le> unat a + length s \<Longrightarrow> m' x = m x"
  shows "str_at m' a s"
proof -
  have "m' (a + of_nat i) = m (a + of_nat i)" if "i \<le> length s" for i
    using that assms(2,3) unat_off [of a i] by simp
  then show ?thesis using assms(1) by (auto simp: str_at_nth)
qed

lemma delims_space: "delims_at m d [32] \<longleftrightarrow> m d = 32 \<and> m (d + 1) = 0 \<and> d \<noteq> NULL \<and> unat d + 2 \<le> 2 ^ 32"
  by (auto simp: delims_at_def no_wrap_def)

text \<open>One call of \<^verbatim>\<open>strtok_r\<close>, with the part of the buffer it changes.\<close>

lemma strtok_r_step:
  assumes d: "delims_at m d [32]" and s: "str_at m p s" "p \<noteq> NULL" "unat p + length s < 2 ^ 32"
  defines "t \<equiv> dropWhile (\<lambda>c. c = 32) s"
  defines "tok \<equiv> takeWhile (\<lambda>c. c \<noteq> 32) t" and "rest \<equiv> drop 1 (dropWhile (\<lambda>c. c \<noteq> 32) t)"
  shows "if t = [] then \<exists>q. strtok_r p d sv m = okE (NULL, q, m)
    else \<exists>a q m'. strtok_r p d sv m = okE (a, q, m') \<and> str_at m' a tok \<and> str_at m' q rest \<and>
      unat p \<le> unat a \<and> (unat a + length tok < unat q \<or> rest = []) \<and> unat a + length tok \<le> unat q \<and>
      unat q + length rest \<le> unat p + length s \<and>
      (\<forall>x. unat x < unat p \<or> unat p + length s \<le> unat x \<longrightarrow> m' x = m x)"
proof -
  define u where "u = takeWhile (\<lambda>c. c = 32) s"
  define a where "a = p + of_nat (length u)"
  let ?q = "a + of_nat (length tok)"
  have su: "s = u @ t" by (simp add: u_def t_def)
  have tt: "t = tok @ dropWhile (\<lambda>c. c \<noteq> 32) t" by (simp add: tok_def)
  have tp: "str_at m a t" using s(1) unfolding a_def by (subst (asm) su) (simp add: str_at_append)
  have len: "length s = length u + length t" "length t = length tok + length (dropWhile (\<lambda>c. c \<noteq> 32) t)"
    using arg_cong [OF su, of length] arg_cong [OF tt, of length] by simp_all
  have ua: "unat a = unat p + length u" unfolding a_def using s(3) len by (intro unat_off) simp
  have uq: "unat ?q = unat a + length tok" using s(3) len ua by (intro unat_off) simp
  have skip: "strtok_skip p d m = okE (a, t = [])"
    using strtok_skip_str [OF d s(1)] len by (simp add: a_def t_def [symmetric] Let_def)
  have tk: "strtok_token a d m = okE ?q" using strtok_token_str [OF d tp] by (simp add: tok_def)
  have dn: "d \<noteq> NULL" using d by (simp add: delims_at_def)
  show ?thesis
  proof (cases "dropWhile (\<lambda>c. c \<noteq> 32) t")
    case Nil
    have e: "t = tok" using tt unfolding Nil by (metis append_Nil2)
    have e': "rest = []" unfolding rest_def Nil by simp
    have z: "m ?q = 0" using tp e by (simp add: str_at_nth)
    have "t \<noteq> [] \<Longrightarrow> strtok_r p d sv m = okE (a, ?q, m)" "t = [] \<Longrightarrow> strtok_r p d sv m = okE (NULL, a, m)"
      using skip tk s(2) dn z by (simp_all add: strtok_r_def Let_def)
    then show ?thesis using tp e e' z uq ua len by auto
  next
    case (Cons c ys)
    have "length (tok @ c # ys) < 2 ^ 32" using Cons len s(3) by simp
    note cut = str_at_cut [OF tp [unfolded tt [unfolded Cons]] this]
    have uq1: "unat (?q + 1) = unat ?q + 1" using unat_off [of ?q 1] uq ua len s(3) Cons by simp
    have "strtok_r p d sv m = okE (a, ?q + 1, m(?q := 0))" "t \<noteq> []"
      using skip tk s(2) dn cut Cons by (auto simp: strtok_r_def Let_def)
    moreover have "rest = ys" by (simp add: rest_def Cons)
    ultimately show ?thesis using cut uq uq1 ua len Cons by auto
  qed
qed

lemma tokens_loop_words:
  assumes "delims_at m d [32]" "unat d + 2 \<le> unat p \<or> unat p + length s < unat d"
    "str_at m p s" "p \<noteq> NULL" "unat p + length s < 2 ^ 32"
    "x = p \<or> x = NULL \<and> sv = p" "length acc + length (cmd_words s) \<le> 128"
  shows "\<exists>ps m'. tokens_loop x d sv acc m = okE (acc @ ps, m') \<and>
    list_all2 (\<lambda>a w. str_at m' a w \<and> unat p \<le> unat a \<and> unat a + length w \<le> unat p + length s) ps (cmd_words s) \<and>
    (\<forall>x. unat x < unat p \<or> unat p + length s \<le> unat x \<longrightarrow> m' x = m x)"
  using assms
proof (induction s arbitrary: p x sv acc m rule: cmd_words.induct)
  case (1 s)
  let ?t = "dropWhile (\<lambda>c. c = 32) s"
  let ?tok = "takeWhile (\<lambda>c. c \<noteq> 32) ?t" and ?rest = "drop 1 (dropWhile (\<lambda>c. c \<noteq> 32) ?t)"
  have call: "strtok_r x d sv m = strtok_r p d sv m" using "1.prems"(4,6) by (auto simp: strtok_r_def)
  note step = strtok_r_step [OF "1.prems"(1,3,4,5), of sv]
  show ?case
  proof (cases "?t = []")
    case True
    then obtain q where "strtok_r x d sv m = okE (NULL, q, m)" using step call by auto
    then have "tokens_loop x d sv acc m = okE (acc @ [], m)" by (subst tokens_loop.simps) simp
    then show ?thesis using True by (subst cmd_words.simps) auto
  next
    case False
    obtain a q m' where r: "strtok_r x d sv m = okE (a, q, m')" "str_at m' a ?tok" "str_at m' q ?rest"
      "unat p \<le> unat a" "unat a + length ?tok < unat q \<or> ?rest = []" "unat a + length ?tok \<le> unat q"
      "unat q + length ?rest \<le> unat p + length s"
      and fr: "\<And>x. unat x < unat p \<or> unat p + length s \<le> unat x \<Longrightarrow> m' x = m x"
      using step [unfolded if_not_P [OF False], folded call] by blast
    have p0: "0 < unat p" using "1.prems"(4) by (simp add: unat_gt_0)
    then have an: "a \<noteq> NULL" "q \<noteq> NULL" using r(4,6) by auto
    have w: "cmd_words s = ?tok # cmd_words ?rest" using False by (subst cmd_words.simps) (simp add: Let_def)
    have d2: "unat d + 2 \<le> 2 ^ 32" using "1.prems"(1) by (simp add: delims_space)
    then have "unat (d + 1) = unat d + 1" using unat_off [of d 1] by simp
    then have d': "delims_at m' d [32]" using "1.prems"(1,2) fr [of d] fr [of "d + 1"] by (auto simp: delims_space)
    have dq: "unat d + 2 \<le> unat q \<or> unat q + length ?rest < unat d" using "1.prems"(2) r by linarith
    obtain ps m'' where t: "tokens_loop NULL d q (acc @ [a]) m' = okE ((acc @ [a]) @ ps, m'')"
      "list_all2 (\<lambda>a w. str_at m'' a w \<and> unat q \<le> unat a \<and> unat a + length w \<le> unat q + length ?rest) ps (cmd_words ?rest)"
      and fr': "\<And>x. unat x < unat q \<or> unat q + length ?rest \<le> unat x \<Longrightarrow> m'' x = m' x"
      using "1.IH" [OF refl False d' dq r(3) an(2), of NULL q "acc @ [a]"] "1.prems"(5,7) r(7) w by auto
    have keep: "m'' y = m' y" if y: "unat y \<le> unat a + length ?tok" for y
    proof -
      from r(5) have "unat y < unat q \<or> unat q + length ?rest \<le> unat y"
      proof
        assume e: "?rest = []"
        show ?thesis unfolding e list.size by linarith
      qed (use y in linarith)
      then show ?thesis by (rule fr')
    qed
    have "str_at m'' a ?tok" using r(2)
    proof (rule str_at_cong)
      show "unat a + length ?tok < 2 ^ 32" using r(6,7) "1.prems"(5) by linarith
    qed (rule keep)
    moreover have "tokens_loop x d sv acc m = okE (acc @ (a # ps), m'')"
      using r(1) an t(1) "1.prems"(7) w by (subst tokens_loop.simps) simp
    moreover have "m'' y = m y" if y: "unat y < unat p \<or> unat p + length s \<le> unat y" for y
    proof -
      have "unat y < unat q \<or> unat q + length ?rest \<le> unat y" using y r(4,6,7) by linarith
      then show ?thesis using fr' fr [OF y] by simp
    qed
    moreover have "list_all2 (\<lambda>a w. str_at m'' a w \<and> unat p \<le> unat a \<and> unat a + length w \<le> unat p + length s)
        ps (cmd_words ?rest)"
      using t(2) by (rule list_all2_mono) (use r(4,6,7) in linarith)
    moreover have "unat a + length ?tok \<le> unat p + length s" using r(6,7) by linarith
    ultimately show ?thesis using r(4) unfolding w by (intro exI [of _ "a # ps"] exI [of _ m'']) simp
  qed
qed

section \<open>The block of arguments\<close>

definition strings_size :: "u8 list list \<Rightarrow> nat" where
  "strings_size ws = (\<Sum>w\<leftarrow>ws. length w + 1)"

text \<open>The address of a string that lies beside the bytes from \<open>lo\<close> up to \<open>hi\<close>.\<close>

definition beside :: "nat \<Rightarrow> nat \<Rightarrow> ptr \<Rightarrow> u8 list \<Rightarrow> bool" where
  "beside lo hi a w \<longleftrightarrow> a \<noteq> NULL \<and> unat a + length w < 2 ^ 32 \<and> (unat a + length w < lo \<or> hi \<le> unat a)"

lemma in_block_nat:
  assumes "unat p + n < 2 ^ 32"
  shows "in_block x p (of_nat n) \<longleftrightarrow> unat p \<le> unat x \<and> unat x < unat p + n"
proof -
  have n: "unat (of_nat n :: ptr) = n" using assms by (simp add: unat_of_nat)
  show ?thesis
  proof (cases "p \<le> x")
    case True
    then show ?thesis using n by (auto simp: in_block_def word_less_nat_alt unat_sub word_le_nat_alt)
  next
    case False
    then have "unat x < unat p" by (simp add: word_less_nat_alt not_le)
    moreover have "unat (x - p) = 2 ^ 32 + unat x - unat p" using False by (simp add: unat_sub_if' word_le_nat_alt)
    ultimately show ?thesis using n assms by (simp add: in_block_def word_less_nat_alt)
  qed
qed

lemma push_string_copy:
  assumes "str_at m a w" "beside lo (unat esp) a w" "0 < lo" "lo + length w + 1 \<le> unat esp"
    and z: "\<And>x. lo \<le> unat x \<Longrightarrow> unat x < unat esp \<Longrightarrow> m x = 0"
  defines "e \<equiv> esp - (of_nat (length w) + 1)"
  shows "\<exists>m'. memcpy e a (of_nat (length w)) m = Inr (e, m') \<and> unat e = unat esp - (length w + 1) \<and> str_at m' e w \<and>
    (\<forall>x. unat x < unat e \<or> unat esp \<le> unat x \<longrightarrow> m' x = m x)"
proof -
  let ?n = "of_nat (length w) :: ptr"
  have e: "unat e = unat esp - (length w + 1)" using unat_off_sub [of "length w + 1" esp] assms(4) by (simp add: e_def add.commute)
  have b: "unat e + length w < 2 ^ 32" "unat a + length w < 2 ^ 32" "a \<noteq> NULL"
    using e assms(2,4) unat_lt2p [of esp] by (simp_all add: beside_def)
  note blk = in_block_nat [OF b(1)] in_block_nat [OF b(2)]
  have "e \<noteq> NULL" using e assms(3,4) by auto
  moreover have "disjoint_blocks e a ?n" using assms(2,4) e by (auto simp: disjoint_blocks_def blk beside_def)
  ultimately have cp: "memcpy e a ?n m = Inr (e, \<lambda>x. if in_block x e ?n then m (a + (x - e)) else m x)"
    using b(3) by (intro memcpy_bytes)
  have off: "unat (e + of_nat i) = unat e + i" if "i \<le> length w" for i using that b(1) by (intro unat_off) simp
  have "str_at (\<lambda>x. if in_block x e ?n then m (a + (x - e)) else m x) e w"
    using assms(1) off e assms(4) z [of "e + of_nat (length w)"] by (auto simp: str_at_nth blk)
  then show ?thesis using cp e assms(4) by (auto simp: blk)
qed

lemma push_strings_result:
  assumes "list_all2 (\<lambda>a w. str_at m a w \<and> beside lo (unat esp) a w) as ws" "0 < lo" "lo + strings_size ws \<le> unat esp"
    and "\<And>x. lo \<le> unat x \<Longrightarrow> unat x < unat esp \<Longrightarrow> m x = 0"
  shows "\<exists>ads e m'. push_strings as esp n m = okE (ads, e, n + of_nat (strings_size ws), m') \<and>
    unat e = unat esp - strings_size ws \<and>
    list_all2 (\<lambda>ad w. str_at m' ad w \<and> unat e \<le> unat ad \<and> unat ad + length w < unat esp) ads ws \<and>
    (\<forall>x. unat x < unat e \<or> unat esp \<le> unat x \<longrightarrow> m' x = m x)"
  using assms
proof (induction as arbitrary: ws esp n m)
  case Nil
  then show ?case by (auto simp: strings_size_def)
next
  case (Cons a as)
  obtain w ws' where ws: "ws = w # ws'" "str_at m a w" "beside lo (unat esp) a w"
    "list_all2 (\<lambda>a w. str_at m a w \<and> beside lo (unat esp) a w) as ws'"
    using Cons.prems(1) by (auto simp: list_all2_Cons1)
  have sz: "strings_size ws = length w + 1 + strings_size ws'" by (simp add: ws strings_size_def)
  let ?e = "esp - (of_nat (length w) + 1)"
  have room: "lo + length w + 1 \<le> unat esp" using Cons.prems(3) sz by linarith
  obtain m1 where c: "memcpy ?e a (of_nat (length w)) m = Inr (?e, m1)" "unat ?e = unat esp - (length w + 1)" "str_at m1 ?e w"
    and fr: "\<And>x. unat x < unat ?e \<or> unat esp \<le> unat x \<Longrightarrow> m1 x = m x"
    using push_string_copy [OF ws(2,3) Cons.prems(2) room Cons.prems(4)] by blast
  have len: "strlen a m = okE (of_nat (length w))" using ws(2,3) by (intro strlen_str) (simp_all add: beside_def)
  have "list_all2 (\<lambda>a w. str_at m1 a w \<and> beside lo (unat ?e) a w) as ws'"
    using ws(4)
  proof (rule list_all2_mono)
    fix b v assume b: "str_at m b v \<and> beside lo (unat esp) b v"
    have "str_at m1 b v" using conjunct1 [OF b]
    proof (rule str_at_cong)
      show "unat b + length v < 2 ^ 32" using b by (simp add: beside_def)
      show "m1 x = m x" if "unat b \<le> unat x" "unat x \<le> unat b + length v" for x
        using that b c(2) Cons.prems(3) sz by (intro fr) (auto simp: beside_def)
    qed
    then show "str_at m1 b v \<and> beside lo (unat ?e) b v" using b c(2) by (auto simp: beside_def)
  qed
  moreover have "lo + strings_size ws' \<le> unat ?e" using Cons.prems(3) sz c(2) by linarith
  moreover have "m1 x = 0" if "lo \<le> unat x" "unat x < unat ?e" for x using that fr [of x] Cons.prems(4) [of x] c(2) by simp
  ultimately obtain ads e m' where r: "push_strings as ?e (n + (of_nat (length w) + 1)) m1 =
      okE (ads, e, n + (of_nat (length w) + 1) + of_nat (strings_size ws'), m')" "unat e = unat ?e - strings_size ws'"
      "list_all2 (\<lambda>ad w. str_at m' ad w \<and> unat e \<le> unat ad \<and> unat ad + length w < unat ?e) ads ws'"
    and fr': "\<And>x. unat x < unat e \<or> unat ?e \<le> unat x \<Longrightarrow> m' x = m1 x"
    using Cons.IH [OF _ Cons.prems(2)] by blast
  have "push_strings (a # as) esp n m = okE (?e # ads, e, n + of_nat (strings_size ws), m')"
    using len c(1) r(1) by (simp add: Let_def sz ac_simps)
  moreover have "str_at m' ?e w"
    using c(3) by (rule str_at_cong) (use c(2) Cons.prems(3) sz unat_lt2p [of esp] fr' in \<open>simp_all\<close>)
  moreover have "list_all2 (\<lambda>ad w. str_at m' ad w \<and> unat e \<le> unat ad \<and> unat ad + length w < unat esp) ads ws'"
    using r(3) by (rule list_all2_mono) (use c(2) in linarith)
  moreover have "m' x = m x" if x: "unat x < unat e \<or> unat esp \<le> unat x" for x
  proof -
    have "unat x < unat ?e \<or> unat esp \<le> unat x" "unat x < unat e \<or> unat ?e \<le> unat x"
      using x r(2) c(2) by linarith+
    then show ?thesis using fr fr' by simp
  qed
  ultimately show ?case using r(2) c(2) sz Cons.prems(3)
    by (intro exI [of _ "?e # ads"] exI [of _ e] exI [of _ m']) (auto simp: ws(1))
qed

lemma set_word_frame:
  assumes "unat p + 4 \<le> 2 ^ 32" "unat x < unat p \<or> unat p + 4 \<le> unat x"
  shows "set_word p w m x = m x"
proof -
  have "unat (p + of_nat i) = unat p + i" if "i < 4" for i using that assms(1) by (intro unat_off) simp
  from this [of 1] this [of 2] this [of 3] have "x \<noteq> p" "x \<noteq> p + 1" "x \<noteq> p + 2" "x \<noteq> p + 3" using assms(2) by auto
  then show ?thesis by (simp add: set_word_def)
qed

lemma word_at_frame:
  assumes "unat q + 4 \<le> 2 ^ 32" "\<And>x. unat q \<le> unat x \<Longrightarrow> unat x < unat q + 4 \<Longrightarrow> m' x = m x"
  shows "word_at m' q = word_at m q"
proof (rule word_at_cong)
  fix j :: nat assume "j < 4"
  then show "m' (q + of_nat j) = m (q + of_nat j)" using assms unat_off [of q j] by simp
qed

lemma push_word_result:
  assumes "4 < unat esp"
  shows "\<exists>m'. push_word w esp m = Inr (esp - 4, m') \<and> unat (esp - 4) = unat esp - 4 \<and> word_at m' (esp - 4) = w \<and>
    (\<forall>x. unat x < unat esp - 4 \<or> unat esp \<le> unat x \<longrightarrow> m' x = m x)"
proof -
  have u: "unat (esp - 4) = unat esp - 4" using unat_off_sub [of 4 esp] assms by simp
  then have "esp - 4 \<noteq> NULL" using assms by auto
  then show ?thesis using u assms unat_lt2p [of esp] by (auto simp: push_word_def Let_def intro!: set_word_frame)
qed

lemma push_words_result:
  assumes "4 * length ws < unat esp"
  shows "\<exists>e m'. push_words ws esp m = Inr (e, m') \<and> unat e = unat esp - 4 * length ws \<and>
    (\<forall>i < length ws. word_at m' (e + of_nat (4 * i)) = rev ws ! i) \<and>
    (\<forall>x. unat x < unat e \<or> unat esp \<le> unat x \<longrightarrow> m' x = m x)"
  using assms
proof (induction ws arbitrary: esp m)
  case (Cons w ws)
  obtain m1 where p: "push_word w esp m = Inr (esp - 4, m1)" "unat (esp - 4) = unat esp - 4" "word_at m1 (esp - 4) = w"
    and fr: "\<And>x. unat x < unat esp - 4 \<or> unat esp \<le> unat x \<Longrightarrow> m1 x = m x"
    using push_word_result [of esp w m] Cons.prems by auto
  have room: "4 * length ws < unat (esp - 4)" using Cons.prems p(2) by simp
  obtain e m' where r: "push_words ws (esp - 4) m1 = Inr (e, m')" "unat e = unat (esp - 4) - 4 * length ws"
      "\<And>i. i < length ws \<Longrightarrow> word_at m' (e + of_nat (4 * i)) = rev ws ! i"
    and fr': "\<And>x. unat x < unat e \<or> unat (esp - 4) \<le> unat x \<Longrightarrow> m' x = m1 x"
    using Cons.IH [OF room, of m1] by blast
  have "unat (e + of_nat (4 * length ws)) = unat (esp - 4)"
    using r(2) p(2) Cons.prems unat_lt2p [of esp] by (subst unat_off) simp_all
  then have top: "e + of_nat (4 * length ws) = esp - 4" by (simp only: word_unat_eq_iff)
  have "word_at m' (esp - 4) = w"
    unfolding p(3) [symmetric] using fr' p(2) Cons.prems unat_lt2p [of esp] by (intro word_at_frame) auto
  then have "word_at m' (e + of_nat (4 * i)) = rev (w # ws) ! i" if "i < length (w # ws)" for i
    using that r(3) [of i] top by (cases "i = length ws") (auto simp: nth_append)
  moreover have "m' x = m x" if x: "unat x < unat e \<or> unat esp \<le> unat x" for x
  proof -
    have "unat x < unat esp - 4 \<or> unat esp \<le> unat x" "unat x < unat e \<or> unat (esp - 4) \<le> unat x"
      using x r(2) p(2) by linarith+
    then show ?thesis using fr fr' by simp
  qed
  ultimately show ?case using p(1,2) r(1,2) Cons.prems by (intro exI [of _ e] exI [of _ m']) auto
qed simp

definition args_pad :: "u8 list list \<Rightarrow> nat" where
  "args_pad ws = (4 - strings_size ws mod 4) mod 4"

definition args_size :: "u8 list list \<Rightarrow> nat" where
  "args_size ws = strings_size ws + args_pad ws + 4 + 4 * length ws + 12"

text \<open>
  The frame of \<^verbatim>\<open>main\<close> at a stack pointer: the place of a return address, the number of the arguments, the
  array of their addresses, and behind the array a null pointer.
\<close>

definition argument_block :: "bmem \<Rightarrow> ptr \<Rightarrow> u8 list list \<Rightarrow> bool" where
  "argument_block m e ws \<longleftrightarrow> word_at m (e + 4) = of_nat (length ws) \<and> word_at m (e + 8) = e + 12 \<and>
     (\<forall>i < length ws. str_at m (word_at m (e + 12 + of_nat (4 * i))) (ws ! i)) \<and>
     word_at m (e + 12 + of_nat (4 * length ws)) = NULL"

lemma pad_word: "n < 2 ^ 32 \<Longrightarrow> (4 - of_nat n mod 4) mod 4 = (of_nat ((4 - n mod 4) mod 4) :: u32)"
proof -
  assume n: "n < 2 ^ 32"
  have "unat (of_nat n mod 4 :: u32) = n mod 4" using n by (simp add: unat_mod unat_of_nat)
  moreover from this have "(of_nat n mod 4 :: u32) \<le> 4" by (simp add: word_le_nat_alt less_imp_le)
  ultimately have "unat ((4 - of_nat n mod 4) mod 4 :: u32) = (4 - n mod 4) mod 4" by (simp add: unat_mod unat_sub)
  moreover have "(4 - n mod 4) mod 4 < 2 ^ 32" by (rule less_trans [OF mod_less_divisor]) simp_all
  ultimately show ?thesis by (simp add: word_unat_eq_iff unat_of_nat)
qed

lemma args_size_mod: "args_size ws mod 4 = 0"
proof -
  have "(n + (4 - n mod 4) mod 4) mod 4 = 0" for n :: nat
  proof -
    have "n mod 4 \<in> {0, 1, 2, 3}" by auto
    then show ?thesis by (auto simp: mod_add_eq [symmetric, of n])
  qed
  from this [of "strings_size ws"] have "4 dvd strings_size ws + args_pad ws" by (simp add: args_pad_def mod_eq_0_iff_dvd)
  then have "4 dvd (strings_size ws + args_pad ws) + 4 * (length ws + 4)" by (rule dvd_add) simp
  moreover have "args_size ws = (strings_size ws + args_pad ws) + 4 * (length ws + 4)" by (simp add: args_size_def)
  ultimately show ?thesis by (simp only: mod_eq_0_iff_dvd)
qed

lemma strings_size_rev [simp]: "strings_size (rev ws) = strings_size ws"
  by (simp add: strings_size_def rev_map [symmetric] sum_list_rev)

text \<open>The three groups of words below the strings.\<close>

lemma push_frame_result:
  assumes room: "4 * length ads + 12 < unat e2"
  shows "\<exists>e m'. bindE (Some (push_words ads e2 m)) (\<lambda>(x, m). bindE (Some (push_word x x m)) (\<lambda>(x, m).
      bindE (Some (push_word n x m)) (\<lambda>(x, m). okE (x - 4, m)))) = okE (e, m') \<and>
    unat e = unat e2 - (4 * length ads + 12) \<and> e + 12 + of_nat (4 * length ads) = e2 \<and>
    word_at m' (e + 4) = n \<and> word_at m' (e + 8) = e + 12 \<and>
    (\<forall>i < length ads. word_at m' (e + 12 + of_nat (4 * i)) = rev ads ! i) \<and>
    (\<forall>x. unat x < unat e \<or> unat e2 \<le> unat x \<longrightarrow> m' x = m x)"
proof -
  obtain e3 m3 where w: "push_words ads e2 m = Inr (e3, m3)" "unat e3 = unat e2 - 4 * length ads"
      "\<And>i. i < length ads \<Longrightarrow> word_at m3 (e3 + of_nat (4 * i)) = rev ads ! i"
    and f3: "\<And>x. unat x < unat e3 \<or> unat e2 \<le> unat x \<Longrightarrow> m3 x = m x"
    using push_words_result [of ads e2 m] room by (metis add_lessD1)
  have r3: "12 < unat e3" using room w(2) by linarith
  obtain m4 where a: "push_word e3 e3 m3 = Inr (e3 - 4, m4)" "unat (e3 - 4) = unat e3 - 4" "word_at m4 (e3 - 4) = e3"
    and f4: "\<And>x. unat x < unat e3 - 4 \<or> unat e3 \<le> unat x \<Longrightarrow> m4 x = m3 x"
    using push_word_result [of e3 e3 m3] r3 by auto
  have r4: "4 < unat (e3 - 4)" using r3 a(2) by linarith
  have e8: "e3 - 4 - 4 = e3 - 8" by simp
  obtain m5 where c: "push_word n (e3 - 4) m4 = Inr (e3 - 8, m5)" "unat (e3 - 8) = unat e3 - 8" "word_at m5 (e3 - 8) = n"
    and f5: "\<And>x. unat x < unat e3 - 8 \<or> unat e3 - 4 \<le> unat x \<Longrightarrow> m5 x = m4 x"
    using push_word_result [OF r4, of n m4] unfolding e8 a(2) by auto
  have u: "unat (e3 - 12) = unat e3 - 12" using unat_off_sub [of 12 e3] r3 by simp
  have "unat (e3 + of_nat (4 * length ads)) = unat e2"
    using w(2) room unat_lt2p [of e2] by (subst unat_off) simp_all
  then have top: "e3 + of_nat (4 * length ads) = e2" by (simp only: word_unat_eq_iff)
  have keep: "m5 x = m3 x" if x: "unat e3 \<le> unat x" for x
    using f4 [OF disjI2 [OF x]] f5 [OF disjI2, OF le_trans [OF diff_le_self x]] by simp
  have "word_at m5 (e3 - 4) = word_at m4 (e3 - 4)"
    using a(2) r3 f5 unat_lt2p [of e3] by (intro word_at_frame) auto
  moreover have "word_at m5 (e3 + of_nat (4 * i)) = rev ads ! i" if i: "i < length ads" for i
  proof -
    have "unat (e3 + of_nat (4 * i)) = unat e3 + 4 * i" using i w(2) room unat_lt2p [of e2] by (intro unat_off) simp
    then have "word_at m5 (e3 + of_nat (4 * i)) = word_at m3 (e3 + of_nat (4 * i))"
      using i w(2) room unat_lt2p [of e2] by (intro word_at_frame keep) simp_all
    then show ?thesis using w(3) [OF i] by simp
  qed
  moreover have "m5 x = m x" if x: "unat x < unat (e3 - 12) \<or> unat e2 \<le> unat x" for x
  proof -
    have "unat x < unat e3 - 8 \<or> unat e3 - 4 \<le> unat x" "unat x < unat e3 - 4 \<or> unat e3 \<le> unat x" "unat x < unat e3 \<or> unat e2 \<le> unat x"
      using x u w(2) r3 by linarith+
    then show ?thesis using f3 f4 f5 by simp
  qed
  ultimately show ?thesis using w(1,2) a(1,3) c(1,3) u top room
    by (intro exI [of _ "e3 - 12"] exI [of _ m5]) (simp add: algebra_simps)
qed

text \<open>A command line shorter than \<^verbatim>\<open>MAX_CMD_SIZE\<close> has at most 128 words, and their block fits in a page.\<close>

lemma cmd_words_bounds: "2 * length (cmd_words s) \<le> length s + 1" "strings_size (cmd_words s) \<le> length s + 1"
proof -
  have "2 * length (cmd_words s) \<le> length s + 1 \<and> strings_size (cmd_words s) \<le> length s + 1"
  proof (induction s rule: cmd_words.induct)
    case (1 s)
    let ?t = "dropWhile (\<lambda>c. c = 32) s"
    let ?tok = "takeWhile (\<lambda>c. c \<noteq> 32) ?t" and ?d = "dropWhile (\<lambda>c. c \<noteq> 32) ?t"
    show ?case
    proof (cases "?t = []")
      case True
      then show ?thesis by (subst (1 2) cmd_words.simps) (simp add: strings_size_def)
    next
      case False
      have w: "cmd_words s = ?tok # cmd_words (drop 1 ?d)" using False by (subst cmd_words.simps) (simp add: Let_def)
      have len: "length ?tok + length ?d = length ?t" by (metis length_append takeWhile_dropWhile_id)
      have le: "length ?t \<le> length s" by (rule length_dropWhile_le)
      have "hd ?t \<noteq> 32" using hd_dropWhile [OF False] .
      then have tok: "0 < length ?tok" using False by (cases ?t) auto
      note ih = "1.IH" [OF refl False]
      have sz: "strings_size (cmd_words s) = length ?tok + 1 + strings_size (cmd_words (drop 1 ?d))"
        unfolding w by (simp add: strings_size_def)
      show ?thesis
      proof (cases ?d)
        case Nil
        have e: "cmd_words (drop 1 ?d) = []" unfolding Nil by (simp add: cmd_words.simps)
        have "length (cmd_words s) = 1" "strings_size (cmd_words s) = length ?tok + 1"
          unfolding sz unfolding w e by (simp_all add: strings_size_def)
        then show ?thesis using len le tok by linarith
      next
        case (Cons c ys)
        have d: "length (drop 1 ?d) + 1 = length ?d" unfolding Cons by simp
        have "length (cmd_words s) = 1 + length (cmd_words (drop 1 ?d))" unfolding w by simp
        then show ?thesis using ih sz len le tok d by linarith
      qed
    qed
  qed
  then show "2 * length (cmd_words s) \<le> length s + 1" "strings_size (cmd_words s) \<le> length s + 1" by auto
qed

lemma args_fit:
  assumes "length s < MAX_CMD_SIZE"
  shows "length (cmd_words s) \<le> 128" "args_size (cmd_words s) \<le> 4096"
proof -
  have "args_pad (cmd_words s) < 4" by (simp add: args_pad_def)
  then show "length (cmd_words s) \<le> 128" "args_size (cmd_words s) \<le> 4096"
    using cmd_words_bounds [of s] assms by (simp_all add: args_size_def MAX_CMD_SIZE_def)
qed

text \<open>The stack below the tokens, from the strings to the frame.\<close>

lemma push_block_result:
  assumes l: "list_all2 (\<lambda>a w. str_at m a w \<and> beside lo (unat esp) a w) as ws"
    and sz: "lo + args_size ws = unat esp" "0 < lo"
    and zero: "\<And>x. lo \<le> unat x \<Longrightarrow> unat x < unat esp \<Longrightarrow> m x = 0"
  shows "\<exists>e m'. bindE (push_strings (rev as) esp 0 m) (\<lambda>(ads, x, n, m). let pad = (4 - n mod 4) mod 4; x = x - (pad + 4) in
      bindE (Some (push_words ads x m)) (\<lambda>(x, m). bindE (Some (push_word x x m)) (\<lambda>(x, m).
      bindE (Some (push_word (of_nat (length as)) x m)) (\<lambda>(x, m). okE (x - 4, m))))) = okE (e, m') \<and>
    unat e = lo \<and> argument_block m' e ws \<and> (\<forall>x. unat x < lo \<or> unat esp \<le> unat x \<longrightarrow> m' x = m x)"
proof -
  have l': "list_all2 (\<lambda>a w. str_at m a w \<and> beside lo (unat esp) a w) (rev as) (rev ws)" using l by simp
  note sz = sz(1) [unfolded args_size_def] sz(2)
  have fits: "lo + strings_size (rev ws) \<le> unat esp" using sz by simp
  obtain ads e1 m2 where q: "push_strings (rev as) esp 0 m = okE (ads, e1, of_nat (strings_size ws), m2)"
      "unat e1 = unat esp - strings_size ws"
      "list_all2 (\<lambda>ad w. str_at m2 ad w \<and> unat e1 \<le> unat ad \<and> unat ad + length w < unat esp) ads (rev ws)"
    and f2: "\<And>x. unat x < unat e1 \<or> unat esp \<le> unat x \<Longrightarrow> m2 x = m x"
    using push_strings_result [OF l' sz(2) fits zero, of 0] unfolding strings_size_rev add_0 by blast
  have n: "length as = length ws" "length ads = length ws" using l q(3) by (auto dest!: list_all2_lengthD)
  have s32: "strings_size ws < 2 ^ 32" using sz unat_lt2p [of esp] by simp
  define e2 where "e2 = e1 - ((4 - of_nat (strings_size ws) mod 4) mod 4 + 4)"
  have e2: "unat e2 = unat e1 - (args_pad ws + 4)"
    unfolding e2_def pad_word [OF s32] using unat_off_sub [of "args_pad ws + 4" e1] q(2) sz by (simp add: args_pad_def)
  have r2: "4 * length ads + 12 < unat e2" using e2 q(2) sz n by linarith
  from push_frame_result [OF r2, of m2 "of_nat (length as)"] obtain e m' where
    c: "bindE (Some (push_words ads e2 m2)) (\<lambda>(x, m). bindE (Some (push_word x x m)) (\<lambda>(x, m).
      bindE (Some (push_word (of_nat (length as)) x m)) (\<lambda>(x, m). okE (x - 4, m)))) = okE (e, m')"
    "unat e = unat e2 - (4 * length ads + 12)" "e + 12 + of_nat (4 * length ads) = e2"
    "word_at m' (e + 4) = of_nat (length as)" "word_at m' (e + 8) = e + 12"
    "\<And>i. i < length ads \<Longrightarrow> word_at m' (e + 12 + of_nat (4 * i)) = rev ads ! i"
    and f3: "\<And>x. unat x < unat e \<or> unat e2 \<le> unat x \<Longrightarrow> m' x = m2 x" by blast
  have ue: "unat e = lo" using c(2) e2 q(2) sz n by simp
  have le: "unat e \<le> unat e1" "unat e2 \<le> unat e1" "unat e1 \<le> unat esp" using e2 q(2) c(2) by linarith+
  have gap: "m' x = 0" if "unat e2 \<le> unat x" "unat x < unat e1" for x
    using that f3 [of x] f2 [of x] zero [of x] le ue c(2) by simp
  have nul: "word_at m' e2 = NULL"
  proof (rule word_at_zero)
    fix j :: nat assume j: "j < 4"
    have "unat (e2 + of_nat j) = unat e2 + j" using j e2 q(2) sz unat_lt2p [of esp] by (intro unat_off) simp
    then show "m' (e2 + of_nat j) = 0" using j e2 q(2) sz by (intro gap) linarith+
  qed
  have all: "list_all2 (\<lambda>ad w. str_at m2 ad w \<and> unat e1 \<le> unat ad \<and> unat ad + length w < unat esp) (rev ads) ws"
    using q(3) by (simp add: list_all2_rev1)
  have "list_all2 (str_at m') (rev ads) ws" using all
  proof (rule list_all2_mono)
    fix a w assume k: "str_at m2 a w \<and> unat e1 \<le> unat a \<and> unat a + length w < unat esp"
    show "str_at m' a w" using conjunct1 [OF k] by (rule str_at_cong) (use k le unat_lt2p [of esp] f3 in \<open>simp_all\<close>)
  qed
  then have "argument_block m' e ws" using c n nul by (auto simp: argument_block_def dest: list_all2_nthD2)
  moreover have "m' x = m x" if "unat x < lo \<or> unat esp \<le> unat x" for x
    using that f3 [of x] f2 [of x] le ue by auto
  ultimately show ?thesis using q(1) c(1) ue by (intro exI [of _ e] exI [of _ m']) (simp add: Let_def e2_def)
qed

lemma push_argument_result:
  assumes line: "str_at m p s" "delims_at m d [32]" "unat d + 2 \<le> unat p \<or> unat p + length s < unat d"
    and count: "length (cmd_words s) \<le> 128"
    and room: "lo + args_size (cmd_words s) = unat esp" "0 < lo" "beside lo (unat esp) p s"
    and zero: "\<And>x. lo \<le> unat x \<Longrightarrow> unat x < unat esp \<Longrightarrow> m x = 0"
  shows "\<exists>e m'. push_argument p d esp m = okE (e, m') \<and> unat e = lo \<and> argument_block m' e (cmd_words s) \<and>
    (\<forall>x. (unat x < lo \<or> unat esp \<le> unat x) \<and> (unat x < unat p \<or> unat p + length s \<le> unat x) \<longrightarrow> m' x = m x)"
proof -
  have p: "p \<noteq> NULL" "unat p + length s < 2 ^ 32" using room(3) by (simp_all add: beside_def)
  have p0: "0 < unat p" using p(1) by (simp add: unat_gt_0)
  obtain as m1 where t: "tokens_loop p d NULL [] m = okE (as, m1)"
      "list_all2 (\<lambda>a w. str_at m1 a w \<and> unat p \<le> unat a \<and> unat a + length w \<le> unat p + length s) as (cmd_words s)"
    and f1: "\<And>x. unat x < unat p \<or> unat p + length s \<le> unat x \<Longrightarrow> m1 x = m x"
    using tokens_loop_words [OF line(2,3,1) p, of p NULL "[]"] count by auto
  have l: "list_all2 (\<lambda>a w. str_at m1 a w \<and> beside lo (unat esp) a w) as (cmd_words s)"
    using t(2) by (rule list_all2_mono) (use room(3) p p0 in \<open>auto simp: beside_def\<close>)
  have z1: "m1 x = 0" if "lo \<le> unat x" "unat x < unat esp" for x
    using zero [OF that] f1 [of x] that room(3) by (auto simp: beside_def)
  show ?thesis using push_block_result [OF l room(1,2) z1] t(1) f1 by (auto simp: push_argument_def)
qed

section \<open>Segments\<close>

lemma ROUND_UP_unat:
  assumes "unat x + 4095 < 2 ^ 32"
  shows "unat (ROUND_UP x PGSIZE) = (unat x + 4095) div 4096 * 4096"
proof -
  have "x + PGSIZE - 1 = x + of_nat 4095" by (simp add: PGSIZE_eq)
  moreover have "unat (x + of_nat 4095) = unat x + 4095" using assms by (rule unat_off)
  ultimately have "unat (x + PGSIZE - 1) = unat x + 4095" by (simp only:)
  moreover have "(unat x + 4095) div 4096 * 4096 < 2 ^ 32" using assms div_times_less_eq_dividend le_less_trans by blast
  ultimately show ?thesis by (simp add: ROUND_UP_def unat_word_ariths unat_div PGSIZE_eq)
qed

lemma round_up_bounds:
  fixes n :: nat
  shows "n \<le> (n + 4095) div 4096 * 4096" "a mod 4096 = 0 \<Longrightarrow> b mod 4096 = 0 \<Longrightarrow> a + n \<le> b \<Longrightarrow> a + (n + 4095) div 4096 * 4096 \<le> b"
proof -
  show "n \<le> (n + 4095) div 4096 * 4096"
    using div_mult_mod_eq [of "n + 4095" 4096] mod_less_divisor [of 4096 "n + 4095"] by linarith
  assume "a mod 4096 = 0" "b mod 4096 = 0" and le: "a + n \<le> b"
  then obtain i j where ij: "a = 4096 * i" "b = 4096 * j" by (auto simp: mod_eq_0_iff_dvd elim!: dvdE)
  then have "n \<le> 4096 * (j - i)" "i \<le> j" using le by (auto simp: diff_mult_distrib2)
  then have "(n + 4095) div 4096 \<le> j - i" by (simp add: less_Suc_eq_le [symmetric] div_less_iff_less_mult)
  then show "a + (n + 4095) div 4096 * 4096 \<le> b" using ij \<open>i \<le> j\<close> by (simp add: le_diff_conv2)
qed

lemma validate_segmentD:
  assumes "validate_segment phdr f fs = Inr True"
  shows "unat (p_vaddr phdr) + unat (p_memsz phdr) < unat PHYS_BASE" "PGSIZE \<le> p_vaddr phdr"
    "p_filesz phdr \<le> p_memsz phdr" "0 < p_memsz phdr"
proof -
  have c: "is_user_vaddr (p_vaddr phdr + p_memsz phdr)" "\<not> p_vaddr phdr + p_memsz phdr < p_vaddr phdr"
    "\<not> p_vaddr phdr < PGSIZE" "\<not> p_memsz phdr < p_filesz phdr" "p_memsz phdr \<noteq> 0"
    using assms by (auto simp: validate_segment_def bindR_def split: if_splits sum.splits)
  have "unat (p_vaddr phdr + p_memsz phdr) = unat (p_vaddr phdr) + unat (p_memsz phdr)"
    using c(2) by (simp add: unat_plus_simple [symmetric] not_less)
  then show "unat (p_vaddr phdr) + unat (p_memsz phdr) < unat PHYS_BASE"
    using c(1) by (simp add: is_user_vaddr_def word_less_nat_alt)
  show "PGSIZE \<le> p_vaddr phdr" "p_filesz phdr \<le> p_memsz phdr" "0 < p_memsz phdr"
    using c(3-5) by (simp_all add: not_less word_neq_0_conv)
qed

lemma segment_bytes_pages:
  assumes v: "validate_segment phdr f fs = Inr True"
  shows "unat (fst (segment_bytes phdr)) + unat (snd (segment_bytes phdr)) =
      (unat (pg_ofs (p_vaddr phdr)) + unat (p_memsz phdr) + 4095) div 4096 * 4096"
    "p_filesz phdr > 0 \<Longrightarrow> unat (fst (segment_bytes phdr)) = unat (pg_ofs (p_vaddr phdr)) + unat (p_filesz phdr)"
proof -
  let ?o = "pg_ofs (p_vaddr phdr)"
  note d = validate_segmentD [OF v]
  have o: "unat ?o \<le> unat (p_vaddr phdr)" by (simp add: pg_ofs_mod)
  have b: "unat PHYS_BASE + 4096 < 2 ^ 32" by (simp add: PHYS_BASE_def)
  have f: "unat (p_filesz phdr) \<le> unat (p_memsz phdr)" using d(3) by (simp add: word_le_nat_alt)
  have m: "unat (?o + p_memsz phdr) = unat ?o + unat (p_memsz phdr)" "unat (?o + p_filesz phdr) = unat ?o + unat (p_filesz phdr)"
    using unat_off [of ?o "unat (p_memsz phdr)"] unat_off [of ?o "unat (p_filesz phdr)"] o b d(1) f by simp_all
  have r: "unat (ROUND_UP (?o + p_memsz phdr) PGSIZE) = (unat ?o + unat (p_memsz phdr) + 4095) div 4096 * 4096"
    using ROUND_UP_unat [of "?o + p_memsz phdr"] m o b d(1) by simp
  then have "?o + p_filesz phdr \<le> ROUND_UP (?o + p_memsz phdr) PGSIZE"
    using round_up_bounds(1) [of "unat ?o + unat (p_memsz phdr)"] f m(2) unfolding word_le_nat_alt by linarith
  then show "unat (fst (segment_bytes phdr)) + unat (snd (segment_bytes phdr)) =
      (unat ?o + unat (p_memsz phdr) + 4095) div 4096 * 4096"
    using r by (simp add: segment_bytes_def Let_def pg_ofs_def [symmetric] unat_sub word_le_nat_alt)
  show "p_filesz phdr > 0 \<Longrightarrow> unat (fst (segment_bytes phdr)) = unat ?o + unat (p_filesz phdr)"
    using m(2) by (simp add: segment_bytes_def Let_def pg_ofs_def [symmetric])
qed

section \<open>Properties\<close>

text \<open>C11. Argument passing lays out the stack for \<^verbatim>\<open>main\<close>. Given the command line \<open>s\<close> in a buffer beside
  a cleared part of the stack that has room for the block, and shorter than \<^verbatim>\<open>MAX_CMD_SIZE\<close>, the array of
  128 pointers is large enough, the block fits in a page, and \<^verbatim>\<open>push_argument\<close> returns with a
  stack pointer the size of the block lower and aligned as before. Above it are the number of the words of \<open>s\<close>,
  the address of the argument vector and the vector itself, whose elements point to the words in order, ended by a null
  pointer. Bytes outside the block and the buffer are unchanged.\<close>

theorem push_argument_layout:
  assumes "str_at m p s" "delims_at m d [32]" "unat d + 2 \<le> unat p \<or> unat p + length s < unat d"
    and "length s < MAX_CMD_SIZE"
    and "lo + args_size (cmd_words s) = unat esp" "0 < lo" "beside lo (unat esp) p s"
    and "\<And>x. lo \<le> unat x \<Longrightarrow> unat x < unat esp \<Longrightarrow> m x = 0"
  shows "args_size (cmd_words s) \<le> 4096 \<and> (\<exists>e m'. push_argument p d esp m = okE (e, m') \<and> unat e = lo \<and> unat e mod 4 = unat esp mod 4 \<and>
    argument_block m' e (cmd_words s) \<and>
    (\<forall>x. (unat x < lo \<or> unat esp \<le> unat x) \<and> (unat x < unat p \<or> unat p + length s \<le> unat x) \<longrightarrow> m' x = m x))"
proof -
  have "lo mod 4 = unat esp mod 4" using assms(5) [symmetric] args_size_mod [of "cmd_words s"] by (simp add: mod_add_eq [symmetric])
  then show ?thesis using push_argument_result [OF assms(1-3) args_fit(1) [OF assms(4)] assms(5-8)] args_fit(2) [OF assms(4)] by metis
qed

text \<open>The command line \<^verbatim>\<open>ls  -l\<close>.\<close>

definition demo_line :: bmem where
  "demo_line = (\<lambda>_. 0)(0x80 := 32, 0x100 := 108, 0x101 := 115, 0x102 := 32, 0x103 := 32, 0x104 := 45, 0x105 := 108)"

lemma demo_line_words: "cmd_words [108, 115, 32, 32, 45, 108] = [[108, 115], [45, 108]]"
  by (simp add: cmd_words.simps)

lemma demo_line_zero: "0x110 \<le> unat x \<Longrightarrow> demo_line x = 0"
  by (auto simp: demo_line_def)

theorem push_argument_layout_witness:
  "\<exists>e m'. push_argument 0x100 0x80 0xc0000000 demo_line = okE (e, m') \<and> unat e = 0xbfffffe0 \<and>
    argument_block m' e [[108, 115], [45, 108]]"
proof -
  have w: "length [108, 115, 32, 32, 45, 108 :: u8] < MAX_CMD_SIZE"
    "0xbfffffe0 + args_size (cmd_words [108, 115, 32, 32, 45, 108]) = unat (0xc0000000 :: ptr)"
    by (simp_all add: demo_line_words args_size_def args_pad_def strings_size_def MAX_CMD_SIZE_def)
  have l: "str_at demo_line 0x100 [108, 115, 32, 32, 45, 108]" "delims_at demo_line 0x80 [32]"
    "beside 0xbfffffe0 (unat (0xc0000000 :: ptr)) 0x100 [108, 115, 32, 32, 45, 108]"
    by (simp_all add: demo_line_def delims_space beside_def)
  show ?thesis
    using push_argument_layout [OF l(1,2) _ w _ l(3)] demo_line_zero by (auto simp: demo_line_words)
qed

text \<open>C14. A loadable segment that \<^verbatim>\<open>validate_segment\<close> accepts is loaded into user memory: the pages given to
  \<^verbatim>\<open>load_segment\<close> begin above page 0, contain the segment and end at or below \<^verbatim>\<open>PHYS_BASE\<close>; the number of bytes to
  read is that of the file part and its offset in the page; and none of the three assertions at the head of
  \<^verbatim>\<open>load_segment\<close> fails.\<close>

theorem segment_in_user_space:
  assumes "validate_segment phdr f (vfs s) = Inr True"
  shows "let base = p_vaddr phdr AND NOT PGMASK; ofs = sint (p_offset phdr AND NOT PGMASK);
      (read_bytes, zero_bytes) = segment_bytes phdr in
    PGSIZE \<le> base \<and> base \<le> p_vaddr phdr \<and>
    unat (p_vaddr phdr) + unat (p_memsz phdr) \<le> unat base + unat read_bytes + unat zero_bytes \<and>
    unat base + unat read_bytes + unat zero_bytes \<le> unat PHYS_BASE \<and>
    (p_filesz phdr > 0 \<longrightarrow> unat read_bytes = unat (p_vaddr phdr) - unat base + unat (p_filesz phdr)) \<and>
    load_segment f ofs base read_bytes zero_bytes writable s = bindE (Some (file_seek (Some f) ofs (vfs s))) (\<lambda>fs.
      load_segment_loop f base read_bytes zero_bytes writable (s\<lparr>vfs := fs\<rparr>))"
proof -
  let ?va = "p_vaddr phdr" and ?m = "unat (p_memsz phdr)"
  obtain r z where rz: "segment_bytes phdr = (r, z)" by (cases "segment_bytes phdr")
  have base: "?va AND NOT PGMASK = pg_round_down ?va" by (simp add: pg_round_down_def)
  have u: "unat (pg_round_down ?va) + unat (pg_ofs ?va) = unat ?va" "unat (pg_round_down ?va) mod 4096 = 0"
    using pg_ofs_mod [of "pg_round_down ?va"] by (simp_all add: unat_pg_round_down pg_ofs_mod)
  note d = validate_segmentD [OF assms] and b = segment_bytes_pages [OF assms, unfolded rz fst_conv snd_conv]
  have hi: "unat (pg_round_down ?va) + (unat (pg_ofs ?va) + ?m + 4095) div 4096 * 4096 \<le> unat PHYS_BASE"
    using u d(1) by (intro round_up_bounds(2)) (simp_all add: PHYS_BASE_def)
  have "unat r + unat z < 2 ^ 32" using hi b(1) by (simp add: PHYS_BASE_def)
  then have "(r + z) mod PGSIZE = 0"
    using b(1) by (simp add: word_unat_eq_iff unat_mod unat_word_ariths PGSIZE_eq)
  moreover have "word_of_int (sint (p_offset phdr AND NOT PGMASK)) mod PGSIZE = 0"
    using pg_round_down_aligned [of "p_offset phdr"] pg_ofs_mod [of "pg_round_down (p_offset phdr)"]
    by (simp add: pg_round_down_def word_unat_eq_iff unat_mod PGSIZE_eq)
  moreover have "unat ?va - unat (pg_round_down ?va) = unat (pg_ofs ?va)" using u(1) by linarith
  moreover have "PGSIZE \<le> pg_round_down ?va"
    using d(2) by (simp add: word_le_nat_alt PGSIZE_eq unat_pg_round_down)
  ultimately show ?thesis
    using u b hi round_up_bounds(1) [of "unat (pg_ofs ?va) + ?m"]
    by (simp add: Let_def rz base load_segment_def word_le_nat_alt)
qed

text \<open>A file of 8192 bytes and a segment of 5000 bytes in memory, of which 300 are in the file.\<close>

definition demo_exec :: vms where
  "demo_exec = demo_vms\<lparr>vfs := (vfs demo_vms)\<lparr>
     inodes := [0 \<mapsto> \<lparr>i_sector = 2, open_cnt = 1, removed = False, deny_write_cnt = 0,
       i_data = \<lparr>d_start = 3, d_length = 8192, d_magic = 0x494e4f44, d_unused = []\<rparr>\<rparr>],
     files := [1 \<mapsto> \<lparr>f_inode = 0, f_pos = 0, f_deny_write = False, f_fd = 0, f_mapping = 0\<rparr>]\<rparr>\<rparr>"

definition demo_phdr :: Elf32_Phdr where
  "demo_phdr = \<lparr>p_type = PT_LOAD, p_offset = 0x10, p_vaddr = 0x8048010, p_paddr = 0x8048010,
     p_filesz = 300, p_memsz = 5000, p_flags = 5, p_align = 0x1000\<rparr>"

theorem segment_in_user_space_witness:
  "validate_segment demo_phdr 1 (vfs demo_exec) = Inr True \<and> segment_bytes demo_phdr = (316, 7876) \<and>
    load_segment 1 0 0x8048000 316 7876 False demo_exec = bindE (Some (file_seek (Some 1) 0 (vfs demo_exec))) (\<lambda>fs.
      load_segment_loop 1 0x8048000 316 7876 False (demo_exec\<lparr>vfs := fs\<rparr>))"
proof -
  have v: "validate_segment demo_phdr 1 (vfs demo_exec) = Inr True"
    by (simp add: validate_segment_def demo_phdr_def demo_exec_def file_length_def get_file_def get_inode_def inode_length_def
      is_user_vaddr_def vaddr_defs)
  have b: "segment_bytes demo_phdr = (316, 7876)" "p_vaddr demo_phdr AND NOT PGMASK = 0x8048000"
    "p_offset demo_phdr AND NOT PGMASK = 0"
    by (simp_all add: segment_bytes_def demo_phdr_def ROUND_UP_def vaddr_defs)
  show ?thesis using segment_in_user_space [OF v, where writable = False] v unfolding b Let_def by simp
qed

end
