(* ===== verification/Spec2Isabelle.thy ===== *)
theory Spec2Isabelle
  imports Klist_Props Klib_Props Kselftest Kcksum Kvaddr Ksynch_Props Kmalloc Kdir_Spec Kprocess
begin

text \<open>
  A verification of the Pintos kernel in this repository: its library, threads and synchronisation,
  memory allocators, file system and virtual memory. File names are relative to \<^verbatim>\<open>src/src\<close>.

  \<^bold>\<open>The program and its parts.\<close> The kernel runs threads on one processor. Interrupts
  preempt them (\<^verbatim>\<open>threads/interrupt.c\<close>, \<^verbatim>\<open>threads/thread.c\<close>), semaphores, locks and condition
  variables order them (\<^verbatim>\<open>threads/synch.c\<close>). Pages come from two pools (\<^verbatim>\<open>threads/palloc.c\<close>), blocks
  from pages (\<^verbatim>\<open>threads/malloc.c\<close>). Lists, bitmaps and hash tables (\<^verbatim>\<open>lib/kernel\<close>) are used by all of
  these: the run queue and the wait lists are lists, the pools and the free map of the disk are
  bitmaps, the table of a process' pages is a hash table. The file system keeps inodes, a free map
  and one directory on a disk (\<^verbatim>\<open>filesys\<close>). User processes have page directories
  (\<^verbatim>\<open>userprog/pagedir.c\<close>), a supplemental page table (\<^verbatim>\<open>vm/page.c\<close>) and frames that can be written to a
  swap disk (\<^verbatim>\<open>vm/frame.c\<close>, \<^verbatim>\<open>vm/swap.c\<close>); the page fault handler (\<^verbatim>\<open>userprog/exception.c\<close>) ties these
  together.

  \<^bold>\<open>How code becomes definitions.\<close> A C function is a HOL function of the same name on
  an explicit state. An assertion that fails, a panic, a division by zero or a bad pointer is a value
  of type \<open>panic\<close> on the left of a sum (\<open>'a res\<close>); a loop that need not end is a
  \<open>partial_function\<close> whose divergence is \<open>None\<close> (\<open>'a exec\<close>), and
  theorems that a function returns state that the result is neither. Machine integers are words of
  32, 64 or 8 bits, so sums and products wrap; file offsets and counters that the code keeps small
  are integers. \<^verbatim>\<open>Prelude\<close> holds these types and the facts about them.

  \<^bold>\<open>Library.\<close> \<^verbatim>\<open>Klist\<close>, \<^verbatim>\<open>Klist_Links\<close>, \<^verbatim>\<open>Klist_Ops\<close>, \<^verbatim>\<open>Klist_Algs\<close> and \<^verbatim>\<open>Klist_Sort\<close> model
  \<^verbatim>\<open>lib/kernel/list.c\<close> on a store of links; \<open>list_rep\<close> says that a list object represents a
  sequence, and each operation is shown to compute the operation on sequences. \<^verbatim>\<open>Weak_Order\<close> is the
  contract of comparison functions, with the merging and sorting passes on sequences that the
  linked code refines. \<^verbatim>\<open>Kbitmap\<close> (\<^verbatim>\<open>lib/kernel/bitmap.c\<close>), \<^verbatim>\<open>Khash\<close> (\<^verbatim>\<open>lib/kernel/hash.c\<close>), \<^verbatim>\<open>Karith\<close>
  (\<^verbatim>\<open>lib/arithmetic.c\<close>), \<^verbatim>\<open>Kstring\<close> (\<^verbatim>\<open>lib/string.c\<close>), \<^verbatim>\<open>Kstdlib\<close> and \<^verbatim>\<open>Kheapsort\<close> (\<^verbatim>\<open>lib/stdlib.c\<close>),
  \<^verbatim>\<open>Krandom\<close> (\<^verbatim>\<open>lib/random.c\<close>, \<^verbatim>\<open>tests/arc4.c\<close>), \<^verbatim>\<open>Kcksum\<close> (\<^verbatim>\<open>tests/cksum.c\<close>) follow the same pattern.
  \<^verbatim>\<open>Klist_Props\<close> and \<^verbatim>\<open>Klib_Props\<close> state the results; \<^verbatim>\<open>Kselftest\<close> shows that the self tests in
  \<^verbatim>\<open>tests/internal\<close> cannot fail.

  \<^bold>\<open>Threads.\<close> \<^verbatim>\<open>Ksched\<close> models interrupt levels, the scheduler and the timer
  interrupt, \<^verbatim>\<open>Ksynch\<close> the synchronisation objects and the creation and exit of threads. A call that
  can block is a sequence of actions of its thread, so that any other thread and any interrupt can
  run in between; the inductive relation \<open>step\<close> is one action, one call or one interrupt.
  \<^verbatim>\<open>Ksynch_Inv\<close> proves the invariant of all steps, \<^verbatim>\<open>Ksynch_Props\<close> that the start of the kernel
  establishes it and what follows: mutual exclusion, no failing assertion, bounded overtaking in the
  run queue and preemption at the end of a time slice.

  \<^bold>\<open>Memory.\<close> \<^verbatim>\<open>Kextent\<close> is the contract of an allocator and the client's view of it, a
  history of allocations and releases whose live extents are disjoint. \<^verbatim>\<open>Kvaddr\<close> models addresses and
  page table entries (\<^verbatim>\<open>threads/vaddr.h\<close>, \<^verbatim>\<open>threads/pte.h\<close>), \<^verbatim>\<open>Kpalloc\<close> the page allocator and \<^verbatim>\<open>Kmalloc\<close>
  the block allocator; both discharge the contract.

  \<^bold>\<open>File system.\<close> \<^verbatim>\<open>Kinode\<close> models the data path of \<^verbatim>\<open>filesys/inode.c\<close> over an array of
  sectors, \<^verbatim>\<open>Kfile\<close> the rest of inodes, \<^verbatim>\<open>filesys/file.c\<close> and \<^verbatim>\<open>filesys/free-map.c\<close> (a third allocator),
  \<^verbatim>\<open>Kdir\<close> \<^verbatim>\<open>filesys/directory.c\<close> and \<^verbatim>\<open>filesys/filesys.c\<close>. \<^verbatim>\<open>Kdir_Spec\<close> shows that files keep what is
  written to them, that a directory is a map from names to sectors, and that its searches end.

  \<^bold>\<open>Virtual memory.\<close> \<^verbatim>\<open>Kpagedir\<close> models two-level page tables as words in the memory of
  the page allocator, \<^verbatim>\<open>Kpagedir_Props\<close> that a directory is a map from user pages to frames and that
  the directories of all processes stay well formed and apart. \<^verbatim>\<open>Kpage\<close> models the supplemental page
  table and shows that it is a map; it instantiates the contract of \<^verbatim>\<open>Khash\<close>. \<^verbatim>\<open>Kframe\<close> models frames,
  swapping and the page fault handler; \<^verbatim>\<open>Kframe_Props\<close> shows that a page survives being swapped out and
  in, and that the set-up of the swap slots ends. \<^verbatim>\<open>Kprocess\<close> models the argument passing and the
  loading of segments in \<^verbatim>\<open>userprog/process.c\<close>; it shows the layout of the stack that a program starts with
  and that a valid segment is loaded into user memory.

  \<^bold>\<open>Bounds.\<close> No fuel is used. Where the code counts in 32 bits, the theorems have the
  bound as a hypothesis (a block size that does not wrap, a list shorter than the address space) or
  derive it from the invariant.

  \<^bold>\<open>Not modelled.\<close> Assembly and boot code (\<^verbatim>\<open>threads/loader.S\<close>, \<^verbatim>\<open>threads/start.S\<close>,
  \<^verbatim>\<open>threads/intr-stubs.S\<close>, the parsing of options in \<^verbatim>\<open>threads/init.c\<close>): the processor state they work
  on is outside the C program. Device registers (\<^verbatim>\<open>devices/disk.c\<close>, \<^verbatim>\<open>devices/kbd.c\<close>,
  \<^verbatim>\<open>devices/serial.c\<close>, \<^verbatim>\<open>devices/vga.c\<close>, \<^verbatim>\<open>userprog/gdt.c\<close>, \<^verbatim>\<open>userprog/tss.c\<close>): the disk is an array of
  sectors with the range checks of the driver. Console output (\<^verbatim>\<open>lib/stdio.c\<close>,
  \<^verbatim>\<open>lib/kernel/console.c\<close>): nothing depends on it. The start and exit of processes (the rest of
  \<^verbatim>\<open>userprog/process.c\<close>) and the system calls (\<^verbatim>\<open>userprog/syscall.c\<close>), user programs (\<^verbatim>\<open>lib/user\<close>, \<^verbatim>\<open>examples\<close>) and host
  utilities (\<^verbatim>\<open>utils\<close>). Whether a kernel allocation made by the file system or the virtual memory
  code succeeds is a parameter of their state, not a call of the model of \<^verbatim>\<open>malloc\<close>; the semaphores
  of \<^verbatim>\<open>vm/frame.c\<close> and \<^verbatim>\<open>vm/swap.c\<close> are not taken, since each of these functions is one step.
\<close>

end
